(* ===== verification/Ffvms_Prelude.thy ===== *)
theory Ffvms_Prelude
  imports Main "HOL-Library.Word" "HOL-Library.Char_ord" "HOL-Library.List_Lexorder"
begin

text \<open>
  Vocabulary shared by the theories of the development: what the sources use of
  \<open>std::string\<close> (\<open>find\<close>, \<open>substr\<close>), of \<open>fmt::format\<close> (decimal numbers), of
  \<open>std::set\<close> over pointers (ordered lists) and of C++'s signed \<open>int\<close>
  arithmetic (a result outside the type's range is undefined behaviour, the value \<open>None\<close>).
  Bytes are \<open>8 word\<close>; characters of strings are bytes, compared as unsigned values as
  \<open>std::char_traits<char>\<close> compares them.
\<close>

named_theorems ffvms_defs \<open>definitions a component's proofs unfold together\<close>
named_theorems keeps \<open>every operation keeps the component's invariant\<close>

type_synonym byte = "8 word"
type_synonym bytes = "byte list"

subsection \<open>Results that may be errors\<close>

text \<open>What the sources throw, and \<open>LOG(FATAL)\<close>, which aborts the process.\<close>

datatype std_exn = Out_of_range | Runtime_error string | Undefined_behaviour | Fatal

type_synonym 'a res = "std_exn + 'a"

fun res_bind :: "'a res \<Rightarrow> ('a \<Rightarrow> 'b res) \<Rightarrow> 'b res" where
  "res_bind (Inl e) f = Inl e"
| "res_bind (Inr x) f = f x"

lemma res_bind_Inr_iff: "res_bind r f = Inr y \<longleftrightarrow> (\<exists>x. r = Inr x \<and> f x = Inr y)"
  by (cases r) auto

subsection \<open>Searching in strings\<close>

text \<open>\<open>s.find(p)\<close>: the first position at which \<open>p\<close> occurs, \<open>None\<close> for \<open>npos\<close>.\<close>

fun str_find :: "string \<Rightarrow> string \<Rightarrow> nat option" where
  "str_find [] p = (if p = [] then Some 0 else None)"
| "str_find (c # s) p =
     (if take (length p) (c # s) = p then Some 0 else map_option Suc (str_find s p))"

text \<open>\<open>s.substr(pos)\<close> and \<open>s.substr(pos, n)\<close>: a position past the end throws.\<close>

definition str_substr :: "string \<Rightarrow> nat \<Rightarrow> string res" where
  "str_substr s pos = (if pos \<le> length s then Inr (drop pos s) else Inl Out_of_range)"

definition str_substr_n :: "string \<Rightarrow> nat \<Rightarrow> nat \<Rightarrow> string res" where
  "str_substr_n s pos n =
     (if pos \<le> length s then Inr (take n (drop pos s)) else Inl Out_of_range)"

definition occurs_at :: "string \<Rightarrow> string \<Rightarrow> nat \<Rightarrow> bool" where
  "occurs_at p s i \<longleftrightarrow> i + length p \<le> length s \<and> take (length p) (drop i s) = p"

lemma occurs_at_0: "occurs_at p s 0 \<longleftrightarrow> take (length p) s = p"
  by (auto simp: occurs_at_def) (metis length_take min.cobounded1)

lemma occurs_at_Suc [simp]: "occurs_at p (c # s) (Suc i) \<longleftrightarrow> occurs_at p s i"
  by (simp add: occurs_at_def)

lemma occurs_at_append: "occurs_at p (a @ p @ b) (length a)"
  by (simp add: occurs_at_def)

lemma occurs_at_split: "occurs_at p s i \<longleftrightarrow> (\<exists>a b. s = a @ p @ b \<and> length a = i)"
proof
  assume "occurs_at p s i"
  then have len: "i + length p \<le> length s" and tk: "take (length p) (drop i s) = p"
    by (auto simp: occurs_at_def)
  have "s = take i s @ take (length p) (drop i s) @ drop (length p) (drop i s)"
    by (simp only: append_take_drop_id)
  with tk len show "\<exists>a b. s = a @ p @ b \<and> length a = i"
    by (intro exI [of _ "take i s"] exI [of _ "drop (length p) (drop i s)"]) auto
qed (auto simp: occurs_at_def)

lemma str_find_Some_iff:
  "str_find s p = Some i \<longleftrightarrow> occurs_at p s i \<and> (\<forall>j < i. \<not> occurs_at p s j)"
proof (induction s p arbitrary: i rule: str_find.induct)
  case (1 p)
  then show ?case by (auto simp: occurs_at_def)
next
  case (2 c s p)
  show ?case
  proof (cases "take (length p) (c # s) = p")
    case True
    then have "occurs_at p (c # s) 0" by (simp add: occurs_at_0)
    with True show ?thesis by auto
  next
    case False
    then have no: "\<not> occurs_at p (c # s) 0" by (simp add: occurs_at_0)
    from False have "str_find (c # s) p = map_option Suc (str_find s p)" by simp
    also have "\<dots> = Some i \<longleftrightarrow> (\<exists>k. i = Suc k \<and> str_find s p = Some k)" by auto
    also have "\<dots> \<longleftrightarrow> (\<exists>k. i = Suc k \<and> occurs_at p s k \<and> (\<forall>j < k. \<not> occurs_at p s j))"
      using "2.IH" [OF False] by simp
    also have "\<dots> \<longleftrightarrow> occurs_at p (c # s) i \<and> (\<forall>j < i. \<not> occurs_at p (c # s) j)"
      using no by (cases i) (auto simp: less_Suc_eq_0_disj)
    finally show ?thesis .
  qed
qed

lemma str_find_None_iff: "str_find s p = None \<longleftrightarrow> (\<forall>i. \<not> occurs_at p s i)"
proof (induction s p rule: str_find.induct)
  case (1 p)
  then show ?case by (auto simp: occurs_at_def)
next
  case (2 c s p)
  have split: "(\<forall>i. \<not> occurs_at p (c # s) i) \<longleftrightarrow>
      \<not> occurs_at p (c # s) 0 \<and> (\<forall>i. \<not> occurs_at p s i)"
    by (metis not0_implies_Suc occurs_at_Suc)
  show ?case
    unfolding split using "2.IH" by (auto simp: occurs_at_0)
qed

lemma str_find_bound: "str_find s p = Some i \<Longrightarrow> i + length p \<le> length s"
  by (auto simp: str_find_Some_iff occurs_at_def)

text \<open>A separator that occurs nowhere in what stands before it is found where it stands.\<close>

lemma str_find_append:
  assumes "\<And>i. i < length a \<Longrightarrow> \<not> occurs_at p (a @ p @ b) i"
  shows "str_find (a @ p @ b) p = Some (length a)"
  using assms by (simp add: str_find_Some_iff occurs_at_append)

text \<open>
  A separator whose first character does not come back in it cannot overlap itself: it is found
  behind any text that does not contain it.
\<close>

lemma str_find_unbordered:
  assumes p: "p = c # q" and c: "c \<notin> set q" and a: "str_find a p = None"
  shows "str_find (a @ p @ b) p = Some (length a)"
proof (rule str_find_append)
  fix i assume i: "i < length a"
  show "\<not> occurs_at p (a @ p @ b) i"
  proof
    assume occ: "occurs_at p (a @ p @ b) i"
    then have tk: "take (length p) (drop i (a @ p @ b)) = p" by (simp add: occurs_at_def)
    show False
    proof (cases "i + length p \<le> length a")
      case True
      then have "take (length p) (drop i (a @ p @ b)) = take (length p) (drop i a)" by simp
      with True tk have "occurs_at p a i" by (simp add: occurs_at_def)
      with a show False by (simp add: str_find_None_iff)
    next
      case False
      let ?k = "length a - i"
      from False i have k: "0 < ?k" "?k < length p" by auto
      from tk have "p ! ?k = take (length p) (drop i (a @ p @ b)) ! ?k" by simp
      also from k have "\<dots> = drop i (a @ p @ b) ! ?k" by (simp only: nth_take)
      also from i have "\<dots> = (a @ p @ b) ! (i + ?k)" by (intro nth_drop) simp
      also from i have "\<dots> = (p @ b) ! 0" by (simp add: nth_append)
      also have "\<dots> = c" by (simp add: p)
      finally have "q ! (?k - 1) = c" using k by (simp add: p)
      with c k show False by (metis One_nat_def Suc_less_eq Suc_pred length_Cons nth_mem p)
    qed
  qed
qed

text \<open>What stands before the first occurrence contains no occurrence.\<close>

lemma str_find_take:
  assumes "str_find s p = Some i" and "p \<noteq> []"
  shows "str_find (take i s) p = None"
proof -
  have "\<not> occurs_at p (take i s) j" for j
  proof
    assume "occurs_at p (take i s) j"
    then have j: "j + length p \<le> i" and "take (length p) (drop j (take i s)) = p"
      by (auto simp: occurs_at_def)
    moreover from j have "take (length p) (drop j (take i s)) = take (length p) (drop j s)"
      by (simp add: drop_take)
    moreover from assms(1) have "i \<le> length s" using str_find_bound by fastforce
    ultimately have "occurs_at p s j" by (simp add: occurs_at_def)
    moreover from j \<open>p \<noteq> []\<close> have "j < i" by (cases p) auto
    ultimately show False using assms(1) by (simp add: str_find_Some_iff)
  qed
  then show ?thesis by (simp add: str_find_None_iff)
qed

subsection \<open>Decimal numbers\<close>

text \<open>A number as \<open>fmt::format("{}")\<close> and \<open>inet_ntoa\<close> print it.\<close>

fun fmt_nat :: "nat \<Rightarrow> string" where
  "fmt_nat n = (if n < 10 then [char_of (48 + n)]
                else fmt_nat (n div 10) @ [char_of (48 + n mod 10)])"

declare fmt_nat.simps [simp del]

definition fmt_int :: "int \<Rightarrow> string" where
  "fmt_int i = (if i < 0 then ''-'' @ fmt_nat (nat (- i)) else fmt_nat (nat i))"

definition dec_val :: "string \<Rightarrow> nat" where
  "dec_val = foldl (\<lambda>a c. 10 * a + (of_char c - 48)) 0"

abbreviation digit_char :: "char \<Rightarrow> bool" where
  "digit_char c \<equiv> 48 \<le> (of_char c :: nat) \<and> (of_char c :: nat) \<le> 57"

lemma of_char_digit: "d < 10 \<Longrightarrow> (of_char (char_of (48 + d) :: char) :: nat) = 48 + d"
  by simp

lemma dec_val_fmt_nat: "dec_val (fmt_nat n) = n"
proof (induction n rule: fmt_nat.induct)
  case (1 n)
  show ?case
  proof (cases "n < 10")
    case True
    then show ?thesis
      by (simp add: fmt_nat.simps [of n] dec_val_def of_char_digit del: of_char_of)
  next
    case False
    with "1.IH" have "dec_val (fmt_nat (n div 10)) = n div 10" by simp
    with False show ?thesis
      by (simp add: fmt_nat.simps [of n] dec_val_def of_char_digit del: of_char_of)
  qed
qed

lemma fmt_nat_inject [simp]: "fmt_nat m = fmt_nat n \<longleftrightarrow> m = n"
  by (metis dec_val_fmt_nat)

lemma fmt_nat_digits: "c \<in> set (fmt_nat n) \<Longrightarrow> digit_char c"
proof (induction n rule: fmt_nat.induct)
  case (1 n)
  then show ?case
    by (cases "n < 10") (auto simp: fmt_nat.simps [of n] of_char_digit simp del: of_char_of)
qed

lemma fmt_nat_nonempty [simp]: "fmt_nat n \<noteq> []"
  by (subst fmt_nat.simps) simp

text \<open>Two texts joined by a separator neither left part contains are joined the same way.\<close>

lemma append_sep_inject:
  assumes "x \<notin> set a" and "x \<notin> set c" and "a @ x # b = c @ x # d"
  shows "a = c \<and> b = d"
  using assms
proof (induction a arbitrary: c)
  case Nil
  then show ?case by (cases c) auto
next
  case (Cons y a)
  then show ?case by (cases c) auto
qed

subsection \<open>Ordered sets of pointers\<close>

text \<open>
  \<open>std::set\<close> over pointers: an ascending list without repetitions, so that a loop over
  the set is a loop over the list.
\<close>

definition pset_insert :: "'a::linorder \<Rightarrow> 'a list \<Rightarrow> 'a list" where
  "pset_insert x xs = insort_insert x xs"

definition pset_erase :: "'a::linorder \<Rightarrow> 'a list \<Rightarrow> 'a list" where
  "pset_erase x xs = filter (\<lambda>y. y \<noteq> x) xs"

definition pset_ok :: "'a::linorder list \<Rightarrow> bool" where
  "pset_ok xs \<longleftrightarrow> sorted xs \<and> distinct xs"

lemma set_pset_insert [simp]: "set (pset_insert x xs) = insert x (set xs)"
  by (simp add: pset_insert_def set_insort_insert)

lemma set_pset_erase [simp]: "set (pset_erase x xs) = set xs - {x}"
  by (auto simp: pset_erase_def)

lemma pset_ok_Nil [simp]: "pset_ok []"
  by (simp add: pset_ok_def)

lemma pset_ok_insert [simp]: "pset_ok xs \<Longrightarrow> pset_ok (pset_insert x xs)"
  by (simp add: pset_ok_def pset_insert_def sorted_insort_insert distinct_insort_insert)

lemma pset_ok_erase [simp]: "pset_ok xs \<Longrightarrow> pset_ok (pset_erase x xs)"
  by (simp add: pset_ok_def pset_erase_def sorted_wrt_filter)

lemma pset_erase_id [simp]: "x \<notin> set xs \<Longrightarrow> pset_erase x xs = xs"
  by (auto simp: pset_erase_def intro!: filter_True)

lemma pset_insert_id [simp]: "x \<in> set xs \<Longrightarrow> pset_insert x xs = xs"
  by (simp add: pset_insert_def insort_insert_triv)

subsection \<open>Machine integers\<close>

lemma unat_inject [simp]: "unat a = unat b \<longleftrightarrow> a = b"
  by (auto intro: unsigned_word_eqI)

text \<open>
  The value of an \<open>int\<close> expression, \<open>None\<close> where C++ leaves it undefined: a result
  outside 32 bits, a division by zero. Division truncates towards zero.
\<close>

definition in_int32 :: "int \<Rightarrow> bool" where
  "in_int32 x \<longleftrightarrow> - (2 ^ 31) \<le> x \<and> x < 2 ^ 31"

definition int32 :: "int \<Rightarrow> int option" where
  "int32 x = (if in_int32 x then Some x else None)"

definition trunc_div :: "int \<Rightarrow> int \<Rightarrow> int" where
  "trunc_div num den =
     (let q = abs num div abs den in if num < 0 \<longleftrightarrow> den < 0 then q else - q)"

lemma trunc_div_nonneg: "0 \<le> a \<Longrightarrow> 0 < b \<Longrightarrow> trunc_div a b = a div b"
  by (simp add: trunc_div_def)

end
