(* ===== verification/Lock_Discipline.thy ===== *)
theory Lock_Discipline
  imports Ffvms_Prelude
begin

text \<open>
  The mutexes of the service, the producer and the network server, and what each operation does with
  them: which it takes, in which mode and order, and where in between it reads or writes the
  containers they are for. The other theories let critical sections be atomic; here is what that
  rests on, where the code fails to earn it, and whether operations can block each other for ever.

  A program is the sequence of lock operations and accesses of one branch of a function, in its
  order; a called function is its program in its place. Scoped locks are released in reverse order.
\<close>

section \<open>Locks and threads\<close>

text \<open>
  \<open>mRtspServerMutex\<close>, \<open>mProxyInfoMutex\<close>, the \<open>mClientMutex\<close> of the proxy at an address,
  \<open>mRtpContextMutex\<close>, \<open>mFileContextMutex\<close>, the \<open>mMutex\<close> of the network server and that of the file
  pool. The containers: \<open>mBev2RtspServer\<close>, \<open>mVideoRequest2ProxyInfo\<close>, the client sets (with the SDP) of a proxy, \<open>mRtpVideoContextMap\<close>, \<open>mFileVideoContextMap\<close>, \<open>mRegisteredPeers\<close>.
\<close>

datatype lock = Rtsp_server | Proxy_info | Client nat | Rtp_context | File_context | Peers | Pool

datatype mode = Shared | Unique

datatype var = Server_map | Proxy_map | Clients nat | Rtp_map | File_map | Peer_map

datatype action = Acquire lock mode | Release lock | Read var | Write var

type_synonym prog = "action list"
type_synonym held = "(lock \<times> mode) list"

record thread =
  rest :: prog
  held :: held

definition drop_lock :: "lock \<Rightarrow> held \<Rightarrow> held" where
  "drop_lock l h = filter (\<lambda>e. fst e \<noteq> l) h"

fun perform :: "action \<Rightarrow> held \<Rightarrow> held" where
  "perform (Acquire l m) h = (l, m) # h"
| "perform (Release l) h = drop_lock l h"
| "perform (Read v) h = h"
| "perform (Write v) h = h"

text \<open>
  A lock can be taken if no other thread holds it, or all hold it shared and it is wanted shared.
  C++ leaves open whether a shared request may pass a waiting unique one: \<open>wp\<close> says that it may not.
\<close>

definition free_for :: "thread list \<Rightarrow> nat \<Rightarrow> lock \<Rightarrow> mode \<Rightarrow> bool" where
  "free_for ts i l m \<longleftrightarrow>
     (\<forall>j < length ts. j \<noteq> i \<longrightarrow> (\<forall>(l', m') \<in> set (held (ts ! j)). l' = l \<longrightarrow> m = Shared \<and> m' = Shared))"

definition writer_waits :: "thread list \<Rightarrow> nat \<Rightarrow> lock \<Rightarrow> bool" where
  "writer_waits ts i l \<longleftrightarrow> (\<exists>j < length ts. j \<noteq> i \<and> take 1 (rest (ts ! j)) = [Acquire l Unique])"

fun enabled :: "bool \<Rightarrow> thread list \<Rightarrow> nat \<Rightarrow> action \<Rightarrow> bool" where
  "enabled wp ts i (Acquire l m) = (free_for ts i l m \<and> \<not> (wp \<and> m = Shared \<and> writer_waits ts i l))"
| "enabled wp ts i _ = True"

inductive lk_act :: "bool \<Rightarrow> thread list \<Rightarrow> thread list \<Rightarrow> bool" for wp where
  act: "i < length ts \<Longrightarrow> rest (ts ! i) = a # p \<Longrightarrow> enabled wp ts i a \<Longrightarrow>
    lk_act wp ts (ts[i := \<lparr>rest = p, held = perform a (held (ts ! i))\<rparr>])"

text \<open>Operations also start: \<open>admit ts p\<close> says which may start beside the threads \<open>ts\<close>.\<close>

inductive lk_step :: "bool \<Rightarrow> (thread list \<Rightarrow> prog \<Rightarrow> bool) \<Rightarrow> thread list \<Rightarrow> thread list \<Rightarrow> bool"
  for wp admit where
  go: "lk_act wp ts ts' \<Longrightarrow> lk_step wp admit ts ts'"
| arrive: "admit ts p \<Longrightarrow> lk_step wp admit ts (ts @ [\<lparr>rest = p, held = []\<rparr>])"

inductive lk_run :: "bool \<Rightarrow> (thread list \<Rightarrow> prog \<Rightarrow> bool) \<Rightarrow> thread list \<Rightarrow> bool" for wp admit where
  start: "lk_run wp admit []"
| more: "lk_run wp admit ts \<Longrightarrow> lk_step wp admit ts ts' \<Longrightarrow> lk_run wp admit ts'"

text \<open>Two threads at conflicting accesses; no thread can move although some are not done.\<close>

definition racing :: "var \<Rightarrow> thread list \<Rightarrow> bool" where
  "racing v ts \<longleftrightarrow> (\<exists>i < length ts. \<exists>j < length ts. i \<noteq> j \<and> take 1 (rest (ts ! i)) = [Write v] \<and>
     (take 1 (rest (ts ! j)) = [Write v] \<or> take 1 (rest (ts ! j)) = [Read v]))"

definition deadlocked :: "bool \<Rightarrow> thread list \<Rightarrow> bool" where
  "deadlocked wp ts \<longleftrightarrow> (\<exists>t \<in> set ts. rest t \<noteq> []) \<and> (\<nexists>ts'. lk_act wp ts ts')"

section \<open>The operations\<close>

text \<open>
  The callbacks of the service, with the address of the proxy bound to them. The error callback
  takes no lock. \<open>sendBuffer\<close> is left out: \<open>consumePktFunction\<close> fills it with the mutex shared, and one
  worker for each sender keeps two packets of a proxy apart (see \<open>Network_Server\<close>).
\<close>

definition processSdp_locks :: "nat \<Rightarrow> prog" where
  "processSdp_locks a = [Acquire (Client a) Unique, Write (Clients a), Release (Client a)]"

definition consumePkt_locks :: "nat \<Rightarrow> prog" where
  "consumePkt_locks a = [Acquire (Client a) Shared, Read (Clients a), Release (Client a)]"

definition processError_locks :: "nat \<Rightarrow> prog" where
  "processError_locks a = [Read (Clients a)]"

text \<open>
  \<open>RegisterVideo\<close>: a video that is there already is refused through the error callback; a file is
  submitted to the pool. \<open>UnregisterVideo\<close>.
\<close>

datatype video_kind = File_video | Gb_video | Other_video

fun RegisterVideo_locks :: "video_kind \<Rightarrow> bool \<Rightarrow> nat \<Rightarrow> prog" where
  "RegisterVideo_locks File_video refused a =
     [Acquire File_context Unique, Read File_map] @
     (if refused then processError_locks a else [Write File_map, Acquire Pool Unique, Release Pool]) @
     [Release File_context]"
| "RegisterVideo_locks Gb_video refused a =
     [Acquire Rtp_context Unique, Read Rtp_map] @
     (if refused then processError_locks a else [Write Rtp_map]) @
     [Release Rtp_context]"
| "RegisterVideo_locks Other_video refused a = []"

fun UnregisterVideo_locks :: "video_kind \<Rightarrow> prog" where
  "UnregisterVideo_locks File_video = [Acquire File_context Unique, Write File_map, Release File_context]"
| "UnregisterVideo_locks Gb_video =
     [Acquire Rtp_context Unique, Read Rtp_map, Write Rtp_map, Release Rtp_context]"
| "UnregisterVideo_locks Other_video = []"

text \<open>
  The handlers, with the proxy they find (\<open>None\<close>: there is none). A DESCRIBE is the first for its
  proxy and registers the video, is answered with the SDP that is known, or does neither.
\<close>

definition OnOptions_locks :: "nat option \<Rightarrow> prog" where
  "OnOptions_locks proxy =
     [Acquire Proxy_info Unique, Read Proxy_map] @
     (case proxy of
        None \<Rightarrow> [Write Proxy_map]
      | Some a \<Rightarrow> [Acquire (Client a) Unique, Write (Clients a), Release (Client a)]) @
     [Release Proxy_info]"

datatype describe = First video_kind bool | Known | Waiting

definition OnDescribe_locks :: "(nat \<times> describe) option \<Rightarrow> prog" where
  "OnDescribe_locks proxy =
     [Acquire Proxy_info Unique, Read Proxy_map] @
     (case proxy of
        None \<Rightarrow> []
      | Some (a, d) \<Rightarrow>
          [Acquire (Client a) Unique, Write (Clients a), Read (Clients a)] @
          (case d of
             First kind refused \<Rightarrow> Write (Clients a) # RegisterVideo_locks kind refused a
           | Known \<Rightarrow> [Write (Clients a)]
           | Waiting \<Rightarrow> []) @
          [Release (Client a)]) @
     [Release Proxy_info]"

definition OnPlay_locks :: "(nat \<times> bool) option \<Rightarrow> prog" where
  "OnPlay_locks proxy =
     [Read Proxy_map] @
     (case proxy of
        None \<Rightarrow> []
      | Some (a, described) \<Rightarrow>
          [Acquire (Client a) Unique, Read (Clients a)] @
          (if described then [Write (Clients a)] else []) @
          [Release (Client a)])"

text \<open>
  \<open>Close\<close> searches the sets of the proxies \<open>seen\<close> in vain and takes the client out of those of proxy
  \<open>a\<close>, all without their mutex. The proxy is kept, or dropped, with its video unregistered or not.
\<close>

datatype leaving = Kept | Dropped | Unregister video_kind

definition Close_locks :: "nat list \<Rightarrow> (nat \<times> leaving) option \<Rightarrow> prog" where
  "Close_locks seen found =
     [Acquire Proxy_info Unique, Read Proxy_map] @ map (\<lambda>b. Read (Clients b)) seen @
     (case found of
        None \<Rightarrow> []
      | Some (a, d) \<Rightarrow>
          [Read (Clients a), Write (Clients a), Read (Clients a)] @
          (case d of
             Kept \<Rightarrow> []
           | Dropped \<Rightarrow> [Write Proxy_map]
           | Unregister kind \<Rightarrow> UnregisterVideo_locks kind @ [Write Proxy_map])) @
     [Release Proxy_info]"

text \<open>
  The callbacks of the connections around them: any number of requests in what is read; an event
  for a connection that is not known (\<open>None\<close>) is dropped.
\<close>

definition accept_locks :: "bool \<Rightarrow> prog" where
  "accept_locks known =
     [Acquire Rtsp_server Unique, Read Server_map] @ (if known then [] else [Write Server_map]) @
     [Release Rtsp_server]"

definition readcb_locks :: "prog list \<Rightarrow> prog" where
  "readcb_locks handlers =
     [Acquire Rtsp_server Shared, Read Server_map] @ concat handlers @ [Release Rtsp_server]"

definition errorcb_locks :: "prog option \<Rightarrow> prog" where
  "errorcb_locks close =
     [Acquire Rtsp_server Unique, Read Server_map] @
     (case close of None \<Rightarrow> [] | Some p \<Rightarrow> Write Server_map # p) @
     [Release Rtsp_server]"

text \<open>
  The producer's side: the answer to an invite, which registers the peer with the network server; a
  datagram that becomes \<open>n\<close> packets; the probe of a file; a tick of its timer; a worker of the pool
  that takes a task.
\<close>

datatype invite = Accepted nat | Failed nat | Unregistered

definition invite_locks :: "invite \<Rightarrow> prog" where
  "invite_locks r =
     [Acquire Rtp_context Shared] @
     (case r of
        Accepted a \<Rightarrow>
          processSdp_locks a @ [Acquire Peers Unique, Read Peer_map, Write Peer_map, Release Peers]
      | Failed a \<Rightarrow> processError_locks a
      | Unregistered \<Rightarrow> []) @
     [Release Rtp_context]"

definition packet_locks :: "(nat \<times> nat) option option \<Rightarrow> prog" where
  "packet_locks peer =
     [Acquire Peers Shared, Read Peer_map] @
     (case peer of
        None \<Rightarrow> []
      | Some ctx \<Rightarrow>
          [Acquire Rtp_context Shared] @
          (case ctx of None \<Rightarrow> [] | Some (a, n) \<Rightarrow> concat (replicate n (consumePkt_locks a))) @
          [Release Rtp_context]) @
     [Release Peers]"

definition probe_locks :: "nat \<Rightarrow> bool \<Rightarrow> bool \<Rightarrow> bool \<Rightarrow> prog" where
  "probe_locks a described started failed =
     [Acquire File_context Shared, Read File_map] @ (if described then processSdp_locks a else []) @
     [Release File_context] @
     (if started then []
      else (if failed then [Acquire File_context Shared, Read File_map] @ processError_locks a @ [Release File_context]
            else []) @
           [Acquire File_context Unique, Write File_map, Release File_context])"

definition frame_locks :: "nat \<Rightarrow> nat \<Rightarrow> bool \<Rightarrow> prog" where
  "frame_locks a n failed =
     concat (replicate n (consumePkt_locks a)) @ (if failed then processError_locks a else [])"

definition worker_locks :: prog where
  "worker_locks = [Acquire Pool Unique, Release Pool]"

text \<open>
  The handlers, and the operations: those that take \<open>mClientMutex\<close> for the sets, and all, with
  \<open>Close\<close> and the error callback, which do not.
\<close>

inductive handler :: "prog \<Rightarrow> bool" where
  options: "handler (OnOptions_locks proxy)"
| describe: "handler (OnDescribe_locks proxy')"
| play: "handler (OnPlay_locks proxy'')"

inductive locked_operation :: "prog \<Rightarrow> bool" where
  accepting: "locked_operation (accept_locks known)"
| reading: "\<forall>p \<in> set handlers. handler p \<Longrightarrow> locked_operation (readcb_locks handlers)"
| stranger: "locked_operation (errorcb_locks None)"
| invited: "locked_operation (invite_locks (Accepted a))"
| withdrawn: "locked_operation (invite_locks Unregistered)"
| packet: "locked_operation (packet_locks peer)"
| probed: "locked_operation (probe_locks a described started False)"
| frame: "locked_operation (frame_locks a n False)"
| working: "locked_operation worker_locks"

inductive operation :: "prog \<Rightarrow> bool" where
  locked: "locked_operation p \<Longrightarrow> operation p"
| closing: "operation (errorcb_locks (Some (Close_locks seen found)))"
| not_invited: "operation (invite_locks (Failed a))"
| not_probed: "operation (probe_locks a described started True)"
| no_frame: "operation (frame_locks a n True)"

lemmas lock_programs =
  processError_locks_def processSdp_locks_def consumePkt_locks_def OnOptions_locks_def
  OnDescribe_locks_def OnPlay_locks_def Close_locks_def accept_locks_def readcb_locks_def
  errorcb_locks_def invite_locks_def packet_locks_def probe_locks_def frame_locks_def worker_locks_def

section \<open>Invariants of a run\<close>

lemma drop_lock_simps [simp]:
  "drop_lock l [] = []"
  "drop_lock l ((l', m) # h) = (if l' = l then drop_lock l h else (l', m) # drop_lock l h)"
  by (simp_all add: drop_lock_def)

lemma drop_lock_absent [simp]: "l \<notin> fst ` set h \<Longrightarrow> drop_lock l h = h"
  by (force simp: drop_lock_def filter_id_conv)

lemma set_drop_lock [simp]: "set (drop_lock l h) = {e \<in> set h. fst e \<noteq> l}"
  by (auto simp: drop_lock_def)

text \<open>
  What holds of an operation when it starts and survives each of its actions holds of every thread
  at every moment. Two such: a check \<open>ok\<close> that is asked before each action with the locks held then,
  and the locks that are held in the end.
\<close>

definition every :: "(held \<Rightarrow> prog \<Rightarrow> bool) \<Rightarrow> thread list \<Rightarrow> bool" where
  "every P ts \<longleftrightarrow> (\<forall>t \<in> set ts. P (held t) (rest t))"

fun along :: "(held \<Rightarrow> action \<Rightarrow> bool) \<Rightarrow> held \<Rightarrow> prog \<Rightarrow> bool" where
  "along ok h [] = True"
| "along ok h (a # p) = (ok h a \<and> along ok (perform a h) p)"

fun final :: "held \<Rightarrow> prog \<Rightarrow> held" where
  "final h [] = h"
| "final h (a # p) = final (perform a h) p"

lemma final_append [simp]: "final h (p @ q) = final (final h p) q"
  by (induction p arbitrary: h) simp_all

lemma along_append [simp]: "along ok h (p @ q) \<longleftrightarrow> along ok h p \<and> along ok (final h p) q"
  by (induction p arbitrary: h) auto

lemma everyD: "every P ts \<Longrightarrow> i < length ts \<Longrightarrow> P (held (ts ! i)) (rest (ts ! i))"
  by (simp add: every_def)

locale thread_invariant =
  fixes P :: "held \<Rightarrow> prog \<Rightarrow> bool"
  assumes perform: "P h (a # p) \<Longrightarrow> P (perform a h) p"
begin

lemma every_act:
  assumes "lk_act wp ts ts'" "every P ts"
  shows "every P ts'"
  using assms(1)
proof cases
  case (act i a p)
  have "P (perform a (held (ts ! i))) p"
    using everyD [OF assms(2) act(2)] perform act(3) by simp
  then show ?thesis
    using assms(2) act(1) set_update_subset_insert [of ts i] by (fastforce simp: every_def)
qed

lemma every_run:
  assumes "lk_run wp admit ts" "\<And>us p. admit us p \<Longrightarrow> P [] p"
  shows "every P ts"
  using assms(1)
proof induction
  case start
  show ?case
    by (simp add: every_def)
next
  case (more ts ts')
  from more(2) show ?case
  proof cases
    case go
    then show ?thesis
      using every_act more(3) by blast
  next
    case (arrive p)
    then show ?thesis
      using more(3) assms(2) by (auto simp: every_def)
  qed
qed

end

interpretation check: thread_invariant "along ok" for ok
  by unfold_locales simp

interpretation tidy: thread_invariant "\<lambda>h p. final h p = []"
  by unfold_locales simp

text \<open>A lock is never held by two threads unless both hold it shared.\<close>

definition exclusive :: "thread list \<Rightarrow> bool" where
  "exclusive ts \<longleftrightarrow> (\<forall>i < length ts. \<forall>j < length ts. i \<noteq> j \<longrightarrow>
     (\<forall>l m m'. (l, m) \<in> set (held (ts ! i)) \<longrightarrow> (l, m') \<in> set (held (ts ! j)) \<longrightarrow> m = Shared \<and> m' = Shared))"

lemma exclusiveD:
  "exclusive ts \<Longrightarrow> i < length ts \<Longrightarrow> j < length ts \<Longrightarrow> i \<noteq> j \<Longrightarrow>
   (l, m) \<in> set (held (ts ! i)) \<Longrightarrow> (l, m') \<in> set (held (ts ! j)) \<Longrightarrow> m = Shared \<and> m' = Shared"
  unfolding exclusive_def by blast

lemma perform_held:
  "e \<in> set (perform a h) \<Longrightarrow> e \<in> set h \<or> (\<exists>l m. a = Acquire l m \<and> e = (l, m))"
  by (cases a) auto

lemma free_forD:
  "free_for ts i l m \<Longrightarrow> j < length ts \<Longrightarrow> j \<noteq> i \<Longrightarrow> (l, m') \<in> set (held (ts ! j)) \<Longrightarrow>
   m = Shared \<and> m' = Shared"
  unfolding free_for_def by blast

lemma exclusive_act:
  assumes "lk_act wp ts ts'" "exclusive ts"
  shows "exclusive ts'"
  using assms(1)
proof cases
  case (act i a p)
  let ?h = "perform a (held (ts ! i))"
  have other: "m = Shared \<and> m' = Shared"
    if "j < length ts" "j \<noteq> i" "(l, m) \<in> set ?h" "(l, m') \<in> set (held (ts ! j))" for j l m m'
    using perform_held [OF that(3)]
  proof
    assume "(l, m) \<in> set (held (ts ! i))"
    then show ?thesis
      using exclusiveD [OF assms(2) act(2) that(1) _ _ that(4)] that(2) by blast
  next
    assume "\<exists>l' m''. a = Acquire l' m'' \<and> (l, m) = (l', m'')"
    then have "free_for ts i l m"
      using act(4) by auto
    then show ?thesis
      using free_forD that by blast
  qed
  show ?thesis
    unfolding exclusive_def
  proof (intro allI impI)
    fix j k l m m'
    assume *: "j < length ts'" "k < length ts'" "j \<noteq> k"
      "(l, m) \<in> set (held (ts' ! j))" "(l, m') \<in> set (held (ts' ! k))"
    show "m = Shared \<and> m' = Shared"
    proof (cases "j = i \<or> k = i")
      case True
      then show ?thesis
        using * act other [of k l m m'] other [of j l m' m] by auto
    next
      case False
      then show ?thesis
        using * act exclusiveD [OF assms(2), of j k l m m'] by simp
    qed
  qed
qed

lemma exclusive_run: "lk_run wp admit ts \<Longrightarrow> exclusive ts"
proof (induction rule: lk_run.induct)
  case start
  show ?case
    by (simp add: exclusive_def)
next
  case (more ts ts')
  from more(2) show ?case
  proof cases
    case go
    then show ?thesis
      using exclusive_act more(3) by blast
  next
    case (arrive p)
    then show ?thesis
      using more(3) by (auto simp: exclusive_def nth_append less_Suc_eq)
  qed
qed

lemma concat_along:
  "\<forall>p \<in> set ps. along ok h p \<and> final h p = h \<Longrightarrow> along ok h (concat ps) \<and> final h (concat ps) = h"
  by (induction ps) auto

lemma final_handler [simp]: "handler p \<Longrightarrow> final [(Rtsp_server, m)] p = [(Rtsp_server, m)]"
proof (induction rule: handler.induct)
  case (describe proxy)
  show ?case
  proof (cases proxy)
    case (Some e)
    obtain a d where "e = (a, d)"
      by (cases e)
    then show ?thesis
    proof (cases d)
      case (First kind refused)
      then show ?thesis
        using Some \<open>e = (a, d)\<close> by (cases kind) (simp_all add: lock_programs)
    qed (simp_all add: Some lock_programs)
  qed (simp add: lock_programs)
qed (auto simp: lock_programs split: option.split)

lemma along_readcb:
  assumes "\<forall>p \<in> set handlers. handler p"
    and "\<And>p. handler p \<Longrightarrow> along ok [(Rtsp_server, Shared)] p"
    and "ok [] (Acquire Rtsp_server Shared)" "ok [(Rtsp_server, Shared)] (Read Server_map)"
    and "ok [(Rtsp_server, Shared)] (Release Rtsp_server)"
  shows "along ok [] (readcb_locks handlers)"
  using concat_along [of handlers ok "[(Rtsp_server, Shared)]"] assms by (simp add: readcb_locks_def)

lemma final_packets [simp]:
  "Client a \<notin> fst ` set h \<Longrightarrow> final h (concat (replicate n (consumePkt_locks a))) = h"
  by (induction n) (simp_all add: consumePkt_locks_def)

lemma along_packets:
  assumes "Client a \<notin> fst ` set h" "along ok h (consumePkt_locks a)"
  shows "along ok h (concat (replicate n (consumePkt_locks a)))"
  using assms by (induction n) (simp_all add: consumePkt_locks_def)

lemma final_reads [simp]: "final h (map (\<lambda>b. Read (Clients b)) bs) = h"
  by (induction bs) simp_all

section \<open>Races\<close>

fun guard :: "var \<Rightarrow> lock" where
  "guard Server_map = Rtsp_server"
| "guard Proxy_map = Proxy_info"
| "guard (Clients a) = Client a"
| "guard Rtp_map = Rtp_context"
| "guard File_map = File_context"
| "guard Peer_map = Peers"

text \<open>An access is guarded if it is made with the mutex of the container: a write needs it unique.\<close>

fun guarded :: "var \<Rightarrow> held \<Rightarrow> action \<Rightarrow> bool" where
  "guarded v h (Read w) = (w = v \<longrightarrow> guard v \<in> fst ` set h)"
| "guarded v h (Write w) = (w = v \<longrightarrow> (guard v, Unique) \<in> set h)"
| "guarded v h (Acquire l m) = True"
| "guarded v h (Release l) = True"

lemma next_guarded:
  assumes "every (along ok) ts" "i < length ts" "take 1 (rest (ts ! i)) = [a]"
  shows "ok (held (ts ! i)) a"
  using everyD [OF assms(1,2)] assms(3)
  by (cases "rest (ts ! i)") auto

lemma guarded_race_free:
  assumes "exclusive ts" "every (along (guarded v)) ts"
  shows "\<not> racing v ts"
proof
  assume "racing v ts"
  then obtain i j where ij: "i < length ts" "j < length ts" "i \<noteq> j" "take 1 (rest (ts ! i)) = [Write v]"
    and j: "take 1 (rest (ts ! j)) = [Write v] \<or> take 1 (rest (ts ! j)) = [Read v]"
    unfolding racing_def by blast
  have "(guard v, Unique) \<in> set (held (ts ! i))"
    using next_guarded [OF assms(2) ij(1,4)] by simp
  moreover obtain m where "(guard v, m) \<in> set (held (ts ! j))"
    using j next_guarded [OF assms(2) ij(2)] by fastforce
  ultimately show False
    using exclusiveD [OF assms(1) ij(1-3)] by blast
qed

lemma handler_guarded:
  assumes "handler p" "v \<noteq> Proxy_map"
  shows "along (guarded v) [(Rtsp_server, Shared)] p"
  using assms(1)
proof (induction rule: handler.induct)
  case (describe proxy)
  show ?case
  proof (cases proxy)
    case (Some e)
    obtain a d where "e = (a, d)"
      by (cases e)
    then show ?thesis
    proof (cases d)
      case (First kind refused)
      then show ?thesis
        using Some \<open>e = (a, d)\<close> assms(2) by (cases kind) (auto simp: lock_programs)
    qed (auto simp: Some lock_programs assms(2))
  qed (simp add: lock_programs)
qed (use assms(2) in \<open>auto simp: lock_programs split: option.split\<close>)

lemma guarded_packets:
  "Client a \<notin> fst ` set h \<Longrightarrow> along (guarded v) h (concat (replicate n (consumePkt_locks a)))"
  by (rule along_packets) (auto simp: consumePkt_locks_def)

lemma locked_guarded:
  assumes "locked_operation p" "v \<noteq> Proxy_map"
  shows "along (guarded v) [] p"
  using assms(1)
proof (induction rule: locked_operation.induct)
  case (reading handlers)
  then show ?case
    by (intro along_readcb) (auto simp: handler_guarded assms(2) split: if_splits)
next
  case (packet peer)
  show ?case
    by (auto simp: packet_locks_def guarded_packets split: option.split)
next
  case (frame a n)
  show ?case
    by (simp add: frame_locks_def guarded_packets)
qed (use assms(2) in \<open>auto simp: accept_locks_def errorcb_locks_def invite_locks_def probe_locks_def
       processSdp_locks_def worker_locks_def\<close>)

lemma operation_guarded:
  assumes "operation p" "v \<in> {Server_map, Rtp_map, File_map, Peer_map}"
  shows "along (guarded v) [] p"
  using assms(1)
proof (induction rule: operation.induct)
  case (locked p)
  then show ?case
    using locked_guarded assms(2) by blast
next
  case (closing seen found)
  have reads: "along (guarded v) h (map (\<lambda>b. Read (Clients b)) seen)" for h
    using assms(2) by (induction seen) auto
  obtain k where "found = None \<or> (\<exists>a. found = Some (a, k))"
    by (metis option.exhaust surj_pair)
  then show ?case
  proof (cases k)
    case (Unregister kind)
    then show ?thesis
      using reads assms(2) \<open>found = None \<or> _\<close> by (cases kind) (auto simp: Close_locks_def errorcb_locks_def)
  qed (use reads assms(2) \<open>found = None \<or> _\<close> in \<open>auto simp: Close_locks_def errorcb_locks_def\<close>)
next
  case (no_frame a n)
  show ?case
    using assms(2) by (auto simp: frame_locks_def guarded_packets processError_locks_def)
qed (use assms(2) in \<open>auto simp: invite_locks_def probe_locks_def processSdp_locks_def processError_locks_def\<close>)

lemma race_free:
  assumes "lk_run wp admit ts" "\<And>us p. admit us p \<Longrightarrow> along (guarded v) [] p"
  shows "\<not> racing v ts"
proof (rule guarded_race_free)
  show "exclusive ts"
    by (rule exclusive_run [OF assms(1)])
  show "every (along (guarded v)) ts"
    by (rule check.every_run [OF assms(1)]) (rule assms(2))
qed

section \<open>Deadlock\<close>

text \<open>
  The order of the mutexes: \<open>may_take (l', m') (l, m)\<close> says that a thread with \<open>l'\<close> in mode \<open>m'\<close> may
  ask for \<open>l\<close> in mode \<open>m\<close>. It has the order \<open>mRtspServerMutex > mProxyInfoMutex > mClientMutex\<close> that
  \<open>rtsp_service.h\<close> documents. It is no order of the locks alone: the proxies' mutexes come before
  those of the producer in DESCRIBE, and after them in the callbacks.
\<close>

fun may_take :: "lock \<times> mode \<Rightarrow> lock \<times> mode \<Rightarrow> bool" where
  "may_take (Rtsp_server, m') (l, m) = (l \<noteq> Rtsp_server)"
| "may_take (Proxy_info, m') (l, m) = (l \<noteq> Rtsp_server \<and> l \<noteq> Proxy_info)"
| "may_take (Client a, m') (l, m) = (l = Pool \<or> (l = Rtp_context \<or> l = File_context) \<and> m = Unique)"
| "may_take (Rtp_context, Shared) (l, m) = ((\<exists>a. l = Client a) \<or> (l, m) = (Peers, Unique))"
| "may_take (File_context, Shared) (l, m) = (\<exists>a. l = Client a)"
| "may_take (Peers, Shared) (l, m) = ((\<exists>a. l = Client a) \<or> (l, m) = (Rtp_context, Shared))"
| "may_take (File_context, Unique) (l, m) = (l = Pool)"
| "may_take (Rtp_context, Unique) (l, m) = False"
| "may_take (Peers, Unique) (l, m) = False"
| "may_take (Pool, m') (l, m) = False"

fun ordered :: "held \<Rightarrow> action \<Rightarrow> bool" where
  "ordered h (Acquire l m) = (\<forall>e \<in> set h. may_take e (l, m))"
| "ordered h (Release l) = True"
| "ordered h (Read v) = True"
| "ordered h (Write v) = True"

text \<open>
  \<open>takes_under S T\<close>: a lock of \<open>T\<close> will be asked for with one of \<open>S\<close> held. A DESCRIBE is yet to register
  the video of proxy \<open>a\<close>; a callback of the producer is on its way to proxy \<open>a\<close>.
\<close>

fun takes_under :: "(lock \<Rightarrow> bool) \<Rightarrow> (lock \<Rightarrow> bool) \<Rightarrow> held \<Rightarrow> prog \<Rightarrow> bool" where
  "takes_under S T h [] = False"
| "takes_under S T h (a # p) =
     ((case a of Acquire l m \<Rightarrow> T l \<and> (\<exists>e \<in> set h. S (fst e)) | _ \<Rightarrow> False) \<or> takes_under S T (perform a h) p)"

definition producer_lock :: "lock \<Rightarrow> bool" where
  "producer_lock l \<longleftrightarrow> l = Rtp_context \<or> l = File_context \<or> l = Peers"

definition registering :: "nat \<Rightarrow> held \<Rightarrow> prog \<Rightarrow> bool" where
  "registering a = takes_under (\<lambda>l. l = Client a) (\<lambda>l. l = Rtp_context \<or> l = File_context)"

definition called_back :: "nat \<Rightarrow> held \<Rightarrow> prog \<Rightarrow> bool" where
  "called_back a = takes_under producer_lock (\<lambda>l. l = Client a)"

text \<open>
  An operation may start if it respects cause and effect: the producer calls back for a proxy only
  once the DESCRIBE that binds the callbacks to it has registered them, and a DESCRIBE registers
  only for a proxy that no callback is on its way to, since only the first one does.
\<close>

definition causal :: "thread list \<Rightarrow> prog \<Rightarrow> bool" where
  "causal ts p \<longleftrightarrow> operation p \<and>
     (\<forall>t \<in> set ts. \<forall>a.
        \<not> (registering a [] p \<and> called_back a (held t) (rest t)) \<and>
        \<not> (called_back a [] p \<and> registering a (held t) (rest t)))"

definition separate :: "thread list \<Rightarrow> bool" where
  "separate ts \<longleftrightarrow> (\<forall>i < length ts. \<forall>j < length ts. \<forall>a. i \<noteq> j \<longrightarrow>
     \<not> (registering a (held (ts ! i)) (rest (ts ! i)) \<and> called_back a (held (ts ! j)) (rest (ts ! j))))"

definition orderly :: "thread list \<Rightarrow> bool" where
  "orderly ts \<longleftrightarrow> every (along ordered) ts \<and> every (\<lambda>h p. final h p = []) ts \<and> separate ts"

lemma separate_act:
  assumes "lk_act wp ts ts'" "separate ts"
  shows "separate ts'"
  using assms(1)
proof cases
  case (act i a p)
  have "takes_under S T (held (ts ! k)) (rest (ts ! k))"
    if "takes_under S T (held (ts' ! k)) (rest (ts' ! k))" for S T k
    using that act by (cases "k = i") simp_all
  then have "registering b (held (ts' ! k)) (rest (ts' ! k)) \<Longrightarrow> registering b (held (ts ! k)) (rest (ts ! k))"
    "called_back b (held (ts' ! k)) (rest (ts' ! k)) \<Longrightarrow> called_back b (held (ts ! k)) (rest (ts ! k))" for b k
    by (simp_all add: registering_def called_back_def)
  then show ?thesis
    using assms(2) act(1) unfolding separate_def by (metis length_list_update)
qed

lemma separate_run: "lk_run wp causal ts \<Longrightarrow> separate ts"
proof (induction rule: lk_run.induct)
  case start
  show ?case
    by (simp add: separate_def)
next
  case (more ts ts')
  from more(2) show ?case
  proof cases
    case go
    then show ?thesis
      using separate_act more(3) by blast
  next
    case (arrive p)
    then show ?thesis
      using more(3) by (auto simp: separate_def causal_def nth_append less_Suc_eq)
  qed
qed

lemma orderly_act: "lk_act wp ts ts' \<Longrightarrow> orderly ts \<Longrightarrow> orderly ts'"
  unfolding orderly_def by (auto intro: check.every_act tidy.every_act separate_act)

lemma handler_ordered: "handler p \<Longrightarrow> along ordered [(Rtsp_server, Shared)] p"
proof (induction rule: handler.induct)
  case (describe proxy)
  show ?case
  proof (cases proxy)
    case (Some e)
    obtain a d where "e = (a, d)"
      by (cases e)
    then show ?thesis
    proof (cases d)
      case (First kind refused)
      then show ?thesis
        using Some \<open>e = (a, d)\<close> by (cases kind) (auto simp: lock_programs)
    qed (auto simp: Some lock_programs)
  qed (simp add: lock_programs)
qed (auto simp: lock_programs split: option.split)

lemma ordered_packets:
  "set h \<subseteq> {(Rtp_context, Shared), (Peers, Shared)} \<Longrightarrow>
   along ordered h (concat (replicate n (consumePkt_locks a)))"
  by (rule along_packets) (auto simp: consumePkt_locks_def)

lemma locked_ordered: "locked_operation p \<Longrightarrow> along ordered [] p \<and> final [] p = []"
proof (induction rule: locked_operation.induct)
  case (reading handlers)
  then show ?case
    using concat_along [of handlers ordered "[(Rtsp_server, Shared)]"] handler_ordered
    by (simp add: readcb_locks_def)
next
  case (packet peer)
  show ?case
    by (auto simp: packet_locks_def ordered_packets split: option.split)
next
  case (frame a n)
  show ?case
    by (simp add: frame_locks_def ordered_packets)
qed (auto simp: accept_locks_def errorcb_locks_def invite_locks_def probe_locks_def
       processSdp_locks_def worker_locks_def)

lemma operation_ordered: "operation p \<Longrightarrow> along ordered [] p \<and> final [] p = []"
proof (induction rule: operation.induct)
  case (locked p)
  then show ?case
    by (rule locked_ordered)
next
  case (closing seen found)
  have reads: "along ordered h (map (\<lambda>b. Read (Clients b)) seen)" for h
    by (induction seen) auto
  obtain k where found: "found = None \<or> (\<exists>a. found = Some (a, k))"
    by (metis option.exhaust surj_pair)
  then show ?case
  proof (cases k)
    case (Unregister kind)
    then show ?thesis
      using reads found by (cases kind) (auto simp: Close_locks_def errorcb_locks_def)
  qed (use reads found in \<open>auto simp: Close_locks_def errorcb_locks_def\<close>)
next
  case (no_frame a n)
  show ?case
    by (simp add: frame_locks_def ordered_packets processError_locks_def)
qed (auto simp: invite_locks_def probe_locks_def processSdp_locks_def processError_locks_def)

lemma orderly_run:
  assumes "lk_run wp causal ts"
  shows "orderly ts"
  unfolding orderly_def
proof (intro conjI)
  show "every (along ordered) ts"
    by (rule check.every_run [OF assms]) (simp add: causal_def operation_ordered)
  show "every (\<lambda>h p. final h p = []) ts"
    by (rule tidy.every_run [OF assms]) (simp add: causal_def operation_ordered)
  show "separate ts"
    by (rule separate_run [OF assms])
qed

text \<open>
  What a waiting thread waits for, as a number: the thread that is in its way, if it waits too,
  waits for less. The two uses of a proxy's mutex are told apart by what else is held.
\<close>

definition rank :: "thread \<Rightarrow> nat" where
  "rank t = (case rest t of
     Acquire l m # p \<Rightarrow>
       (case l of
          Rtsp_server \<Rightarrow> 6
        | Proxy_info \<Rightarrow> 5
        | Client a \<Rightarrow> if \<exists>e \<in> set (held t). producer_lock (fst e) then 1 else 4
        | Rtp_context \<Rightarrow> if m = Shared then 1 else 3
        | File_context \<Rightarrow> if m = Shared then 1 else 3
        | Peers \<Rightarrow> if m = Shared then 1 else 2
        | Pool \<Rightarrow> 0)
   | _ \<Rightarrow> 0)"

lemma rank_decreases:
  assumes "rest t = Acquire l m # p" "rest u = Acquire l' m' # p'"
    and "(l, n) \<in> set (held u)" "\<not> (m = Shared \<and> n = Shared)" "ordered (held u) (Acquire l' m')"
    and "\<And>a. \<not> (registering a (held u) (rest u) \<and> called_back a (held t) (rest t))"
  shows "rank u < rank t"
proof -
  have may: "may_take (l, n) (l', m')"
    using assms(3,5) by simp
  have held: "producer_lock l \<Longrightarrow> \<exists>e \<in> set (held u). producer_lock (fst e)"
    using assms(3) by force
  show ?thesis
  proof (cases l)
    case (Client a)
    have "l' = Rtp_context \<or> l' = File_context \<Longrightarrow> registering a (held u) (rest u)"
      using assms(2,3) Client by (force simp: registering_def)
    moreover have "\<exists>e \<in> set (held t). producer_lock (fst e) \<Longrightarrow> called_back a (held t) (rest t)"
      using assms(1) Client by (simp add: called_back_def)
    ultimately show ?thesis
      using may assms(1,2,6) Client by (auto simp: rank_def)
  qed (use may held assms(1,2,4) in
      \<open>cases n; cases l'; auto simp: rank_def producer_lock_def\<close>)+
qed

lemma blocked_by:
  assumes "orderly ts" "\<nexists>ts'. lk_act False ts ts'" "i < length ts" "rest (ts ! i) \<noteq> []"
  obtains j where "j < length ts" "rest (ts ! j) \<noteq> []" "rank (ts ! j) < rank (ts ! i)"
proof -
  have stuck: "\<exists>l m p. rest (ts ! k) = Acquire l m # p \<and> \<not> free_for ts k l m"
    if lt: "k < length ts" and busy: "rest (ts ! k) \<noteq> []" for k
  proof -
    obtain a p where k: "rest (ts ! k) = a # p"
      using busy by (cases "rest (ts ! k)") auto
    then have "\<not> enabled False ts k a"
      using assms(2) lt lk_act.act [of k ts a p False] by blast
    then show ?thesis
      using k by (cases a) auto
  qed
  obtain l m p where i: "rest (ts ! i) = Acquire l m # p" "\<not> free_for ts i l m"
    using stuck assms(3,4) by blast
  then obtain j n where j: "j < length ts" "j \<noteq> i" "(l, n) \<in> set (held (ts ! j))" "\<not> (m = Shared \<and> n = Shared)"
    unfolding free_for_def by blast
  have orderly: "every (along ordered) ts" "every (\<lambda>h p. final h p = []) ts" "separate ts"
    using assms(1) by (simp_all add: orderly_def)
  have busy: "rest (ts ! j) \<noteq> []"
    using everyD [OF orderly(2) j(1)] j(3) by (cases "rest (ts ! j)") auto
  then obtain l' m' p' where u: "rest (ts ! j) = Acquire l' m' # p'"
    using stuck j(1) by blast
  have "rank (ts ! j) < rank (ts ! i)"
  proof (rule rank_decreases [OF i(1) u j(3,4)])
    show "ordered (held (ts ! j)) (Acquire l' m')"
      using everyD [OF orderly(1) j(1)] u by simp
    show "\<not> (registering a (held (ts ! j)) (rest (ts ! j)) \<and> called_back a (held (ts ! i)) (rest (ts ! i)))" for a
      using orderly(3) j(1,2) assms(3) unfolding separate_def by blast
  qed
  then show ?thesis
    using that j(1) busy by blast
qed

lemma orderly_moves:
  assumes "orderly ts" "\<exists>t \<in> set ts. rest t \<noteq> []"
  shows "\<exists>ts'. lk_act False ts ts'"
proof (rule ccontr)
  assume none: "\<nexists>ts'. lk_act False ts ts'"
  let ?P = "\<lambda>i. i < length ts \<and> rest (ts ! i) \<noteq> []"
  obtain i where "?P i"
    using assms(2) by (auto simp: in_set_conv_nth)
  then obtain k where k: "?P k" "\<And>j. ?P j \<Longrightarrow> rank (ts ! k) \<le> rank (ts ! j)"
    using ex_has_least_nat [of ?P i "\<lambda>i. rank (ts ! i)"] by blast
  obtain j where "j < length ts" "rest (ts ! j) \<noteq> []" "rank (ts ! j) < rank (ts ! k)"
    using blocked_by [OF assms(1) none] k(1) by blast
  then show False
    using k(2) [of j] by simp
qed

definition work_left :: "thread list \<Rightarrow> nat" where
  "work_left ts = (\<Sum>t \<leftarrow> ts. length (rest t))"

lemma work_left_act: "lk_act wp ts ts' \<Longrightarrow> work_left ts = Suc (work_left ts')"
proof (erule lk_act.cases)
  fix i us a p
  assume *: "ts = us" "ts' = us[i := \<lparr>rest = p, held = perform a (held (us ! i))\<rparr>]"
    "i < length us" "rest (us ! i) = a # p" "enabled wp us i a"
  have "us = take i us @ us ! i # drop (Suc i) us"
    using *(3) by (simp add: id_take_nth_drop)
  then have "work_left us = work_left (take i us) + length (a # p) + work_left (drop (Suc i) us)"
    using *(4) unfolding work_left_def by (metis (no_types, lifting) add.assoc list.simps(9) map_append sum_list.Cons sum_list_append)
  then show ?thesis
    using * by (simp add: work_left_def upd_conv_take_nth_drop)
qed

lemma orderly_finishes:
  "orderly ts \<Longrightarrow> \<exists>ts'. (lk_act False)\<^sup>*\<^sup>* ts ts' \<and> (\<forall>t \<in> set ts'. rest t = [] \<and> held t = [])"
proof (induction "work_left ts" arbitrary: ts rule: less_induct)
  case less
  show ?case
  proof (cases "\<exists>t \<in> set ts. rest t \<noteq> []")
    case True
    then obtain us where us: "lk_act False ts us"
      using orderly_moves less(2) by blast
    then obtain ts' where "(lk_act False)\<^sup>*\<^sup>* us ts'" "\<forall>t \<in> set ts'. rest t = [] \<and> held t = []"
      using less(1) [of us] work_left_act [OF us] orderly_act [OF us less(2)] by auto
    then show ?thesis
      using us converse_rtranclp_into_rtranclp by metis
  next
    case False
    then have "\<forall>t \<in> set ts. rest t = [] \<and> held t = []"
      using less(2) by (force simp: orderly_def every_def)
    then show ?thesis
      by blast
  qed
qed

section \<open>What the discipline gives, and where it fails\<close>

text \<open>A schedule: the threads to move, in order. It is a run if every move is possible.\<close>

fun follow :: "bool \<Rightarrow> nat list \<Rightarrow> thread list \<Rightarrow> thread list option" where
  "follow wp [] ts = Some ts"
| "follow wp (i # is) ts =
     (if i < length ts then
        (case rest (ts ! i) of
           [] \<Rightarrow> None
         | a # p \<Rightarrow>
             if enabled wp ts i a then follow wp is (ts[i := \<lparr>rest = p, held = perform a (held (ts ! i))\<rparr>])
             else None)
      else None)"

lemma follow_run: "follow wp is ts = Some ts' \<Longrightarrow> lk_run wp admit ts \<Longrightarrow> lk_run wp admit ts'"
  by (induction wp "is" ts rule: follow.induct)
     (auto split: if_splits list.splits intro: lk_run.more lk_step.go lk_act.act)

fun start_all :: "prog list \<Rightarrow> thread list" where
  "start_all ps = map (\<lambda>p. \<lparr>rest = p, held = []\<rparr>) ps"

definition apart :: "prog list \<Rightarrow> bool" where
  "apart ps \<longleftrightarrow> (\<forall>p \<in> set ps. operation p) \<and>
     (\<forall>a. (\<forall>p \<in> set ps. \<not> registering a [] p) \<or> (\<forall>p \<in> set ps. \<not> called_back a [] p))"

lemma start_all_run: "apart ps \<Longrightarrow> lk_run wp causal (start_all ps)"
proof (induction ps rule: rev_induct)
  case Nil
  show ?case
    by (simp add: lk_run.start)
next
  case (snoc p ps)
  then have "lk_run wp causal (start_all ps)"
    by (auto simp: apart_def)
  moreover have "causal (start_all ps) p"
    using snoc.prems unfolding apart_def causal_def by auto
  ultimately show ?case
    using lk_run.more lk_step.arrive [of causal] by fastforce
qed

lemma follow_acts: "follow wp is ts = Some ts' \<Longrightarrow> (lk_act wp)\<^sup>*\<^sup>* ts ts'"
  by (induction wp "is" ts rule: follow.induct)
     (auto split: if_splits list.splits intro: converse_rtranclp_into_rtranclp lk_act.act)

definition can_race :: "bool \<Rightarrow> var \<Rightarrow> prog \<Rightarrow> prog \<Rightarrow> bool" where
  "can_race wp v p q \<longleftrightarrow> lk_run wp causal (start_all [p, q]) \<and>
     (\<exists>ts. (lk_act wp)\<^sup>*\<^sup>* (start_all [p, q]) ts \<and> racing v ts)"

definition can_deadlock :: "bool \<Rightarrow> prog list \<Rightarrow> bool" where
  "can_deadlock wp ps \<longleftrightarrow> lk_run wp causal (start_all ps) \<and>
     (\<exists>ts. (lk_act wp)\<^sup>*\<^sup>* (start_all ps) ts \<and> deadlocked wp ts)"

lemma can_raceI:
  assumes "apart [p, q]"
    and "case follow wp sched (start_all [p, q]) of None \<Rightarrow> False | Some ts \<Rightarrow> racing v ts"
  shows "can_race wp v p q"
  using start_all_run [OF assms(1)] follow_acts [of wp sched "start_all [p, q]"] assms(2)
  unfolding can_race_def by (auto split: option.splits)

lemma can_deadlockI:
  assumes "apart ps" "case follow wp sched (start_all ps) of None \<Rightarrow> False | Some ts \<Rightarrow> deadlocked wp ts"
  shows "can_deadlock wp ps"
  using start_all_run [OF assms(1)] follow_acts [of wp sched "start_all ps"] assms(2)
  unfolding can_deadlock_def by (auto split: option.splits)

lemma deadlocked_iff:
  "deadlocked wp ts \<longleftrightarrow> (\<exists>t \<in> set ts. rest t \<noteq> []) \<and>
     (\<forall>i < length ts. case rest (ts ! i) of [] \<Rightarrow> True | a # p \<Rightarrow> \<not> enabled wp ts i a)"
  unfolding deadlocked_def by (fastforce simp: lk_act.simps split: list.splits)

lemma racing_two:
  assumes "take 1 (rest t) = [Write v]" "take 1 (rest u) = [Read v]"
  shows "racing v [t, u]"
  unfolding racing_def using assms by (intro exI [of _ 0] exI [of _ 1] conjI) auto

lemmas scenario = lock_programs free_for_def writer_waits_def All_less_Suc Ex_less_Suc

lemma apart_plain:
  assumes "\<forall>p \<in> set ps. operation p" "\<And>a p. p \<in> set ps \<Longrightarrow> \<not> registering a [] p"
  shows "apart ps"
  using assms by (simp add: apart_def)

lemma close_packet_race:
  "can_race wp (Clients a) (errorcb_locks (Some (Close_locks [] (Some (a, Kept)))))
     (packet_locks (Some (Some (a, 1))))"
proof (rule can_raceI [where sched = "[0, 0, 0, 0, 0, 0, 1, 1, 1, 1]"])
  show "apart [errorcb_locks (Some (Close_locks [] (Some (a, Kept)))), packet_locks (Some (Some (a, 1)))]"
  proof (rule apart_plain)
    show "\<forall>p \<in> set [errorcb_locks (Some (Close_locks [] (Some (a, Kept)))), packet_locks (Some (Some (a, 1)))]. operation p"
      by (auto intro: operation.intros locked_operation.intros)
  qed (auto simp: registering_def lock_programs)
qed (simp add: scenario racing_two)

lemma options_error_race:
  "can_race wp (Clients a) (readcb_locks [OnOptions_locks (Some a)]) (invite_locks (Failed a))"
proof (rule can_raceI [where sched = "[0, 0, 0, 0, 0, 1]"])
  show "apart [readcb_locks [OnOptions_locks (Some a)], invite_locks (Failed a)]"
  proof (rule apart_plain)
    show "\<forall>p \<in> set [readcb_locks [OnOptions_locks (Some a)], invite_locks (Failed a)]. operation p"
      by (auto intro!: operation.intros locked_operation.intros handler.intros)
  qed (auto simp: registering_def lock_programs)
qed (simp add: scenario racing_two)

lemma options_play_race:
  "can_race wp Proxy_map (readcb_locks [OnOptions_locks None]) (readcb_locks [OnPlay_locks (Some (a, True))])"
proof (rule can_raceI [where sched = "[0, 0, 0, 0, 1, 1]"])
  show "apart [readcb_locks [OnOptions_locks None], readcb_locks [OnPlay_locks (Some (a, True))]]"
  proof (rule apart_plain)
    show "\<forall>p \<in> set [readcb_locks [OnOptions_locks None], readcb_locks [OnPlay_locks (Some (a, True))]]. operation p"
      by (auto intro!: operation.locked locked_operation.intros handler.intros)
  qed (auto simp: registering_def lock_programs)
qed (simp add: scenario racing_two)





text \<open>
  C36: three accesses are made without the mutex of what they access, and each can meet a conflicting
  one. A connection that closes takes its client out of the sets of a proxy while a packet is being
  sent to them; an OPTIONS adds to them while a failed invite is reported; an OPTIONS for a new
  video inserts into the map of proxies while a PLAY on another thread searches it.
\<close>

theorem unlocked_accesses_race:
  "can_race wp (Clients a) (errorcb_locks (Some (Close_locks [] (Some (a, Kept)))))
     (packet_locks (Some (Some (a, 1)))) \<and>
   can_race wp (Clients a) (readcb_locks [OnOptions_locks (Some a)]) (invite_locks (Failed a)) \<and>
   can_race wp Proxy_map (readcb_locks [OnOptions_locks None]) (readcb_locks [OnPlay_locks (Some (a, True))])"
  using close_packet_race options_error_race options_play_race by blast

text \<open>
  C37: with a \<open>shared_mutex\<close> that lets a waiting unique request hold back shared ones, the answer
  to an invite, a datagram and a last client that leaves block each other for ever: \<open>registerPeer\<close> is
  called with \<open>mRtpContextMutex\<close> shared and wants the network server's mutex, the datagram has that
  shared and wants \<open>mRtpContextMutex\<close>, behind the client that waits for it.
\<close>

theorem writer_preference_deadlock:
  "can_deadlock True [invite_locks (Accepted a), packet_locks (Some (Some (b, 1))),
     errorcb_locks (Some (Close_locks [] (Some (c, Unregister Gb_video))))]"
proof (rule can_deadlockI [where sched = "[1, 1, 0, 0, 0, 0, 2, 2, 2, 2, 2, 2, 2, 2]"])
  show "apart [invite_locks (Accepted a), packet_locks (Some (Some (b, 1))),
     errorcb_locks (Some (Close_locks [] (Some (c, Unregister Gb_video))))]"
  proof (rule apart_plain)
    show "\<forall>p \<in> set [invite_locks (Accepted a), packet_locks (Some (Some (b, 1))),
       errorcb_locks (Some (Close_locks [] (Some (c, Unregister Gb_video))))]. operation p"
      by (auto intro: operation.intros locked_operation.intros)
  qed (auto simp: registering_def lock_programs)
qed (simp add: scenario deadlocked_iff)

end
