(* ===== verification/Ordered_Map.thy ===== *)
theory Ordered_Map
  imports Ffvms_Prelude
begin

text \<open>
  \<open>std::map<K, V>\<close> as the sources use it: entries in ascending key order under a
  comparison \<open>lt\<close>, two keys being the same key when neither is less than the other.
  \<open>operator[]\<close> on a present key keeps the stored key and replaces the value. The laws
  hold for every comparison that is a strict weak order (locale \<open>comparator\<close>, what the
  C++ standard asks of \<open>Compare\<close>); each component interprets the locale on the order
  of its own keys.
\<close>

type_synonym ('k, 'v) omap = "('k \<times> 'v) list"

fun omap_find :: "('k \<Rightarrow> 'k \<Rightarrow> bool) \<Rightarrow> 'k \<Rightarrow> ('k, 'v) omap \<Rightarrow> 'v option" where
  "omap_find lt k [] = None"
| "omap_find lt k ((k', v) # m) =
     (if lt k' k then omap_find lt k m else if lt k k' then None else Some v)"

fun omap_set :: "('k \<Rightarrow> 'k \<Rightarrow> bool) \<Rightarrow> 'k \<Rightarrow> 'v \<Rightarrow> ('k, 'v) omap \<Rightarrow> ('k, 'v) omap" where
  "omap_set lt k v [] = [(k, v)]"
| "omap_set lt k v ((k', v') # m) =
     (if lt k' k then (k', v') # omap_set lt k v m
      else if lt k k' then (k, v) # (k', v') # m
      else (k', v) # m)"

fun omap_erase :: "('k \<Rightarrow> 'k \<Rightarrow> bool) \<Rightarrow> 'k \<Rightarrow> ('k, 'v) omap \<Rightarrow> ('k, 'v) omap" where
  "omap_erase lt k [] = []"
| "omap_erase lt k ((k', v') # m) =
     (if lt k' k then (k', v') # omap_erase lt k m
      else if lt k k' then (k', v') # m
      else m)"

definition same_key :: "('k \<Rightarrow> 'k \<Rightarrow> bool) \<Rightarrow> 'k \<Rightarrow> 'k \<Rightarrow> bool" where
  "same_key lt a b \<longleftrightarrow> \<not> lt a b \<and> \<not> lt b a"

definition omap_ok :: "('k \<Rightarrow> 'k \<Rightarrow> bool) \<Rightarrow> ('k, 'v) omap \<Rightarrow> bool" where
  "omap_ok lt m \<longleftrightarrow> sorted_wrt (\<lambda>a b. lt (fst a) (fst b)) m"

lemma omap_ok_Nil [simp]: "omap_ok lt []"
  by (simp add: omap_ok_def)

lemma omap_ok_Cons: "omap_ok lt (e # m) \<longleftrightarrow> (\<forall>e' \<in> set m. lt (fst e) (fst e')) \<and> omap_ok lt m"
  by (simp add: omap_ok_def)

lemma same_key_refl: "\<not> lt a a \<Longrightarrow> same_key lt a a"
  by (simp add: same_key_def)

lemma omap_set_not_Nil [simp]: "omap_set lt k v m \<noteq> []"
  by (induction lt k v m rule: omap_set.induct) auto

subsection \<open>The laws of the container\<close>

locale comparator =
  fixes lt :: "'k \<Rightarrow> 'k \<Rightarrow> bool"
  assumes irrefl: "\<not> lt a a"
    and trans: "lt a b \<Longrightarrow> lt b c \<Longrightarrow> lt a c"
    and weak: "lt a b \<Longrightarrow> lt a c \<or> lt c b"
begin

lemma asym: "lt a b \<Longrightarrow> \<not> lt b a"
  using irrefl trans by blast

lemma same_refl [simp]: "same_key lt a a"
  by (simp add: same_key_def irrefl)

lemma same_sym: "same_key lt a b \<Longrightarrow> same_key lt b a"
  by (simp add: same_key_def)

lemma same_trans: "same_key lt a b \<Longrightarrow> same_key lt b c \<Longrightarrow> same_key lt a c"
  unfolding same_key_def using weak by blast

lemma same_lt_left: "same_key lt a b \<Longrightarrow> lt a c \<longleftrightarrow> lt b c"
  unfolding same_key_def using weak by blast

lemma same_lt_right: "same_key lt a b \<Longrightarrow> lt c a \<longleftrightarrow> lt c b"
  unfolding same_key_def using weak by blast

lemma find_same: "same_key lt k k' \<Longrightarrow> omap_find lt k m = omap_find lt k' m"
  by (induction m) (auto simp: same_lt_left same_lt_right)

lemma set_set: "e \<in> set (omap_set lt k v m) \<Longrightarrow> e \<in> set m \<or> snd e = v \<and> same_key lt k (fst e)"
  by (induction m) (auto simp: same_key_def irrefl split: if_splits)

lemma ok_set [simp, intro]: "omap_ok lt m \<Longrightarrow> omap_ok lt (omap_set lt k v m)"
proof (induction m)
  case Nil
  then show ?case by (simp add: omap_ok_Cons)
next
  case (Cons e m)
  obtain k' v' where e: "e = (k', v')" by force
  from Cons.prems e have lt': "\<forall>x \<in> set m. lt k' (fst x)" and ok: "omap_ok lt m"
    by (auto simp: omap_ok_Cons)
  have "\<forall>x \<in> set (omap_set lt k v m). lt k' (fst x)" if "lt k' k"
    using that lt' set_set [of _ k v m] same_lt_right by blast
  with Cons.IH [OF ok] lt' ok show ?case
    by (auto simp: e omap_ok_Cons intro: trans)
qed

lemma set_erase_subset: "set (omap_erase lt k m) \<subseteq> set m"
  by (induction m) (auto split: if_splits)

lemma ok_erase [simp, intro]: "omap_ok lt m \<Longrightarrow> omap_ok lt (omap_erase lt k m)"
  using set_erase_subset by (induction m) (fastforce simp: omap_ok_Cons)+

lemma find_set: "omap_find lt k' (omap_set lt k v m)
    = (if same_key lt k k' then Some v else omap_find lt k' m)"
proof (induction m)
  case Nil
  then show ?case by (auto simp: same_key_def)
next
  case (Cons e m)
  obtain a b where e: "e = (a, b)" by force
  show ?case
  proof (cases "same_key lt k k'")
    case True
    then show ?thesis
      using Cons.IH same_lt_left [OF True] same_lt_right [OF True]
      by (auto simp: e same_key_def irrefl)
  next
    case False
    consider "lt a k" | "\<not> lt a k" "lt k a" | "same_key lt a k"
      by (auto simp: same_key_def)
    then show ?thesis
    proof cases
      case 1
      then show ?thesis using Cons.IH False by (simp add: e)
    next
      case 2
      then have "lt k' k \<Longrightarrow> lt k' a \<and> \<not> lt a k'" using trans asym by blast
      with 2 False show ?thesis by (auto simp: e same_key_def)
    next
      case 3
      with False have "\<not> same_key lt a k'" using same_sym same_trans by blast
      with 3 False show ?thesis by (auto simp: e same_key_def)
    qed
  qed
qed

lemma find_ok_head: "omap_ok lt ((a, b) # m) \<Longrightarrow> \<not> lt a k \<Longrightarrow> omap_find lt k m = None"
proof (induction m)
  case (Cons e m)
  obtain c d where e: "e = (c, d)" by force
  from Cons.prems e have "lt a c" by (simp add: omap_ok_Cons)
  with Cons.prems(2) have "lt k c" using weak by blast
  then show ?case by (simp add: e asym)
qed simp

lemma not_same_after:
  "omap_ok lt ((a, b) # m) \<Longrightarrow> \<not> lt a k \<Longrightarrow> e \<in> set m \<Longrightarrow> \<not> same_key lt k (fst e)"
  unfolding omap_ok_Cons same_key_def using weak by fastforce

lemma find_erase: "omap_ok lt m \<Longrightarrow> omap_find lt k' (omap_erase lt k m)
    = (if same_key lt k k' then None else omap_find lt k' m)"
proof (induction m)
  case Nil
  then show ?case by simp
next
  case (Cons e m)
  obtain a b where e: "e = (a, b)" by force
  from Cons.prems have ok: "omap_ok lt m" by (simp add: omap_ok_Cons)
  show ?case
  proof (cases "same_key lt k k'")
    case True
    then show ?thesis
      using Cons.IH [OF ok] find_ok_head [OF Cons.prems [unfolded e]]
        same_lt_left [OF True] same_lt_right [OF True] by (auto simp: e)
  next
    case False
    then have "same_key lt a k \<Longrightarrow> \<not> same_key lt a k'" using same_sym same_trans by blast
    with False Cons.IH [OF ok] find_ok_head [OF Cons.prems [unfolded e], of k'] show ?thesis
      by (auto simp: e same_key_def)
  qed
qed

lemma find_Some_iff:
  "omap_ok lt m \<Longrightarrow> omap_find lt k m = Some v \<longleftrightarrow> (\<exists>k'. same_key lt k k' \<and> (k', v) \<in> set m)"
proof (induction m)
  case Nil
  then show ?case by simp
next
  case (Cons e m)
  obtain a b where e: "e = (a, b)" by force
  from Cons.prems have ok: "omap_ok lt m" by (simp add: omap_ok_Cons)
  show ?case
  proof (cases "lt a k")
    case True
    then show ?thesis using Cons.IH [OF ok] by (auto simp: e same_key_def)
  next
    case False
    then have "\<not> (\<exists>k'. same_key lt k k' \<and> (k', v) \<in> set m)"
      using not_same_after [OF Cons.prems [unfolded e]] by fastforce
    with False show ?thesis by (auto simp: e same_key_def)
  qed
qed

lemma find_mem: "omap_ok lt m \<Longrightarrow> (k, v) \<in> set m \<Longrightarrow> omap_find lt k m = Some v"
  by (simp only: find_Some_iff) (blast intro: same_refl)

lemma find_None_iff: "omap_ok lt m \<Longrightarrow> omap_find lt k m = None \<longleftrightarrow> (\<forall>e \<in> set m. \<not> same_key lt k (fst e))"
proof -
  assume ok: "omap_ok lt m"
  have "omap_find lt k m = None \<longleftrightarrow> (\<forall>v. omap_find lt k m \<noteq> Some v)"
    by (cases "omap_find lt k m") auto
  also have "\<dots> \<longleftrightarrow> (\<forall>e \<in> set m. \<not> same_key lt k (fst e))"
    unfolding find_Some_iff [OF ok] by auto
  finally show ?thesis .
qed

lemma set_erase: "omap_ok lt m \<Longrightarrow> set (omap_erase lt k m) = {x \<in> set m. \<not> same_key lt k (fst x)}"
proof (induction m)
  case (Cons e m)
  obtain a b where e: "e = (a, b)" by force
  from Cons.prems have ok: "omap_ok lt m" by (simp add: omap_ok_Cons)
  show ?case
  proof (cases "lt a k")
    case True
    then have no: "\<not> same_key lt k (fst e)" by (simp add: e same_key_def)
    from True have "set (omap_erase lt k (e # m)) = insert e (set (omap_erase lt k m))"
      by (simp add: e)
    also have "\<dots> = insert e {x \<in> set m. \<not> same_key lt k (fst x)}"
      by (simp only: Cons.IH [OF ok])
    also have "\<dots> = {x \<in> set (e # m). \<not> same_key lt k (fst x)}"
      using no by auto
    finally show ?thesis .
  next
    case False
    then have rest: "x \<in> set m \<Longrightarrow> \<not> same_key lt k (fst x)" for x
      using not_same_after [OF Cons.prems [unfolded e]] by blast
    from False have "same_key lt k (fst e) \<longleftrightarrow> \<not> lt k a" by (simp add: e same_key_def)
    moreover from False have "omap_erase lt k (e # m) = (if lt k a then e # m else m)"
      by (simp add: e)
    ultimately show ?thesis using rest by auto
  qed
qed simp

text \<open>Replacing the value of a present key leaves the other entries as they are.\<close>

lemma set_set_present:
  assumes "omap_ok lt m" and "omap_find lt k m = Some v0"
  shows "set (omap_set lt k v m) = {e \<in> set m. \<not> same_key lt k (fst e)}
           \<union> {(k', v) | k'. (k', v0) \<in> set m \<and> same_key lt k k'}"
  using assms
proof (induction m)
  case (Cons e m)
  obtain a b where e: "e = (a, b)" by force
  from Cons.prems have ok: "omap_ok lt m" by (simp add: omap_ok_Cons)
  note no = not_same_after [OF Cons.prems(1) [unfolded e], of k]
  consider "lt a k" | "\<not> lt a k" "\<not> lt k a" "b = v0"
    using Cons.prems by (auto simp: e split: if_splits)
  then show ?case
  proof cases
    case 1
    with Cons.IH [OF ok] Cons.prems(2) show ?thesis by (auto simp: e same_key_def)
  next
    case 2
    then have "{e' \<in> set (e # m). \<not> same_key lt k (fst e')} = set m"
      and "{(k', v) | k'. (k', v0) \<in> set (e # m) \<and> same_key lt k k'} = {(a, v)}"
      using no by (fastforce simp: e same_key_def)+
    with 2 show ?thesis by (simp add: e)
  qed
qed simp

lemma set_set_absent:
  assumes "omap_find lt k m = None" and "omap_ok lt m"
  shows "set (omap_set lt k v m) = insert (k, v) (set m)"
  using assms
proof (induction m)
  case (Cons e m)
  obtain a b where e: "e = (a, b)" by force
  from Cons show ?case by (auto simp: e omap_ok_Cons split: if_splits)
qed simp

text \<open>A present key has one entry, at one place; setting and erasing change only that place.\<close>

lemma entry_unique:
  "omap_ok lt m \<Longrightarrow> e \<in> set m \<Longrightarrow> e' \<in> set m \<Longrightarrow> same_key lt (fst e) (fst e') \<Longrightarrow> e = e'"
  by (induction m) (auto simp: omap_ok_Cons same_key_def)

lemma split_present:
  assumes "omap_find lt k m = Some v0"
  obtains m1 k0 m2 where "m = m1 @ (k0, v0) # m2" "same_key lt k k0"
    "\<And>v. omap_set lt k v m = m1 @ (k0, v) # m2" "omap_erase lt k m = m1 @ m2"
proof -
  have "\<exists>m1 k0 m2. m = m1 @ (k0, v0) # m2 \<and> same_key lt k k0 \<and>
    (\<forall>v. omap_set lt k v m = m1 @ (k0, v) # m2) \<and> omap_erase lt k m = m1 @ m2"
    using assms
  proof (induction m)
    case (Cons e m)
    obtain a b where e: "e = (a, b)" by force
    show ?case
    proof (cases "lt a k")
      case True
      with Cons e obtain m1 k0 m2 where "m = m1 @ (k0, v0) # m2" "same_key lt k k0"
        "\<forall>v. omap_set lt k v m = m1 @ (k0, v) # m2" "omap_erase lt k m = m1 @ m2"
        by auto
      with True e show ?thesis
        by (intro exI [of _ "(a, b) # m1"] exI [of _ k0] exI [of _ m2]) simp
    next
      case False
      with Cons.prems e show ?thesis
        by (intro exI [of _ "[]"] exI [of _ a] exI [of _ m]) (auto simp: same_key_def split: if_splits)
    qed
  qed simp
  with that show thesis by blast
qed

end

end
