(* ===== verification/Video_Request.thy ===== *)
theory Video_Request
  imports Ordered_Map
begin

text \<open>
  \<open>VideoRequest\<close> of \<open>core/include/common.h\<close> and \<open>core/src/common.cpp\<close>: what a client
  asks for, parsed out of the RTSP URL, and the order that makes it a key of the service's and
  the producer's maps. \<open>std::string::substr\<close> throws past the end; the parser is written
  with that exception and shown never to raise it.
\<close>

datatype streaming_mode = TCP | UDP

record video_request =
  use_file :: bool
  filename :: string
  repeatedly :: bool
  use_gb :: bool
  gbid :: string
  gbStreamingMode :: streaming_mode

definition FILE_PREFIX :: string where "FILE_PREFIX = ''file/''"
definition GB_PREFIX :: string where "GB_PREFIX = ''gb/''"
definition REPEATEDLY_FLAG :: string where "REPEATEDLY_FLAG = ''?repeatedly=''"

lemmas prefix_defs = FILE_PREFIX_def GB_PREFIX_def REPEATEDLY_FLAG_def

text \<open>The default constructor.\<close>

definition VideoRequest :: video_request where
  "VideoRequest = \<lparr>use_file = False, filename = '''', repeatedly = False,
                   use_gb = False, gbid = '''', gbStreamingMode = UDP\<rparr>"

definition parseUrl :: "string \<Rightarrow> video_request res" where
  "parseUrl url =
     (case str_find url FILE_PREFIX of
        Some found \<Rightarrow>
          res_bind (str_substr url (found + length FILE_PREFIX)) (\<lambda>fname.
            case str_find fname REPEATEDLY_FLAG of
              Some found' \<Rightarrow>
                res_bind (str_substr fname (found' + length REPEATEDLY_FLAG)) (\<lambda>rep.
                res_bind (str_substr_n fname 0 found') (\<lambda>fname'.
                  Inr (VideoRequest\<lparr>use_file := True,
                         repeatedly := (if rep = ''true'' then True else False),
                         filename := fname'\<rparr>)))
            | None \<Rightarrow>
                Inr (VideoRequest\<lparr>use_file := True, repeatedly := False, filename := fname\<rparr>))
      | None \<Rightarrow>
          (case str_find url GB_PREFIX of
             Some found \<Rightarrow>
               res_bind (str_substr url (found + length GB_PREFIX)) (\<lambda>id'.
                 Inr (VideoRequest\<lparr>use_gb := True, gbid := id'\<rparr>))
           | None \<Rightarrow> Inr VideoRequest))"

text \<open>The constructor from a URL assigns what \<open>parseUrl\<close> returns.\<close>

definition VideoRequest_url :: "string \<Rightarrow> video_request" where
  "VideoRequest_url url = (case parseUrl url of Inr r \<Rightarrow> r | Inl _ \<Rightarrow> VideoRequest)"

definition toString :: "video_request \<Rightarrow> string" where
  "toString r =
     (if use_file r then
        ''file://'' @ filename r @ ''?repeatedly='' @ (if repeatedly r then ''true'' else ''false'')
      else if use_gb r then
        (let prefix = ''gb://'' @ gbid r @ ''&gbStreamingMode='' in
         if gbStreamingMode r = TCP then prefix @ ''TCP'' else prefix @ ''UDP'')
      else '''')"

definition cmpStr :: "video_request \<Rightarrow> string" where
  "cmpStr r = (if use_file r then ''file://'' @ filename r
               else if use_gb r then ''gb://'' @ gbid r
               else '''')"

text \<open>\<open>operator<\<close>, the order of every \<open>std::map\<close> keyed by requests.\<close>

definition VideoRequest_less :: "video_request \<Rightarrow> video_request \<Rightarrow> bool" where
  "VideoRequest_less a b \<longleftrightarrow> cmpStr a < cmpStr b"

definition valueAndParamsEqual :: "video_request \<Rightarrow> video_request \<Rightarrow> bool" where
  "valueAndParamsEqual a b \<longleftrightarrow>
     (use_file a = use_file b) \<and> (filename a = filename b) \<and> (repeatedly a = repeatedly b) \<and>
     (use_gb a = use_gb b) \<and> (gbid a = gbid b) \<and> (gbStreamingMode a = gbStreamingMode b)"

text \<open>\<open>std::hash<VideoRequest>\<close>, over the library's hash of strings.\<close>

definition VideoRequest_hash :: "(string \<Rightarrow> nat) \<Rightarrow> video_request \<Rightarrow> nat" where
  "VideoRequest_hash hash_string r =
     hash_string (if use_file r then ''file://'' @ filename r
                  else if use_gb r then ''gb://'' @ gbid r
                  else '''')"

subsection \<open>The parser\<close>

lemma VideoRequest_fields [simp]:
  "\<not> use_file VideoRequest" "\<not> use_gb VideoRequest" "filename VideoRequest = ''''"
  "gbid VideoRequest = ''''" "\<not> repeatedly VideoRequest" "gbStreamingMode VideoRequest = UDP"
  by (simp_all add: VideoRequest_def)

lemma str_substr_found:
  "str_find s p = Some i \<Longrightarrow> str_substr s (i + length p) = Inr (drop (i + length p) s)"
  by (simp add: str_substr_def str_find_bound)

lemma str_substr_n_0: "str_substr_n s 0 n = Inr (take n s)"
  by (simp add: str_substr_n_def)

text \<open>The parser without exceptions: what it returns on every branch.\<close>

lemma parseUrl_eq:
  "parseUrl url = Inr
     (case str_find url FILE_PREFIX of
        Some i \<Rightarrow>
          (let fname = drop (i + length FILE_PREFIX) url in
           case str_find fname REPEATEDLY_FLAG of
             Some j \<Rightarrow> VideoRequest\<lparr>use_file := True,
                        repeatedly := (drop (j + length REPEATEDLY_FLAG) fname = ''true''),
                        filename := take j fname\<rparr>
           | None \<Rightarrow> VideoRequest\<lparr>use_file := True, filename := fname\<rparr>)
      | None \<Rightarrow>
          (case str_find url GB_PREFIX of
             Some i \<Rightarrow> VideoRequest\<lparr>use_gb := True, gbid := drop (i + length GB_PREFIX) url\<rparr>
           | None \<Rightarrow> VideoRequest))"
  by (auto simp: parseUrl_def Let_def str_substr_found str_substr_n_0 VideoRequest_def
      split: option.split)

lemma parseUrl_VideoRequest_url: "parseUrl url = Inr (VideoRequest_url url)"
  by (simp add: VideoRequest_url_def parseUrl_eq)

lemma prefixes_unbordered:
  "str_find a FILE_PREFIX = None \<Longrightarrow> str_find (a @ FILE_PREFIX @ b) FILE_PREFIX = Some (length a)"
  "str_find a GB_PREFIX = None \<Longrightarrow> str_find (a @ GB_PREFIX @ b) GB_PREFIX = Some (length a)"
  "str_find a REPEATEDLY_FLAG = None \<Longrightarrow>
     str_find (a @ REPEATEDLY_FLAG @ b) REPEATEDLY_FLAG = Some (length a)"
  using str_find_unbordered [of FILE_PREFIX "CHR ''f''" "''ile/''" a b]
    str_find_unbordered [of GB_PREFIX "CHR ''g''" "''b/''" a b]
    str_find_unbordered [of REPEATEDLY_FLAG "CHR ''?''" "''repeatedly=''" a b]
  by (simp_all add: prefix_defs)

subsection \<open>Requests as keys\<close>

text \<open>
  The map key of a request: the source it names, a file or a camera, without the parameters
  of the request.
\<close>

datatype source = Source_file string | Source_gb string | Source_none

definition request_source :: "video_request \<Rightarrow> source" where
  "request_source r = (if use_file r then Source_file (filename r)
                       else if use_gb r then Source_gb (gbid r) else Source_none)"

lemma cmpStr_eq_iff: "cmpStr a = cmpStr b \<longleftrightarrow> request_source a = request_source b"
  by (auto simp: cmpStr_def request_source_def)

lemma same_key_cmpStr: "same_key VideoRequest_less a b \<longleftrightarrow> cmpStr a = cmpStr b"
  by (auto simp: same_key_def VideoRequest_less_def)

interpretation vr: comparator VideoRequest_less
  by unfold_locales (auto simp: VideoRequest_less_def)

text \<open>Strings order the maps keyed by peer names, pointers the maps keyed by connections.\<close>

definition string_less :: "string \<Rightarrow> string \<Rightarrow> bool" where
  "string_less a b \<longleftrightarrow> a < b"

lemma same_key_string [simp]: "same_key string_less a b \<longleftrightarrow> a = b"
  by (auto simp: same_key_def string_less_def)

interpretation strs: comparator string_less
  by unfold_locales (auto simp: string_less_def)

definition ptr_less :: "nat \<Rightarrow> nat \<Rightarrow> bool" where
  "ptr_less a b \<longleftrightarrow> a < b"

lemma same_key_ptr [simp]: "same_key ptr_less a b \<longleftrightarrow> a = b"
  by (auto simp: same_key_def ptr_less_def)

interpretation ptrs: comparator ptr_less
  by unfold_locales (auto simp: ptr_less_def)

subsection \<open>Properties\<close>


text \<open>C28: a URL that names a file after any host part is parsed into exactly that file name,
  with the repeat flag set when the text after \<open>?repeatedly=\<close> is \<open>true\<close> and only then.\<close>

theorem parseUrl_file_roundtrip:
  assumes "str_find host FILE_PREFIX = None" and "str_find name REPEATEDLY_FLAG = None"
  shows "parseUrl (host @ FILE_PREFIX @ name @ REPEATEDLY_FLAG @ flag)
       = Inr \<lparr>use_file = True, filename = name, repeatedly = (flag = ''true''),
              use_gb = False, gbid = '''', gbStreamingMode = UDP\<rparr>"
  using assms
  by (simp add: parseUrl_eq prefixes_unbordered Let_def VideoRequest_def)

theorem parseUrl_file_roundtrip_witness:
  "parseUrl (''rtsp://127.0.0.1:8554/'' @ FILE_PREFIX @ ''/tbut1.mp4'' @ REPEATEDLY_FLAG @ ''true'')
     = Inr \<lparr>use_file = True, filename = ''/tbut1.mp4'', repeatedly = True,
            use_gb = False, gbid = '''', gbStreamingMode = UDP\<rparr>"
proof -
  have "str_find ''rtsp://127.0.0.1:8554/'' FILE_PREFIX = None"
    and "str_find ''/tbut1.mp4'' REPEATEDLY_FLAG = None"
    by (simp_all add: prefix_defs)
  from parseUrl_file_roundtrip [OF this, of "''true''"] show ?thesis by simp
qed

text \<open>A URL without \<open>file/\<close> that names a camera is parsed into exactly that camera id.\<close>

theorem parseUrl_gb_roundtrip:
  assumes "str_find (host @ GB_PREFIX @ camera) FILE_PREFIX = None"
    and "str_find host GB_PREFIX = None"
  shows "parseUrl (host @ GB_PREFIX @ camera)
       = Inr \<lparr>use_file = False, filename = '''', repeatedly = False,
              use_gb = True, gbid = camera, gbStreamingMode = UDP\<rparr>"
  using assms by (simp add: parseUrl_eq prefixes_unbordered VideoRequest_def)

theorem parseUrl_gb_roundtrip_witness:
  "parseUrl (''rtsp://127.0.0.1:8554/'' @ GB_PREFIX @ ''demo1'')
     = Inr \<lparr>use_file = False, filename = '''', repeatedly = False,
            use_gb = True, gbid = ''demo1'', gbStreamingMode = UDP\<rparr>"
proof -
  have "str_find (''rtsp://127.0.0.1:8554/'' @ GB_PREFIX @ ''demo1'') FILE_PREFIX = None"
    and "str_find ''rtsp://127.0.0.1:8554/'' GB_PREFIX = None"
    by (simp_all add: prefix_defs)
  from parseUrl_gb_roundtrip [OF this] show ?thesis .
qed

text \<open>C29: as a map key a request is its source: two requests are the same key exactly when
  they name the same file or the same camera, whatever their repeat flag and streaming mode.
  The hash is the hash of the very string the order compares, so equal keys hash alike.\<close>

theorem VideoRequest_key_is_source:
  "(same_key VideoRequest_less a b \<longleftrightarrow> request_source a = request_source b) \<and>
   VideoRequest_hash h a = h (cmpStr a)"
  by (simp add: same_key_cmpStr cmpStr_eq_iff VideoRequest_hash_def cmpStr_def [symmetric])

end
