(* ===== verification/Metrics_Manager.thy ===== *)
theory Metrics_Manager
  imports Complex_Main Video_Request
begin

text \<open>
  \<open>common/metrics/prometheus\<close>: the process-wide metrics manager. The Prometheus client
  library is not modelled; a metric is identified by what the code hands to
  \<open>Family::Add\<close>, the family's name and the labels, and an observation is an output. The
  global state is the \<open>once_flag\<close> and the instance; using the instance before
  \<open>Init\<close> dereferences a null pointer.
\<close>

type_synonym labels = "(string, string) omap"

datatype metric =
    Counter string labels
  | Gauge string labels
  | Histogram string labels "real list"
  | Summary string labels "(real \<times> real) list" int int

record mm_options =
  exposer_port :: int
  family_prefix :: string
  endpoint_uri :: string

text \<open>\<open>mpExposer\<close>'s address, the names of the four families and the path the registry is
  exposed under (\<open>None\<close>: the exposer's default).\<close>

record metrics_manager =
  mpExposer :: string
  mpCounterFamily :: string
  mpGaugeFamily :: string
  mpHistogramFamily :: string
  mpSummaryFamily :: string
  collectable_uri :: "string option"

record mm_state =
  sInstanceCreated :: bool
  spInstance :: "metrics_manager option"

definition mm_state0 :: mm_state where
  "mm_state0 = \<lparr>sInstanceCreated = False, spInstance = None\<rparr>"

definition MetricsManager :: "int \<Rightarrow> string \<Rightarrow> string \<Rightarrow> metrics_manager" where
  "MetricsManager exposerPort familyPrefix endpointUri =
     \<lparr>mpExposer = ''0.0.0.0:'' @ fmt_int exposerPort,
      mpCounterFamily = familyPrefix @ ''_counter'',
      mpGaugeFamily = familyPrefix @ ''_gauge'',
      mpHistogramFamily = familyPrefix @ ''_histogram'',
      mpSummaryFamily = familyPrefix @ ''_summary'',
      collectable_uri = (if endpointUri = '''' then None else Some endpointUri)\<rparr>"

definition mm_Init :: "mm_options \<Rightarrow> mm_state \<Rightarrow> mm_state" where
  "mm_Init opts s =
     (if sInstanceCreated s then s
      else s\<lparr>sInstanceCreated := True,
             spInstance := Some (MetricsManager (exposer_port opts) (family_prefix opts)
                                   (endpoint_uri opts))\<rparr>)"

definition mm_GetInstance :: "mm_state \<Rightarrow> metrics_manager res" where
  "mm_GetInstance s = (case spInstance s of None \<Rightarrow> Inl Undefined_behaviour | Some m \<Rightarrow> Inr m)"

text \<open>The \<open>Add\<close> functions write the name into the caller's labels, which they take by reference.\<close>

definition AddCounter :: "metrics_manager \<Rightarrow> string \<Rightarrow> labels \<Rightarrow> metric \<times> labels" where
  "AddCounter m name ls =
     (let ls' = omap_set string_less ''metric_name'' name ls in (Counter (mpCounterFamily m) ls', ls'))"

definition AddGauge :: "metrics_manager \<Rightarrow> string \<Rightarrow> labels \<Rightarrow> metric \<times> labels" where
  "AddGauge m name ls =
     (let ls' = omap_set string_less ''metric_name'' name ls in (Gauge (mpGaugeFamily m) ls', ls'))"

definition AddHistogram :: "metrics_manager \<Rightarrow> string \<Rightarrow> labels \<Rightarrow> real list \<Rightarrow> metric \<times> labels" where
  "AddHistogram m name ls buckets =
     (let ls' = omap_set string_less ''metric_name'' name ls
      in (Histogram (mpHistogramFamily m) ls' buckets, ls'))"

definition AddSummary ::
  "metrics_manager \<Rightarrow> string \<Rightarrow> labels \<Rightarrow> (real \<times> real) list \<Rightarrow> int \<Rightarrow> int \<Rightarrow> metric \<times> labels" where
  "AddSummary m name ls quantiles max_age age_buckets =
     (let ls' = omap_set string_less ''metric_name'' name ls
      in (Summary (mpSummaryFamily m) ls' quantiles max_age age_buckets, ls'))"

text \<open>\<open>MMAddCounter\<close>: the instance is fetched on every use.\<close>

definition MMAddCounter :: "mm_state \<Rightarrow> string \<Rightarrow> labels \<Rightarrow> (metric \<times> labels) res" where
  "MMAddCounter s name ls = res_bind (mm_GetInstance s) (\<lambda>m. Inr (AddCounter m name ls))"

text \<open>
  \<open>LatencyMeasureMsScoped\<close>: the constructor reads the clock, the destructor observes the time
  since then. The clock counts nanoseconds and \<open>duration_cast\<close> truncates towards zero.
\<close>

record latency_scope =
  mObserveAble :: metric
  mStartTime :: int

definition LatencyMeasureMsScoped :: "metric \<Rightarrow> int \<Rightarrow> latency_scope" where
  "LatencyMeasureMsScoped m now = \<lparr>mObserveAble = m, mStartTime = now\<rparr>"

definition LatencyMeasureMsScoped_dtor :: "latency_scope \<Rightarrow> int \<Rightarrow> metric \<times> int" where
  "LatencyMeasureMsScoped_dtor l now = (mObserveAble l, trunc_div (now - mStartTime l) 1000000)"

subsection \<open>Lemmas\<close>

lemmas mm_defs = mm_Init_def mm_GetInstance_def MMAddCounter_def AddCounter_def

lemma metric_name_set: "omap_find string_less ''metric_name'' (omap_set string_less ''metric_name'' n ls) = Some n"
  by (simp add: strs.find_set)

lemma MMAddCounter_ready:
  "spInstance s = Some m \<Longrightarrow> MMAddCounter s n ls = Inr (AddCounter m n ls)"
  by (simp add: mm_defs)

text \<open>\<open>MetricsManager::Init\<close> takes effect once: whatever later calls pass, the instance
  every \<open>MMAdd\<close> macro uses is the one built from the options of the first call, and before
  that call using it is undefined.\<close>

theorem mm_Init_once:
  "mm_GetInstance mm_state0 = Inl Undefined_behaviour \<and>
   mm_GetInstance (fold mm_Init optss (mm_Init opts mm_state0))
     = Inr (MetricsManager (exposer_port opts) (family_prefix opts) (endpoint_uri opts))"
proof -
  have "fold mm_Init optss s = s" if "sInstanceCreated s" for s
    using that by (induction optss) (simp_all add: mm_Init_def)
  then show ?thesis by (simp add: mm_GetInstance_def mm_Init_def mm_state0_def)
qed

end
