(* ===== verification/File_Video.thy ===== *)
theory File_Video
  imports Metrics_Manager
begin

text \<open>
  \<open>RtpProducer::FileVideoContext\<close> and its timer callback \<open>FFGetFrame\<close>
  (\<open>core/include/rtp_producer.h\<close>, \<open>core/src/rtp_producer.cpp\<close>): one tick reads packets until a
  video packet is found, repairs its time stamps and hands it to the RTP muxer. The FFmpeg
  library is a parameter, a record of functions over an abstract library state; what a
  tick does to the outside is the list of its outputs. The loop may not end, so it takes
  fuel, and \<open>None\<close> means that it is still running. Time stamps are unbounded integers; the
  \<open>int\<close> arithmetic of the default frame duration is 32 bits wide.
\<close>

datatype errc = Too_many_files_open | Invalid_argument

text \<open>The requests sent to the SIP gateway; an invite names the context that waits for it.\<close>

datatype rpc =
    InviteVideo nat string string streaming_mode int
  | SendAck string
  | TearDown string


record av_packet =
  stream_index :: int
  pos :: int
  pts :: int
  dts :: int
  duration :: int

text \<open>
  What \<open>FFGetFrame\<close> uses of FFmpeg: the return codes and results of the calls on the opened
  file and on the muxer. Writing a packet makes the muxer emit RTP packets through the
  \<open>write_packet\<close> callback.
\<close>

record 'e ffmpeg =
  av_read_frame :: "'e \<Rightarrow> int \<times> av_packet \<times> 'e"
  avio_seek :: "'e \<Rightarrow> int \<times> 'e"
  avformat_seek_file :: "nat \<Rightarrow> 'e \<Rightarrow> int \<times> 'e"
  reset_cur_dts :: "'e \<Rightarrow> 'e"
  av_packet_rescale_ts :: "av_packet \<Rightarrow> av_packet"
  av_interleaved_write_frame :: "av_packet \<Rightarrow> 'e \<Rightarrow> int \<times> bytes list \<times> 'e"
  nb_streams :: nat
  time_base_num :: int
  time_base_den :: int
  AV_NOPTS_VALUE :: int
  AVERROR_EOF :: int

text \<open>
  A pointer to a demuxer or muxer: the constructor leaves both with what the memory held, the
  probe opens them. The timer event of a context is the number of the event base it is on and
  its interval in microseconds.
\<close>

datatype fmt_ptr = Null | Garbage | Opened

record 'cb file_ctx =
  f_videoRequest :: video_request
  f_consumePktFunc :: 'cb
  f_processErrorFunc :: 'cb
  fps :: "int \<times> int"
  videoStreamId :: int
  iFmtCtx :: fmt_ptr
  oFmtCtx :: fmt_ptr
  f_pts :: int
  prePts :: int
  f_error :: int
  mpFileEvent :: "(nat \<times> int) option"

text \<open>
  The constructor: \<open>fps\<close> and \<open>videoStreamId\<close> are not initialised (the probe sets them), nor are the
  two pointers, whose values \<open>mem\<close> are those of the fresh memory. The destructor closes what
  the pointers point to.
\<close>

definition FileVideoContext :: "fmt_ptr \<times> fmt_ptr \<Rightarrow> video_request \<Rightarrow> 'cb \<Rightarrow> 'cb \<Rightarrow> 'cb file_ctx" where
  "FileVideoContext mem video pktF errF =
     \<lparr>f_videoRequest = video, f_consumePktFunc = pktF, f_processErrorFunc = errF,
      fps = (0, 0), videoStreamId = 0, iFmtCtx = fst mem, oFmtCtx = snd mem,
      f_pts = 0, prePts = 0, f_error = 0, mpFileEvent = None\<rparr>"

definition FileVideoContext_dtor :: "'cb file_ctx \<Rightarrow> unit res" where
  "FileVideoContext_dtor c =
     (if iFmtCtx c = Garbage \<or> oFmtCtx c = Garbage then Inl Undefined_behaviour else Inr ())"

text \<open>
  What a producer does to the outside: a packet given to the RTP muxer, the three callbacks of
  a registration (\<open>'cb\<close> names the closure that is called), a request to the gateway, and a
  counter incremented.
\<close>

datatype 'cb prod_out =
    Mux av_packet
  | Sdp 'cb string
  | Pkt 'cb bytes
  | Err 'cb errc
  | Rpc rpc
  | Inc metric nat

text \<open>Seeking every stream back to the start; the last return code is kept.\<close>

fun seek_streams :: "'e ffmpeg \<Rightarrow> nat list \<Rightarrow> int \<Rightarrow> 'e \<Rightarrow> bool \<times> int \<times> 'e" where
  "seek_streams ff [] ret e = (True, ret, e)"
| "seek_streams ff (i # is) ret e =
     (let (ret1, e1) = avio_seek ff e in
      if ret1 < 0 then (False, ret1, e1)
      else let (ret2, e2) = avformat_seek_file ff i e1 in
           if ret2 < 0 then (False, ret2, e2)
           else seek_streams ff is ret2 e2)"

text \<open>
  \<open>(time_base.den * fps.second) / (fps.first * time_base.num)\<close> in \<open>int\<close> arithmetic.
\<close>

definition default_duration :: "'e ffmpeg \<Rightarrow> 'cb file_ctx \<Rightarrow> int option" where
  "default_duration ff c =
     (case int32 (time_base_den ff * snd (fps c)) of
        None \<Rightarrow> None
      | Some a \<Rightarrow>
          (case int32 (fst (fps c) * time_base_num ff) of
             None \<Rightarrow> None
           | Some b \<Rightarrow> if b = 0 then None else int32 (trunc_div a b)))"

text \<open>The repair of a packet's time stamps against the last one written.\<close>

definition fix_timestamps :: "'e ffmpeg \<Rightarrow> av_packet \<Rightarrow> 'cb file_ctx \<Rightarrow> av_packet \<times> 'cb file_ctx" where
  "fix_timestamps ff pkt c =
     (if pts pkt = AV_NOPTS_VALUE ff \<or> pts pkt \<le> prePts c then
        (if dts pkt = AV_NOPTS_VALUE ff then
           (let p = f_pts c + duration pkt in (pkt\<lparr>pts := p, dts := p\<rparr>, c\<lparr>f_pts := p\<rparr>))
         else if dts pkt \<le> prePts c then
           (let p = prePts c + duration pkt in (pkt\<lparr>pts := p, dts := p\<rparr>, c\<lparr>f_pts := p\<rparr>))
         else (pkt\<lparr>pts := dts pkt\<rparr>, c))
      else (pkt, c))"

text \<open>One pass of the \<open>do\<close> loop: whether it broke out and whether a video packet was found.\<close>

record ('e, 'cb) pass =
  p_ctx :: "'cb file_ctx"
  p_env :: 'e
  p_outs :: "'cb prod_out list"
  p_ret :: int
  p_break :: bool
  p_got :: bool

definition frame_pass :: "'e ffmpeg \<Rightarrow> 'cb file_ctx \<Rightarrow> 'e \<Rightarrow> ('e, 'cb) pass res" where
  "frame_pass ff c e =
     (let (ret, pkt, e) = av_read_frame ff e in
      if ret < 0 then
        (if ret = AVERROR_EOF ff then
           (if repeatedly (f_videoRequest c) then
              (let (seekSucc, ret', e') = seek_streams ff [0..<nb_streams ff] ret e in
               if seekSucc
               then Inr \<lparr>p_ctx = c, p_env = reset_cur_dts ff e', p_outs = [], p_ret = ret',
                         p_break = False, p_got = False\<rparr>
               else Inr \<lparr>p_ctx = c, p_env = e', p_outs = [], p_ret = ret',
                         p_break = True, p_got = False\<rparr>)
            else Inr \<lparr>p_ctx = c\<lparr>f_error := AVERROR_EOF ff\<rparr>, p_env = e, p_outs = [], p_ret = ret,
                      p_break = True, p_got = False\<rparr>)
         else Inr \<lparr>p_ctx = c, p_env = e, p_outs = [], p_ret = ret, p_break = True, p_got = False\<rparr>)
      else if stream_index pkt \<noteq> videoStreamId c then
        Inr \<lparr>p_ctx = c, p_env = e, p_outs = [], p_ret = ret, p_break = False, p_got = False\<rparr>
      else
        (let pkt1 = av_packet_rescale_ts ff (pkt\<lparr>stream_index := 0, pos := -1\<rparr>) in
         case (if duration pkt1 = 0 then default_duration ff c else Some (duration pkt1)) of
           None \<Rightarrow> Inl Undefined_behaviour
         | Some d \<Rightarrow>
             let (pkt2, c1) = fix_timestamps ff (pkt1\<lparr>duration := d\<rparr>) c;
                 c2 = c1\<lparr>prePts := pts pkt2\<rparr>;
                 (ret', rtp, e') = av_interleaved_write_frame ff pkt2 e
             in Inr \<lparr>p_ctx = c2, p_env = e',
                     p_outs = Mux pkt2 # map (Pkt (f_consumePktFunc c)) rtp,
                     p_ret = ret', p_break = (ret' < 0), p_got = True\<rparr>))"

text \<open>The loop, and what follows it: a non-zero last return code stops the stream.\<close>

fun frame_loop :: "nat \<Rightarrow> 'e ffmpeg \<Rightarrow> 'cb file_ctx \<Rightarrow> 'e \<Rightarrow> ('e, 'cb) pass res option" where
  "frame_loop 0 ff c e = None"
| "frame_loop (Suc fuel) ff c e =
     (case frame_pass ff c e of
        Inl x \<Rightarrow> Some (Inl x)
      | Inr p \<Rightarrow> if p_break p \<or> p_got p then Some (Inr p)
                 else frame_loop fuel ff (p_ctx p) (p_env p))"

definition FFGetFrame :: "nat \<Rightarrow> 'e ffmpeg \<Rightarrow> 'cb file_ctx \<Rightarrow> 'e \<Rightarrow>
    ('cb file_ctx \<times> 'e \<times> 'cb prod_out list) res option" where
  "FFGetFrame fuel ff c e =
     (if f_error c \<noteq> 0 then Some (Inr (c, e, []))
      else case frame_loop fuel ff c e of
             None \<Rightarrow> None
           | Some (Inl x) \<Rightarrow> Some (Inl x)
           | Some (Inr p) \<Rightarrow>
               Some (Inr (if p_ret p \<noteq> 0
                 then ((p_ctx p)\<lparr>f_error := p_ret p\<rparr>, p_env p,
                       p_outs p @ [Err (f_processErrorFunc (p_ctx p)) Invalid_argument])
                 else (p_ctx p, p_env p, p_outs p))))"

section \<open>One tick\<close>

lemma seek_streams_fail: "seek_streams ff is ret e = (False, ret', e') \<Longrightarrow> ret' < 0"
  by (induction "is" arbitrary: ret e) (auto simp: Let_def split: prod.splits if_splits)

lemma frame_pass_cases:
  assumes "frame_pass ff c e = Inr p"
  obtains (stop) "p_outs p = []" "p_break p" "p_ret p < 0" "\<not> p_got p"
        "f_processErrorFunc (p_ctx p) = f_processErrorFunc c"
    | (again) "p_outs p = []" "\<not> p_break p" "\<not> p_got p" "p_ctx p = c"
    | (frame) pkt c1 rtp where "p_outs p = Mux pkt # map (Pkt (f_consumePktFunc c)) rtp" "p_got p"
        "p_ctx p = c1\<lparr>prePts := pts pkt\<rparr>"
        "\<exists>ret pkt0 e1 d. av_read_frame ff e = (ret, pkt0, e1) \<and> 0 \<le> ret \<and>
           stream_index pkt0 = videoStreamId c \<and>
           (let pkt1 = av_packet_rescale_ts ff (pkt0\<lparr>stream_index := 0, pos := -1\<rparr>) in
             (if duration pkt1 = 0 then default_duration ff c else Some (duration pkt1)) = Some d \<and>
             fix_timestamps ff (pkt1\<lparr>duration := d\<rparr>) c = (pkt, c1))"
proof -
  obtain ret pkt0 e1 where read: "av_read_frame ff e = (ret, pkt0, e1)"
    by (metis prod_cases3)
  show thesis
  proof (cases "ret < 0")
    case True
    show thesis
    proof (cases "ret = AVERROR_EOF ff \<and> repeatedly (f_videoRequest c)")
      case eof: True
      obtain ok ret' e' where "seek_streams ff [0..<nb_streams ff] ret e1 = (ok, ret', e')"
        by (metis prod_cases3)
      with assms read True eof seek_streams_fail [of ff "[0..<nb_streams ff]" ret e1 ret' e']
      show thesis
        by (cases ok) (auto simp: frame_pass_def intro: stop again)
    next
      case False
      with assms read True show thesis
        by (auto simp: frame_pass_def split: if_splits intro: stop)
    qed
  next
    case False
    show thesis
    proof (cases "stream_index pkt0 = videoStreamId c")
      case True
      let ?pkt1 = "av_packet_rescale_ts ff (pkt0\<lparr>stream_index := 0, pos := -1\<rparr>)"
      obtain d where d: "(if duration ?pkt1 = 0 then default_duration ff c else Some (duration ?pkt1)) = Some d"
        using assms read False True by (auto simp: frame_pass_def Let_def split: option.splits)
      obtain pkt2 c1 where fx: "fix_timestamps ff (?pkt1\<lparr>duration := d\<rparr>) c = (pkt2, c1)"
        by fastforce
      obtain ret' rtp e' where wr: "av_interleaved_write_frame ff pkt2 e1 = (ret', rtp, e')"
        by (metis prod_cases3)
      have p: "p = \<lparr>p_ctx = c1\<lparr>prePts := pts pkt2\<rparr>, p_env = e',
          p_outs = Mux pkt2 # map (Pkt (f_consumePktFunc c)) rtp, p_ret = ret',
          p_break = (ret' < 0), p_got = True\<rparr>"
        using assms read False True d fx wr by (simp add: frame_pass_def Let_def)
      show thesis
        by (rule frame [of pkt2 rtp c1]) (use p read False True d fx in \<open>auto simp: Let_def\<close>)
    next
      case other: False
      with assms read False show thesis
        by (auto simp: frame_pass_def intro: again)
    qed
  qed
qed

lemma fix_timestamps_keeps:
  assumes "fix_timestamps ff pkt c = (pkt', c')"
  shows "f_error c' = f_error c" "f_processErrorFunc c' = f_processErrorFunc c"
    "f_consumePktFunc c' = f_consumePktFunc c" "f_videoRequest c' = f_videoRequest c"
    "fps c' = fps c" "videoStreamId c' = videoStreamId c" "mpFileEvent c' = mpFileEvent c"
  using assms by (auto simp: fix_timestamps_def Let_def split: if_splits)

lemma frame_loop_last:
  "frame_loop fuel ff c e = Some (Inr p) \<Longrightarrow>
     \<exists>e0. frame_pass ff c e0 = Inr p \<and> (p_break p \<or> p_got p)"
proof (induction fuel arbitrary: e)
  case (Suc fuel)
  then obtain q where q: "frame_pass ff c e = Inr q"
    by (cases "frame_pass ff c e") auto
  show ?case
  proof (cases "p_break q \<or> p_got q")
    case True
    with Suc.prems q show ?thesis by auto
  next
    case False
    with frame_pass_cases [OF q] have "p_ctx q = c" by metis
    with Suc False q show ?thesis by auto
  qed
qed simp

text \<open>The result of a tick on a running context: a frame, an error, or both.\<close>

lemma FFGetFrame_cases:
  assumes "FFGetFrame fuel ff c e = Some (Inr (c', e', outs))" and "f_error c = 0"
  obtains (error) "f_error c' \<noteq> 0" "outs = [Err (f_processErrorFunc c) Invalid_argument]"
    | (frame) e0 ret pkt0 e1 d pkt1 pkt c1 rtp where
        "av_read_frame ff e0 = (ret, pkt0, e1)" "0 \<le> ret" "stream_index pkt0 = videoStreamId c"
        "pkt1 = av_packet_rescale_ts ff (pkt0\<lparr>stream_index := 0, pos := -1\<rparr>)"
        "(if duration pkt1 = 0 then default_duration ff c else Some (duration pkt1)) = Some d"
        "fix_timestamps ff (pkt1\<lparr>duration := d\<rparr>) c = (pkt, c1)"
        "outs = Mux pkt # map (Pkt (f_consumePktFunc c)) rtp
           @ (if f_error c' = 0 then [] else [Err (f_processErrorFunc c) Invalid_argument])"
        "c' = c1\<lparr>prePts := pts pkt, f_error := f_error c'\<rparr>"
proof -
  from assms obtain p where p: "frame_loop fuel ff c e = Some (Inr p)"
    and res: "(c', e', outs) = (if p_ret p \<noteq> 0
      then ((p_ctx p)\<lparr>f_error := p_ret p\<rparr>, p_env p,
            p_outs p @ [Err (f_processErrorFunc (p_ctx p)) Invalid_argument])
      else (p_ctx p, p_env p, p_outs p))"
    by (auto simp: FFGetFrame_def split: option.splits sum.splits)
  obtain e0 where e0: "frame_pass ff c e0 = Inr p" "p_break p \<or> p_got p"
    using frame_loop_last [OF p] by blast
  from e0(1) show thesis
  proof (cases rule: frame_pass_cases)
    case stop
    with res show thesis by (auto intro: error)
  next
    case again
    with e0(2) show thesis by simp
  next
    case (frame pkt c1 rtp)
    then obtain ret pkt0 e1 d where x: "av_read_frame ff e0 = (ret, pkt0, e1)" "0 \<le> ret"
      "stream_index pkt0 = videoStreamId c"
      "(if duration (av_packet_rescale_ts ff (pkt0\<lparr>stream_index := 0, pos := -1\<rparr>)) = 0
        then default_duration ff c
        else Some (duration (av_packet_rescale_ts ff (pkt0\<lparr>stream_index := 0, pos := -1\<rparr>)))) = Some d"
      "fix_timestamps ff (av_packet_rescale_ts ff (pkt0\<lparr>stream_index := 0, pos := -1\<rparr>)\<lparr>duration := d\<rparr>) c
        = (pkt, c1)"
      by (auto simp: Let_def)
    show thesis
      by (rule that(2) [OF x(1-3) refl x(4,5)])
        (use frame res assms(2) fix_timestamps_keeps [OF x(5)] in \<open>auto split: if_splits\<close>)
  qed
qed

section \<open>Runs of the timer\<close>

text \<open>
  The event loop calls the tick again and again; \<open>file_run\<close> collects the outputs of the ticks
  that return.
\<close>

inductive file_run :: "'e ffmpeg \<Rightarrow> 'cb file_ctx \<Rightarrow> 'e \<Rightarrow> 'cb prod_out list \<Rightarrow> 'cb file_ctx \<Rightarrow> 'e \<Rightarrow> bool"
  for ff c e where
  start: "file_run ff c e [] c e"
| tick: "file_run ff c e outs c1 e1 \<Longrightarrow> FFGetFrame fuel ff c1 e1 = Some (Inr (c2, e2, outs')) \<Longrightarrow>
     file_run ff c e (outs @ outs') c2 e2"

inductive_cases file_run_startE: "file_run ff c e [] c' e'"

fun is_err :: "'cb prod_out \<Rightarrow> bool" where
  "is_err (Err cb ec) = True"
| "is_err _ = False"

fun mux_pts :: "'cb prod_out list \<Rightarrow> int list" where
  "mux_pts [] = []"
| "mux_pts (Mux pkt # outs) = pts pkt # mux_pts outs"
| "mux_pts (_ # outs) = mux_pts outs"

lemma mux_pts_append [simp]: "mux_pts (xs @ ys) = mux_pts xs @ mux_pts ys"
  by (induction xs rule: mux_pts.induct) auto

lemma mux_pts_Pkt [simp]: "mux_pts (map (Pkt cb) rtp) = []"
  by (induction rtp) auto

lemma frame_pass_keeps:
  "frame_pass ff c e = Inr p \<Longrightarrow>
     f_consumePktFunc (p_ctx p) = f_consumePktFunc c \<and>
     f_processErrorFunc (p_ctx p) = f_processErrorFunc c \<and>
     fps (p_ctx p) = fps c \<and> videoStreamId (p_ctx p) = videoStreamId c"
  by (auto simp: frame_pass_def Let_def fix_timestamps_def split: prod.splits option.splits if_splits)

lemma FFGetFrame_keeps:
  assumes "FFGetFrame fuel ff c e = Some (Inr (c', e', outs))"
  shows "f_consumePktFunc c' = f_consumePktFunc c" "f_processErrorFunc c' = f_processErrorFunc c"
    "fps c' = fps c" "videoStreamId c' = videoStreamId c"
proof -
  have "f_consumePktFunc c' = f_consumePktFunc c \<and> f_processErrorFunc c' = f_processErrorFunc c
    \<and> fps c' = fps c \<and> videoStreamId c' = videoStreamId c"
  proof (cases "f_error c = 0")
    case True
    with assms obtain p where p: "frame_loop fuel ff c e = Some (Inr p)"
      and c': "c' = p_ctx p \<or> c' = (p_ctx p)\<lparr>f_error := p_ret p\<rparr>"
      by (auto simp: FFGetFrame_def split: option.splits sum.splits if_splits)
    then show ?thesis
      using frame_loop_last [OF p] frame_pass_keeps by fastforce
  qed (use assms in \<open>simp add: FFGetFrame_def\<close>)
  then show "f_consumePktFunc c' = f_consumePktFunc c" "f_processErrorFunc c' = f_processErrorFunc c"
    "fps c' = fps c" "videoStreamId c' = videoStreamId c" by simp_all
qed

lemma file_run_keeps:
  assumes "file_run ff c e outs c' e'"
  shows "f_processErrorFunc c' = f_processErrorFunc c" "f_consumePktFunc c' = f_consumePktFunc c"
    "fps c' = fps c" "videoStreamId c' = videoStreamId c"
  using assms by induction (auto simp: FFGetFrame_keeps)

lemma default_duration_cong: "fps c' = fps c \<Longrightarrow> default_duration ff c' = default_duration ff c"
  by (simp only: default_duration_def)

text \<open>
  A concrete library: the state counts the reads, and the file is an audio packet, a video
  packet, a video packet with a stale presentation time stamp, and the end.
\<close>

definition video_pkt :: "int \<Rightarrow> int \<Rightarrow> av_packet" where
  "video_pkt p d = \<lparr>stream_index = 1, pos = 10, pts = p, dts = d, duration = 0\<rparr>"

definition audio_pkt :: av_packet where
  "audio_pkt = \<lparr>stream_index = 0, pos = 10, pts = 5, dts = 5, duration = 1\<rparr>"

definition demo_ff :: "nat ffmpeg" where
  "demo_ff =
     \<lparr>av_read_frame = (\<lambda>n. if n = 0 then (0, audio_pkt, 1)
                            else if n = 1 then (0, video_pkt 3600 3600, 2)
                            else if n = 2 then (0, video_pkt 0 7200, 3)
                            else (-541478725, audio_pkt, n)),
      avio_seek = (\<lambda>n. (0, 0)), avformat_seek_file = (\<lambda>i n. (0, n)), reset_cur_dts = id,
      av_packet_rescale_ts = id, av_interleaved_write_frame = (\<lambda>pkt n. (0, [[1, 2]], n)),
      nb_streams = 2, time_base_num = 1, time_base_den = 90000,
      AV_NOPTS_VALUE = -9223372036854775808, AVERROR_EOF = -541478725\<rparr>"

definition demo_ctx :: "nat file_ctx" where
  "demo_ctx = (FileVideoContext (Null, Null) (VideoRequest\<lparr>use_file := True, filename := ''/a.mp4''\<rparr>) 7 8)
     \<lparr>fps := (25, 1), videoStreamId := 1, iFmtCtx := Opened, oFmtCtx := Opened, mpFileEvent := Some (0, 40000)\<rparr>"

lemmas demo_defs = demo_ff_def video_pkt_def audio_pkt_def demo_ctx_def FileVideoContext_def

lemma demo_tick1:
  "FFGetFrame 2 demo_ff demo_ctx 0 =
     Some (Inr (demo_ctx\<lparr>prePts := 3600\<rparr>, 2,
       [Mux \<lparr>stream_index = 0, pos = -1, pts = 3600, dts = 3600, duration = 3600\<rparr>, Pkt 7 [1, 2]]))"
  by (simp add: FFGetFrame_def frame_pass_def fix_timestamps_def default_duration_def int32_def in_int32_def
      trunc_div_def Let_def eval_nat_numeral demo_defs)

lemma demo_tick2:
  "FFGetFrame 1 demo_ff (demo_ctx\<lparr>prePts := 3600\<rparr>) 2 =
     Some (Inr (demo_ctx\<lparr>prePts := 7200\<rparr>, 3,
       [Mux \<lparr>stream_index = 0, pos = -1, pts = 7200, dts = 7200, duration = 3600\<rparr>, Pkt 7 [1, 2]]))"
  by (simp add: FFGetFrame_def frame_pass_def fix_timestamps_def default_duration_def int32_def in_int32_def
      trunc_div_def Let_def demo_defs)

lemma demo_tick3:
  "FFGetFrame 1 demo_ff (demo_ctx\<lparr>prePts := 7200\<rparr>) 3 =
     Some (Inr (demo_ctx\<lparr>prePts := 7200, f_error := -541478725\<rparr>, 3, [Err 8 Invalid_argument]))"
  by (simp add: FFGetFrame_def frame_pass_def Let_def demo_defs VideoRequest_def)

lemma demo_stopped: "f_error (demo_ctx\<lparr>prePts := 7200, f_error := -541478725\<rparr>) \<noteq> 0"
  by simp

lemma demo_run:
  "file_run demo_ff demo_ctx 0
     [Mux \<lparr>stream_index = 0, pos = -1, pts = 3600, dts = 3600, duration = 3600\<rparr>, Pkt 7 [1, 2],
      Mux \<lparr>stream_index = 0, pos = -1, pts = 7200, dts = 7200, duration = 3600\<rparr>, Pkt 7 [1, 2],
      Err 8 Invalid_argument]
     (demo_ctx\<lparr>prePts := 7200, f_error := -541478725\<rparr>) 3"
  using file_run.tick [OF file_run.tick [OF file_run.tick [OF file_run.start demo_tick1] demo_tick2] demo_tick3]
  by simp

text \<open>
  C23: Whatever the file and the library do, a stream that has stopped stays stopped: over any
  run of the timer the error callback of the registration is called at most once, exactly when
  the context is left with an error, and nothing at all is sent after it.
\<close>

theorem file_run_stops_at_error:
  assumes "file_run ff c e outs c' e'" and "f_error c = 0"
  shows "if f_error c' = 0 then \<not> list_ex is_err outs
    else \<exists>outs'. outs = outs' @ [Err (f_processErrorFunc c) Invalid_argument] \<and> \<not> list_ex is_err outs'"
  using assms
proof induction
  case (tick outs c1 e1 fuel c2 e2 outs')
  show ?case
  proof (cases "f_error c1 = 0")
    case False
    with tick show ?thesis by (auto simp: FFGetFrame_def)
  next
    case True
    then have none: "\<not> list_ex is_err outs" using tick by simp
    from tick.hyps(2) True show ?thesis
      by (cases rule: FFGetFrame_cases)
        (use none file_run_keeps [OF tick.hyps(1)] in \<open>auto simp: list_ex_iff\<close>)
  qed
qed simp

theorem file_run_stops_at_error_witness:
  "\<exists>c' outs'. file_run demo_ff demo_ctx 0 (outs' @ [Err 8 Invalid_argument]) c' 3 \<and>
     f_error c' \<noteq> 0 \<and> \<not> list_ex is_err outs' \<and> mux_pts outs' = [3600, 7200]"
proof -
  have "f_error demo_ctx = 0" "f_processErrorFunc demo_ctx = 8" by (simp_all add: demo_defs)
  with file_run_stops_at_error [OF demo_run] obtain outs' :: "nat prod_out list" where
    outs': "[Mux \<lparr>stream_index = 0, pos = -1, pts = 3600, dts = 3600, duration = 3600\<rparr>, Pkt 7 [1, 2],
      Mux \<lparr>stream_index = 0, pos = -1, pts = 7200, dts = 7200, duration = 3600\<rparr>, Pkt 7 [1, 2],
      Err 8 Invalid_argument] = outs' @ [Err 8 Invalid_argument]" "\<not> list_ex is_err outs'"
    by auto
  have "mux_pts outs' = [3600, 7200]"
    using arg_cong [OF outs'(1), of mux_pts] by simp
  with demo_run outs' show ?thesis by (metis demo_stopped)
qed

text \<open>
  A reader that hands out well stamped video packets: after rescaling each has a decoding time
  stamp and no negative duration, and the frame rate gives a positive default duration.
\<close>

definition stamped :: "'e ffmpeg \<Rightarrow> 'cb file_ctx \<Rightarrow> bool" where
  "stamped ff c \<longleftrightarrow>
     (\<forall>e ret pkt e1. av_read_frame ff e = (ret, pkt, e1) \<longrightarrow> 0 \<le> ret \<longrightarrow>
        stream_index pkt = videoStreamId c \<longrightarrow>
        (let pkt1 = av_packet_rescale_ts ff (pkt\<lparr>stream_index := 0, pos := -1\<rparr>) in
          dts pkt1 \<noteq> AV_NOPTS_VALUE ff \<and> 0 \<le> duration pkt1)) \<and>
     (\<exists>d. default_duration ff c = Some d \<and> 0 < d)"

lemma fix_timestamps_dts:
  assumes "fix_timestamps ff pkt c = (pkt', c')" "dts pkt \<noteq> AV_NOPTS_VALUE ff" "0 < duration pkt"
  shows "prePts c < pts pkt'"
  using assms by (auto simp: fix_timestamps_def Let_def split: if_splits)

lemma FFGetFrame_pts:
  assumes "FFGetFrame fuel ff c e = Some (Inr (c', e', outs))" and "stamped ff c"
  shows "(mux_pts outs = [] \<and> (prePts c' = prePts c \<or> f_error c' \<noteq> 0)) \<or>
    (\<exists>x. mux_pts outs = [x] \<and> prePts c < x \<and> prePts c' = x)"
proof (cases "f_error c = 0")
  case False
  with assms(1) show ?thesis by (simp add: FFGetFrame_def)
next
  case True
  from assms(1) True show ?thesis
  proof (cases rule: FFGetFrame_cases)
    case error
    then show ?thesis by simp
  next
    case (frame e0 ret pkt0 e1 d pkt1 pkt c1 rtp)
    have "dts pkt1 \<noteq> AV_NOPTS_VALUE ff \<and> 0 \<le> duration pkt1"
      using assms(2) frame(1-4) unfolding stamped_def Let_def by blast
    moreover have "0 < d"
      using assms(2) frame(5) calculation by (auto simp: stamped_def split: if_splits)
    ultimately have "prePts c < pts pkt"
      using fix_timestamps_dts [OF frame(6)] by simp
    moreover have "prePts c' = pts pkt"
      by (subst frame(8)) simp
    ultimately show ?thesis using frame(7) by auto
  qed
qed

lemma strict_sorted_le_last: "sorted_wrt (<) xs \<Longrightarrow> x \<in> set xs \<Longrightarrow> x \<le> last xs" for x :: int
  by (induction xs) (auto intro: less_imp_le)

lemma file_run_pts:
  assumes "file_run ff c e outs c' e'" and "stamped ff c"
  shows "sorted_wrt (<) (prePts c # mux_pts outs) \<and>
    (f_error c' = 0 \<longrightarrow> prePts c' = last (prePts c # mux_pts outs))"
  using assms
proof induction
  case (tick outs c1 e1 fuel c2 e2 outs')
  show ?case
  proof (cases "f_error c1 = 0")
    case False
    with tick show ?thesis by (auto simp: FFGetFrame_def)
  next
    case True
    have st: "stamped ff c1"
      using tick.prems file_run_keeps [OF tick.hyps(1)] default_duration_cong [of c1 c ff]
      by (simp add: stamped_def)
    have IH: "sorted_wrt (<) (prePts c # mux_pts outs)" "prePts c1 = last (prePts c # mux_pts outs)"
      using tick.IH [OF tick.prems] True by auto
    have le: "x \<le> prePts c1" if "x \<in> set (prePts c # mux_pts outs)" for x
      using strict_sorted_le_last [OF IH(1) that] IH(2) by simp
    from FFGetFrame_pts [OF tick.hyps(2) st] consider
      "mux_pts outs' = []" "prePts c2 = prePts c1 \<or> f_error c2 \<noteq> 0"
      | x where "mux_pts outs' = [x]" "prePts c1 < x" "prePts c2 = x" by blast
    then show ?thesis
    proof cases
      case 1
      with IH show ?thesis by auto
    next
      case 2
      have "\<forall>y \<in> set (prePts c # mux_pts outs). y < x"
        using le 2(2) by fastforce
      with 2 IH(1) show ?thesis by (auto simp: sorted_wrt_append)
    qed
  qed
qed simp


lemma demo_run2:
  "file_run demo_ff demo_ctx 0
     [Mux \<lparr>stream_index = 0, pos = -1, pts = 3600, dts = 3600, duration = 3600\<rparr>, Pkt 7 [1, 2],
      Mux \<lparr>stream_index = 0, pos = -1, pts = 7200, dts = 7200, duration = 3600\<rparr>, Pkt 7 [1, 2]]
     (demo_ctx\<lparr>prePts := 7200\<rparr>) 3"
  using file_run.tick [OF file_run.tick [OF file_run.start demo_tick1] demo_tick2] by simp

lemma demo_stamped: "stamped demo_ff demo_ctx"
  by (auto simp: stamped_def demo_defs default_duration_def int32_def in_int32_def trunc_div_def
      split: if_splits)


text \<open>
  A packet that leaves the time stamp repair has a later presentation time stamp than the
  one before it, except in one case: it has no usable presentation time stamp and no decoding
  time stamp, and the running counter \<open>pts\<close>, which only the repair itself advances, has fallen
  behind. So a file that mixes stamped and unstamped packets can make time go backwards.
\<close>

theorem fix_timestamps_increases_iff:
  assumes "0 < duration pkt"
  shows "prePts c < pts (fst (fix_timestamps ff pkt c)) \<longleftrightarrow>
    \<not> ((pts pkt = AV_NOPTS_VALUE ff \<or> pts pkt \<le> prePts c) \<and> dts pkt = AV_NOPTS_VALUE ff \<and>
       f_pts c + duration pkt \<le> prePts c)"
  using assms by (auto simp: fix_timestamps_def Let_def)

theorem fix_timestamps_increases_iff_witness:
  "pts (fst (fix_timestamps demo_ff
      \<lparr>stream_index = 0, pos = -1, pts = -9223372036854775808, dts = -9223372036854775808, duration = 3600\<rparr>
      (demo_ctx\<lparr>prePts := 7200\<rparr>))) \<le> 7200"
  using fix_timestamps_increases_iff
    [of "\<lparr>stream_index = 0, pos = -1, pts = -9223372036854775808, dts = -9223372036854775808, duration = 3600\<rparr>"
      "demo_ctx\<lparr>prePts := 7200\<rparr>" demo_ff]
  by (simp add: demo_defs)

section \<open>A tick returns\<close>

text \<open>
  The next \<open>n\<close> reads give packets of other streams, and then one gives a video packet or fails
  (with \<open>eof\<close>, reaching the end of the file counts as failing).
\<close>

fun reads_until :: "bool \<Rightarrow> 'e ffmpeg \<Rightarrow> int \<Rightarrow> nat \<Rightarrow> 'e \<Rightarrow> bool" where
  "reads_until eof ff v 0 e =
     (let (ret, pkt, e1) = av_read_frame ff e in
      if ret < 0 then eof \<or> ret \<noteq> AVERROR_EOF ff else stream_index pkt = v)"
| "reads_until eof ff v (Suc n) e =
     (let (ret, pkt, e1) = av_read_frame ff e in
      0 \<le> ret \<and> stream_index pkt \<noteq> v \<and> reads_until eof ff v n e1)"

text \<open>The library state after the seek to the start that follows the end of the file.\<close>

definition rewind :: "'e ffmpeg \<Rightarrow> 'e \<Rightarrow> 'e" where
  "rewind ff e = reset_cur_dts ff (snd (snd (seek_streams ff [0..<nb_streams ff] (AVERROR_EOF ff) e)))"

lemma frame_pass_other:
  assumes "av_read_frame ff e = (ret, pkt, e1)" "0 \<le> ret" "stream_index pkt \<noteq> videoStreamId c"
  shows "frame_pass ff c e = Inr \<lparr>p_ctx = c, p_env = e1, p_outs = [], p_ret = ret, p_break = False, p_got = False\<rparr>"
  using assms by (simp add: frame_pass_def)

lemma frame_pass_video:
  assumes "av_read_frame ff e = (ret, pkt, e1)" "0 \<le> ret" "stream_index pkt = videoStreamId c"
    "frame_pass ff c e = Inr p"
  shows "p_got p"
  using assms by (auto simp: frame_pass_def Let_def split: option.splits prod.splits)

lemma frame_pass_failed:
  assumes "av_read_frame ff e = (ret, pkt, e1)" "ret < 0" "frame_pass ff c e = Inr p"
  shows "p_break p \<or> (ret = AVERROR_EOF ff \<and> repeatedly (f_videoRequest c) \<and>
    \<not> p_got p \<and> p_ctx p = c \<and> p_env p = rewind ff e1)"
  using assms by (auto simp: frame_pass_def rewind_def split: if_splits prod.splits)

lemma frame_loop_video:
  "reads_until False ff (videoStreamId c) n e \<Longrightarrow> n < fuel \<Longrightarrow> \<exists>r. frame_loop fuel ff c e = Some r"
proof (induction n arbitrary: e fuel)
  case 0
  then obtain fuel' where "fuel = Suc fuel'" by (cases fuel) auto
  with 0 frame_pass_video [of ff e _ _ _ c] frame_pass_failed [of ff e _ _ _ c] show ?case
    by (fastforce simp: not_less split: sum.splits prod.splits if_splits)
next
  case (Suc n)
  then obtain fuel' where "fuel = Suc fuel'" by (cases fuel) auto
  with Suc show ?case by (auto simp: frame_pass_other split: prod.splits)
qed


lemma frame_loop_returns:
  assumes "reads_until True ff (videoStreamId c) n e" and "n + k + 1 < fuel"
    and "repeatedly (f_videoRequest c) \<Longrightarrow> \<forall>e1. \<exists>m \<le> k. reads_until False ff (videoStreamId c) m (rewind ff e1)"
  shows "\<exists>r. frame_loop fuel ff c e = Some r"
  using assms(1,2)
proof (induction n arbitrary: e fuel)
  case 0
  then obtain fuel' where fuel: "fuel = Suc fuel'" "k < fuel'" by (cases fuel) auto
  obtain ret pkt e1 where read: "av_read_frame ff e = (ret, pkt, e1)" by (metis prod_cases3)
  show ?case
  proof (cases "frame_pass ff c e")
    case (Inr p)
    show ?thesis
    proof (cases "p_break p \<or> p_got p")
      case False
      then have "ret < 0"
        using 0(1) read frame_pass_video [OF read _ _ Inr] by (auto simp: not_less split: if_splits)
      with False frame_pass_failed [OF read _ Inr] have
        p: "repeatedly (f_videoRequest c)" "p_ctx p = c" "p_env p = rewind ff e1" by auto
      then obtain m where "m \<le> k" "reads_until False ff (videoStreamId c) m (rewind ff e1)"
        using assms(3) by blast
      then show ?thesis
        using frame_loop_video [of ff c m "rewind ff e1" fuel'] fuel Inr False p by auto
    qed (use fuel Inr in auto)
  qed (simp add: fuel)
next
  case (Suc n)
  then obtain fuel' where "fuel = Suc fuel'" by (cases fuel) auto
  with Suc show ?case by (auto simp: frame_pass_other split: prod.splits)
qed



text \<open>
  The premise on repeated play is needed: on a file that is at its end again after every
  seek to the start (it has no packet to give), a tick of a repeated stream never returns, and
  the event loop that runs it, with all its other streams, is lost.
\<close>

theorem FFGetFrame_spins:
  assumes "repeatedly (f_videoRequest c)" and "f_error c = 0" and "AVERROR_EOF ff < 0"
    and "\<And>e. fst (av_read_frame ff e) = AVERROR_EOF ff"
    and "\<And>e. 0 \<le> fst (avio_seek ff e)" and "\<And>i e. 0 \<le> fst (avformat_seek_file ff i e)"
  shows "FFGetFrame fuel ff c e = None"
proof -
  have seek: "fst (seek_streams ff is ret e)" for "is" ret e
    by (induction "is" arbitrary: ret e)
      (simp_all add: Let_def case_prod_beta assms(5,6) [THEN leD])
  have "\<exists>p. frame_pass ff c e = Inr p \<and> \<not> p_break p \<and> \<not> p_got p \<and> p_ctx p = c" for e
    using assms(1,3) assms(4) [of e] seek [of "[0..<nb_streams ff]" "AVERROR_EOF ff" "snd (snd (av_read_frame ff e))"]
    by (auto simp: frame_pass_def split: prod.splits)
  note again = this
  have "frame_loop fuel ff c e = None" for e
  proof (induction fuel arbitrary: e)
    case (Suc fuel)
    from again [of e] Suc show ?case by auto
  qed simp
  with assms(2) show ?thesis by (simp add: FFGetFrame_def)
qed

theorem FFGetFrame_spins_witness:
  "FFGetFrame 1000 (demo_ff\<lparr>av_read_frame := \<lambda>n. (-541478725, audio_pkt, n)\<rparr>)
     (demo_ctx\<lparr>f_videoRequest := VideoRequest\<lparr>repeatedly := True\<rparr>\<rparr>) 0 = None"
  by (rule FFGetFrame_spins) (simp_all add: demo_defs)

end
