(* ===== verification/Thread_Pool.thy ===== *)
theory Thread_Pool
  imports Ffvms_Prelude "HOL-Library.Multiset" "HOL-Library.Sublist"
begin

text \<open>
  \<open>common/thread_pool/include/thread_pool.h\<close>. The state is the queue \<open>mTasks\<close>, the flag
  \<open>mStop\<close> and what each worker thread is doing; a worker holds the mutex only between waking
  up and popping a task, so one wake-up and one completed task are the atomic steps, and the
  runs of the pool are their interleavings with \<open>submit\<close> and with the destructor.
  A task is a value of any type: running it is the event \<open>Done\<close>.
\<close>

datatype 'a worker = Waiting | Running 'a | Exited

record 'a thread_pool =
  mWorks :: "'a worker list"
  mTasks :: "'a list"
  mStop :: bool

definition ThreadPool :: "nat \<Rightarrow> 'a thread_pool" where
  "ThreadPool capacity = \<lparr>mWorks = replicate capacity Waiting, mTasks = [], mStop = False\<rparr>"

definition submit :: "'a \<Rightarrow> 'a thread_pool \<Rightarrow> 'a thread_pool res" where
  "submit f p =
     (if mStop p then Inl (Runtime_error ''submit to stopped ThreadPool'')
      else Inr (p\<lparr>mTasks := mTasks p @ [f]\<rparr>))"

text \<open>The predicate of \<open>mCv.wait\<close>, and what a worker does once it holds.\<close>

definition wait_pred :: "'a thread_pool \<Rightarrow> bool" where
  "wait_pred p \<longleftrightarrow> mStop p \<or> mTasks p \<noteq> []"

definition worker_wake :: "nat \<Rightarrow> 'a thread_pool \<Rightarrow> 'a thread_pool" where
  "worker_wake i p =
     (if mStop p then p\<lparr>mWorks := (mWorks p)[i := Exited]\<rparr>
      else case mTasks p of
             [] \<Rightarrow> p
           | task # rest \<Rightarrow> p\<lparr>mWorks := (mWorks p)[i := Running task], mTasks := rest\<rparr>)"

definition worker_done :: "nat \<Rightarrow> 'a thread_pool \<Rightarrow> 'a thread_pool" where
  "worker_done i p = p\<lparr>mWorks := (mWorks p)[i := Waiting]\<rparr>"

text \<open>The destructor: set the flag, then \<open>join\<close> every worker.\<close>

definition dtor_stop :: "'a thread_pool \<Rightarrow> 'a thread_pool" where
  "dtor_stop p = p\<lparr>mStop := True\<rparr>"

definition dtor_joined :: "'a thread_pool \<Rightarrow> bool" where
  "dtor_joined p \<longleftrightarrow> (\<forall>w \<in> set (mWorks p). w = Exited)"

subsection \<open>Runs\<close>

datatype 'a pool_event = Submitted 'a | Started nat 'a | Quit nat | Done nat 'a | Stopped

inductive pool_step :: "'a thread_pool \<Rightarrow> 'a pool_event \<Rightarrow> 'a thread_pool \<Rightarrow> bool" where
  submit: "submit f p = Inr p' \<Longrightarrow> pool_step p (Submitted f) p'"
| start: "i < length (mWorks p) \<Longrightarrow> mWorks p ! i = Waiting \<Longrightarrow> wait_pred p \<Longrightarrow> \<not> mStop p \<Longrightarrow>
    pool_step p (Started i (hd (mTasks p))) (worker_wake i p)"
| quit: "i < length (mWorks p) \<Longrightarrow> mWorks p ! i = Waiting \<Longrightarrow> wait_pred p \<Longrightarrow> mStop p \<Longrightarrow>
    pool_step p (Quit i) (worker_wake i p)"
| finish: "i < length (mWorks p) \<Longrightarrow> mWorks p ! i = Running t \<Longrightarrow>
    pool_step p (Done i t) (worker_done i p)"
| stop: "pool_step p Stopped (dtor_stop p)"

inductive pool_run :: "'a thread_pool \<Rightarrow> 'a pool_event list \<Rightarrow> 'a thread_pool \<Rightarrow> bool"
  for p where
  none: "pool_run p [] p"
| more: "pool_run p evs q \<Longrightarrow> pool_step q ev r \<Longrightarrow> pool_run p (evs @ [ev]) r"

inductive_cases submittedE: "pool_step p (Submitted f) q"
inductive_cases startedE: "pool_step p (Started i t) q"
inductive_cases quitE: "pool_step p (Quit i) q"
inductive_cases doneE: "pool_step p (Done i t) q"
inductive_cases stoppedE: "pool_step p Stopped q"
inductive_cases pool_run_snocE: "pool_run p (evs @ [ev]) r"

fun submitted1 :: "'a pool_event \<Rightarrow> 'a list" where
  "submitted1 (Submitted f) = [f]" | "submitted1 _ = []"

fun started1 :: "'a pool_event \<Rightarrow> 'a list" where
  "started1 (Started i f) = [f]" | "started1 _ = []"

fun done1 :: "'a pool_event \<Rightarrow> 'a list" where
  "done1 (Done i f) = [f]" | "done1 _ = []"

abbreviation submitted :: "'a pool_event list \<Rightarrow> 'a list" where
  "submitted evs \<equiv> concat (map submitted1 evs)"

abbreviation started :: "'a pool_event list \<Rightarrow> 'a list" where
  "started evs \<equiv> concat (map started1 evs)"

abbreviation completed :: "'a pool_event list \<Rightarrow> 'a list" where
  "completed evs \<equiv> concat (map done1 evs)"

fun running1 :: "'a worker \<Rightarrow> 'a list" where
  "running1 (Running t) = [t]" | "running1 _ = []"

abbreviation running :: "'a thread_pool \<Rightarrow> 'a list" where
  "running p \<equiv> concat (map running1 (mWorks p))"

lemmas pool_defs = submit_def wait_pred_def worker_wake_def worker_done_def dtor_stop_def

lemma mset_running_update:
  "i < length ws \<Longrightarrow> mset (concat (map running1 (ws[i := w]))) + mset (running1 (ws ! i))
     = mset (concat (map running1 ws)) + mset (running1 w)"
proof (induction ws arbitrary: i)
  case (Cons v ws)
  then show ?case by (cases i) (auto simp: ac_simps)
qed simp

lemma pool_step_workers: "pool_step p ev q \<Longrightarrow> length (mWorks q) = length (mWorks p)"
  by (induction rule: pool_step.induct)
     (auto simp: pool_defs split: if_splits list.splits)

lemma pool_run_workers: "pool_run p evs q \<Longrightarrow> length (mWorks q) = length (mWorks p)"
  by (induction rule: pool_run.induct) (auto dest: pool_step_workers)

text \<open>One step moves tasks from \<open>submit\<close> to the queue, from its front to a worker, and out.\<close>

lemma pool_step_queue: "pool_step p ev q \<Longrightarrow> started1 ev @ mTasks q = mTasks p @ submitted1 ev"
  by (induction rule: pool_step.induct) (auto simp: pool_defs split: if_splits list.splits)

lemma pool_step_running:
  "pool_step p ev q \<Longrightarrow> mset (running q) + mset (done1 ev) = mset (running p) + mset (started1 ev)"
proof (induction rule: pool_step.induct)
  case (start i p)
  then show ?case
    using mset_running_update [of i "mWorks p" "Running (hd (mTasks p))"]
    by (auto simp: pool_defs split: list.splits)
next
  case (quit i p)
  then show ?case
    using mset_running_update [of i "mWorks p" Exited] by (auto simp: pool_defs)
next
  case (finish i p t)
  then show ?case
    using mset_running_update [of i "mWorks p" Waiting] by (auto simp: pool_defs)
qed (auto simp: pool_defs split: if_splits)

lemma pool_run_queue: "pool_run p evs q \<Longrightarrow> started evs @ mTasks q = mTasks p @ submitted evs"
proof (induction rule: pool_run.induct)
  case (more evs q ev r)
  from pool_step_queue [OF more(2)] have "started (evs @ [ev]) @ mTasks r = (started evs @ mTasks q) @ submitted1 ev"
    by simp
  with more.IH show ?case by simp
qed simp

lemma pool_run_running:
  "pool_run p evs q \<Longrightarrow> mset (running q) + mset (completed evs) = mset (running p) + mset (started evs)"
proof (induction rule: pool_run.induct)
  case (more evs q ev r)
  have "mset (running r) + mset (completed (evs @ [ev]))
      = (mset (running r) + mset (done1 ev)) + mset (completed evs)"
    by (simp add: ac_simps)
  also have "\<dots> = (mset (running q) + mset (completed evs)) + mset (started1 ev)"
    unfolding pool_step_running [OF more(2)] by (simp add: ac_simps)
  also have "\<dots> = mset (running p) + mset (started (evs @ [ev]))"
    unfolding more.IH by (simp add: ac_simps)
  finally show ?case .
qed simp

lemma running_ThreadPool [simp]: "running (ThreadPool n) = []"
  by (induction n) (auto simp: ThreadPool_def)

lemma mTasks_ThreadPool [simp]: "mTasks (ThreadPool n) = []"
  by (simp add: ThreadPool_def)

lemma length_ThreadPool [simp]: "length (mWorks (ThreadPool n)) = n"
  by (simp add: ThreadPool_def)

subsection \<open>One worker: completion order\<close>

text \<open>With one worker a task is started only after the one before it is done.\<close>

lemma one_worker_step:
  assumes "pool_step p ev q" and "length (mWorks p) = 1"
  shows "done1 ev @ running q @ mTasks q = running p @ mTasks p @ submitted1 ev"
  using assms
proof (induction rule: pool_step.induct)
  case (start i p)
  then obtain w where "mWorks p = [w]" by (metis One_nat_def length_0_conv length_Suc_conv)
  with start show ?case by (auto simp: pool_defs split: list.splits)
next
  case (quit i p)
  then obtain w where "mWorks p = [w]" by (metis One_nat_def length_0_conv length_Suc_conv)
  with quit show ?case by (auto simp: pool_defs)
next
  case (finish i p t)
  then obtain w where "mWorks p = [w]" by (metis One_nat_def length_0_conv length_Suc_conv)
  with finish show ?case by (auto simp: pool_defs)
qed (auto simp: pool_defs split: if_splits)

lemma one_worker_run:
  assumes "pool_run p evs q" and "length (mWorks p) = 1"
  shows "completed evs @ running q @ mTasks q = running p @ mTasks p @ submitted evs"
  using assms
proof (induction rule: pool_run.induct)
  case (more evs q ev r)
  then have "length (mWorks q) = 1" using pool_run_workers by metis
  from one_worker_step [OF more(2) this]
  have "completed (evs @ [ev]) @ running r @ mTasks r
      = (completed evs @ running q @ mTasks q) @ submitted1 ev" by simp
  with more show ?case by simp
qed simp

text \<open>
  What a client of a one-thread pool relies on: tasks take effect in the order in which they
  were accepted, whatever the schedule.
\<close>

locale serial_executor =
  fixes valid :: "'ev list \<Rightarrow> bool"
    and accepted :: "'ev list \<Rightarrow> 'a list"
    and executed :: "'ev list \<Rightarrow> 'a list"
  assumes in_order: "valid evs \<Longrightarrow> prefix (executed evs) (accepted evs)"
begin

lemma per_key: "valid evs \<Longrightarrow> prefix (filter P (executed evs)) (filter P (accepted evs))"
  using in_order [of evs] by (auto simp: prefix_def)

lemma nothing_invented: "valid evs \<Longrightarrow> set (executed evs) \<subseteq> set (accepted evs)"
  using in_order set_mono_prefix by blast

end

definition one_thread_run :: "'a pool_event list \<Rightarrow> bool" where
  "one_thread_run evs \<longleftrightarrow> (\<exists>q. pool_run (ThreadPool 1) evs q)"

interpretation pool1: serial_executor one_thread_run submitted completed
proof unfold_locales
  fix evs :: "'a pool_event list"
  assume "one_thread_run evs"
  then obtain q where "pool_run (ThreadPool 1) evs q" by (auto simp: one_thread_run_def)
  then have "completed evs @ running q @ mTasks q = submitted evs"
    using one_worker_run [of "ThreadPool 1" evs q] by simp
  then show "prefix (completed evs) (submitted evs)" by (metis prefixI)
qed

subsection \<open>Stopping\<close>

text \<open>Work left in a stopped pool: a waiting worker has to wake up once, a busy one twice.\<close>

fun worker_fuel :: "'a worker \<Rightarrow> nat" where
  "worker_fuel Waiting = 1" | "worker_fuel (Running t) = 2" | "worker_fuel Exited = 0"

definition pool_fuel :: "'a thread_pool \<Rightarrow> nat" where
  "pool_fuel p = sum_list (map worker_fuel (mWorks p))"

lemma sum_list_update_less:
  "i < length ws \<Longrightarrow> worker_fuel w < worker_fuel (ws ! i) \<Longrightarrow>
    sum_list (map worker_fuel (ws[i := w])) < sum_list (map worker_fuel ws)"
proof (induction ws arbitrary: i)
  case (Cons v ws)
  then show ?case by (cases i) auto
qed simp

lemma stopped_stays: "pool_step p ev q \<Longrightarrow> mStop p \<Longrightarrow> mStop q"
  by (induction rule: pool_step.induct) (auto simp: pool_defs split: if_splits list.splits)

lemma stopped_step_fuel:
  "pool_step p ev q \<Longrightarrow> mStop p \<Longrightarrow> ev = Stopped \<or> pool_fuel q < pool_fuel p"
  by (induction rule: pool_step.induct)
     (auto simp: pool_defs pool_fuel_def intro!: sum_list_update_less)

lemma stopped_not_stuck:
  assumes "mStop p" and "\<not> dtor_joined p"
  shows "\<exists>ev q. ev \<noteq> Stopped \<and> pool_step p ev q"
proof -
  from assms(2) obtain i where i: "i < length (mWorks p)" "mWorks p ! i \<noteq> Exited"
    by (auto simp: dtor_joined_def in_set_conv_nth)
  then show ?thesis
  proof (cases "mWorks p ! i")
    case Waiting
    with i assms(1) have "pool_step p (Quit i) (worker_wake i p)"
      by (intro pool_step.quit) (auto simp: wait_pred_def)
    then show ?thesis by blast
  next
    case (Running t)
    with i have "pool_step p (Done i t) (worker_done i p)" by (intro pool_step.finish)
    then show ?thesis by blast
  qed simp
qed

lemma pool_run_append: "pool_run q evs' r \<Longrightarrow> pool_run p evs q \<Longrightarrow> pool_run p (evs @ evs') r"
proof (induction rule: pool_run.induct)
  case (more evs' r ev s)
  then have "pool_run p ((evs @ evs') @ [ev]) s" by (blast intro: pool_run.more)
  then show ?case by simp
qed simp

lemma stopped_run:
  "pool_run p evs q \<Longrightarrow> mStop p \<Longrightarrow> Stopped \<notin> set evs \<Longrightarrow> mStop q \<and> length evs + pool_fuel q \<le> pool_fuel p"
proof (induction rule: pool_run.induct)
  case (more evs q ev r)
  then show ?case using stopped_stays [OF more(2)] stopped_step_fuel [OF more(2)] by auto
qed simp

lemma stopped_joins: "mStop p \<Longrightarrow> \<exists>evs q. pool_run p evs q \<and> Stopped \<notin> set evs \<and> dtor_joined q"
proof (induction "pool_fuel p" arbitrary: p rule: less_induct)
  case less
  show ?case
  proof (cases "dtor_joined p")
    case True
    then show ?thesis by (intro exI [of _ "[]"] exI [of _ p]) (simp add: pool_run.none)
  next
    case False
    then obtain ev q where ev: "ev \<noteq> Stopped" and st: "pool_step p ev q"
      using stopped_not_stuck [OF less.prems] by blast
    from less.hyps [of q] st ev less.prems obtain evs r
      where r: "pool_run q evs r" "Stopped \<notin> set evs" "dtor_joined r"
      using stopped_stays stopped_step_fuel by metis
    from pool_run.more [OF pool_run.none st] have "pool_run p [ev] q" by simp
    from pool_run_append [OF r(1) this] r ev show ?thesis
      by (intro exI [of _ "[ev] @ evs"] exI [of _ r]) auto
  qed
qed

subsection \<open>Draining\<close>

definition pool_work :: "'a thread_pool \<Rightarrow> nat" where
  "pool_work p = 2 * length (mTasks p) + length (running p)"

definition alive :: "'a thread_pool \<Rightarrow> bool" where
  "alive p \<longleftrightarrow> \<not> mStop p \<and> Exited \<notin> set (mWorks p)"

fun own_step :: "'a pool_event \<Rightarrow> bool" where
  "own_step (Started i t) = True" | "own_step (Done i t) = True" | "own_step _ = False"

lemma alive_ThreadPool [simp]: "alive (ThreadPool n)"
  by (simp add: alive_def ThreadPool_def)

lemma alive_step: "pool_step p ev q \<Longrightarrow> alive p \<Longrightarrow> ev \<noteq> Stopped \<Longrightarrow> alive q"
  by (induction rule: pool_step.induct)
     (auto simp: pool_defs alive_def split: list.splits dest: set_update_subset_insert [THEN subsetD])

lemma alive_run: "pool_run p evs q \<Longrightarrow> alive p \<Longrightarrow> Stopped \<notin> set evs \<Longrightarrow> alive q"
  by (induction rule: pool_run.induct) (auto intro: alive_step)

lemma alive_step_own:
  "pool_step p ev q \<Longrightarrow> alive p \<Longrightarrow> ev \<noteq> Stopped \<Longrightarrow> submitted1 ev = [] \<Longrightarrow> own_step ev"
  by (induction rule: pool_step.induct) (auto simp: alive_def)

lemma own_step_work:
  assumes "pool_step p ev q" and "own_step ev"
  shows "Suc (pool_work q) = pool_work p"
proof -
  have "length (running q) + length (done1 ev) = length (running p) + length (started1 ev)"
    using arg_cong [OF pool_step_running [OF assms(1)], of size] by simp
  moreover have "length (started1 ev) + length (mTasks q) = length (mTasks p) + length (submitted1 ev)"
    using arg_cong [OF pool_step_queue [OF assms(1)], of length] by simp
  ultimately show ?thesis using assms(2) by (cases ev) (auto simp: pool_work_def)
qed

lemma alive_not_stuck:
  assumes "alive p" and "mWorks p \<noteq> []" and "pool_work p \<noteq> 0"
  shows "\<exists>ev q. own_step ev \<and> pool_step p ev q"
proof (cases "running p = []")
  case True
  from assms(2) obtain w ws where ws: "mWorks p = w # ws" by (cases "mWorks p") auto
  with True assms(1) have "running1 w = []" "w \<noteq> Exited" by (auto simp: alive_def)
  then have w: "mWorks p ! 0 = Waiting" using ws by (cases w) auto
  from True assms(3) have "mTasks p \<noteq> []" by (simp add: pool_work_def)
  with w assms have "pool_step p (Started 0 (hd (mTasks p))) (worker_wake 0 p)"
    by (intro pool_step.start) (auto simp: wait_pred_def alive_def)
  then show ?thesis by (intro exI) (rule conjI, simp_all)
next
  case False
  then obtain w where w: "w \<in> set (mWorks p)" and "running1 w \<noteq> []" by auto
  from this(2) obtain t where "w = Running t" by (cases w) auto
  with w obtain i where "i < length (mWorks p)" "mWorks p ! i = Running t"
    by (auto simp: in_set_conv_nth)
  then have "pool_step p (Done i t) (worker_done i p)" by (rule pool_step.finish)
  then show ?thesis by (intro exI) (rule conjI, simp_all)
qed

lemma drain_run:
  "alive p \<Longrightarrow> mWorks p \<noteq> [] \<Longrightarrow>
     \<exists>evs q. pool_run p evs q \<and> (\<forall>ev \<in> set evs. own_step ev) \<and> pool_work q = 0"
proof (induction "pool_work p" arbitrary: p rule: less_induct)
  case less
  show ?case
  proof (cases "pool_work p = 0")
    case True
    then show ?thesis by (intro exI [of _ "[]"] exI [of _ p]) (simp add: pool_run.none)
  next
    case False
    then obtain ev q where ev: "own_step ev" and st: "pool_step p ev q"
      using alive_not_stuck less.prems by blast
    from own_step_work [OF st ev] have "pool_work q < pool_work p" by simp
    moreover from ev alive_step [OF st] less.prems have "alive q" by (cases ev) auto
    moreover from pool_step_workers [OF st] less.prems have "mWorks q \<noteq> []" by auto
    ultimately obtain evs r
      where r: "pool_run q evs r" "\<forall>ev \<in> set evs. own_step ev" "pool_work r = 0"
      using less.hyps by blast
    from pool_run.more [OF pool_run.none st] have "pool_run p [ev] q" by simp
    from pool_run_append [OF r(1) this] r ev show ?thesis
      by (intro exI [of _ "[ev] @ evs"] exI [of _ r]) auto
  qed
qed

lemma own_steps_bound:
  "pool_run p evs q \<Longrightarrow> alive p \<Longrightarrow> Stopped \<notin> set evs \<Longrightarrow> submitted evs = [] \<Longrightarrow>
     length evs + pool_work q = pool_work p"
proof (induction rule: pool_run.induct)
  case (more evs q ev r)
  then have "alive q" using alive_run by auto
  with more have "own_step ev" using alive_step_own [OF more(2)] by auto
  from own_step_work [OF more(2) this] more show ?case by auto
qed simp

subsection \<open>Properties\<close>

text \<open>C18: no task is lost, invented or run twice, and tasks are started in the order in which
  they were submitted: after any interleaving of a pool of any size, the submitted tasks are
  those started, in order, followed by those still queued, and a started task is either
  completed or on exactly one worker.\<close>

theorem pool_exactly_once:
  assumes "pool_run (ThreadPool n) evs p"
  shows "submitted evs = started evs @ mTasks p \<and>
         mset (started evs) = mset (completed evs) + mset (running p)"
  using pool_run_queue [OF assms] pool_run_running [OF assms] by (simp add: add.commute)

theorem pool_exactly_once_witness:
  "\<exists>p. pool_run (ThreadPool 2) [Submitted (7::nat), Submitted 8, Started 1 7] p \<and>
     mTasks p = [8] \<and> mset (running p) = {#7#}"
proof -
  let ?p1 = "\<lparr>mWorks = [Waiting, Waiting], mTasks = [7::nat], mStop = False\<rparr>"
  let ?p2 = "\<lparr>mWorks = [Waiting, Waiting], mTasks = [7::nat, 8], mStop = False\<rparr>"
  let ?p3 = "\<lparr>mWorks = [Waiting, Running 7], mTasks = [8::nat], mStop = False\<rparr>"
  have a: "pool_run (ThreadPool 2) [] (ThreadPool 2)" by (rule pool_run.none)
  have "pool_step (ThreadPool 2) (Submitted 7) ?p1"
    by (intro pool_step.submit) (simp add: submit_def ThreadPool_def numeral_2_eq_2)
  from pool_run.more [OF a this] have b: "pool_run (ThreadPool 2) [Submitted 7] ?p1" by simp
  have "pool_step ?p1 (Submitted 8) ?p2" by (intro pool_step.submit) (simp add: submit_def)
  from pool_run.more [OF b this] have c: "pool_run (ThreadPool 2) [Submitted 7, Submitted 8] ?p2"
    by simp
  have "pool_step ?p2 (Started 1 7) ?p3"
    using pool_step.start [of 1 ?p2] by (simp add: wait_pred_def worker_wake_def)
  from pool_run.more [OF c this]
  have d: "pool_run (ThreadPool 2) [Submitted 7, Submitted 8, Started 1 7] ?p3" by simp
  from pool_exactly_once [OF d] d show ?thesis by (intro exI [of _ ?p3]) simp
qed

text \<open>A pool of one thread completes tasks in the order in which they were submitted,
  whatever the schedule. The network server's per-peer workers rely on this.\<close>

theorem pool_one_thread_fifo:
  assumes "pool_run (ThreadPool 1) evs p"
  shows "prefix (completed evs) (submitted evs)"
  using assms by (intro pool1.in_order) (auto simp: one_thread_run_def)

theorem pool_one_thread_fifo_witness:
  "prefix (completed [Submitted (7::nat), Submitted 8, Started 0 7, Done 0 7])
     (submitted [Submitted 7, Submitted 8, Started 0 7, Done 0 7])"
proof -
  let ?p1 = "\<lparr>mWorks = [Waiting], mTasks = [7::nat], mStop = False\<rparr>"
  let ?p2 = "\<lparr>mWorks = [Waiting], mTasks = [7::nat, 8], mStop = False\<rparr>"
  let ?p3 = "\<lparr>mWorks = [Running 7], mTasks = [8::nat], mStop = False\<rparr>"
  let ?p4 = "\<lparr>mWorks = [Waiting], mTasks = [8::nat], mStop = False\<rparr>"
  have a: "pool_run (ThreadPool 1) [] (ThreadPool 1)" by (rule pool_run.none)
  have "pool_step (ThreadPool 1) (Submitted 7) ?p1"
    by (intro pool_step.submit) (simp add: submit_def ThreadPool_def)
  from pool_run.more [OF a this] have b: "pool_run (ThreadPool 1) [Submitted 7] ?p1" by simp
  have "pool_step ?p1 (Submitted 8) ?p2" by (intro pool_step.submit) (simp add: submit_def)
  from pool_run.more [OF b this] have c: "pool_run (ThreadPool 1) [Submitted 7, Submitted 8] ?p2"
    by simp
  have "pool_step ?p2 (Started 0 7) ?p3"
    using pool_step.start [of 0 ?p2] by (simp add: wait_pred_def worker_wake_def)
  from pool_run.more [OF c this]
  have d: "pool_run (ThreadPool 1) [Submitted 7, Submitted 8, Started 0 7] ?p3" by simp
  have "pool_step ?p3 (Done 0 7) ?p4"
    using pool_step.finish [of 0 ?p3 7] by (simp add: worker_done_def)
  from pool_run.more [OF d this]
  have "pool_run (ThreadPool 1) [Submitted 7, Submitted 8, Started 0 7, Done 0 7] ?p4" by simp
  from pool_one_thread_fifo [OF this] show ?thesis .
qed

text \<open>A pool with a worker that is not being destroyed works its queue off. From every
  state it can reach, the workers alone can complete every accepted task; every such schedule
  is at most twice the queue plus the running tasks long, so no schedule avoids it forever.\<close>

theorem pool_drains:
  assumes "pool_run (ThreadPool n) evs p" and "0 < n" and "Stopped \<notin> set evs"
  shows "(\<exists>evs' q. pool_run p evs' q \<and> (\<forall>ev \<in> set evs'. own_step ev) \<and>
            mset (completed (evs @ evs')) = mset (submitted evs)) \<and>
         (\<forall>evs' q. pool_run p evs' q \<and> Stopped \<notin> set evs' \<and> submitted evs' = [] \<longrightarrow>
            length evs' + pool_work q = pool_work p)"
proof (rule conjI)
  have al: "alive p" using alive_run [OF assms(1)] assms(3) by simp
  moreover have "mWorks p \<noteq> []" using pool_run_workers [OF assms(1)] assms(2) by auto
  ultimately obtain evs' q
    where r: "pool_run p evs' q" "\<forall>ev \<in> set evs'. own_step ev" "pool_work q = 0"
    using drain_run by blast
  from r(2) have s: "submitted evs' = []" by (induction evs') (auto elim: own_step.elims)
  from pool_run_append [OF r(1) assms(1)] have run: "pool_run (ThreadPool n) (evs @ evs') q" .
  from r(3) have "mTasks q = []" "running q = []" by (auto simp: pool_work_def)
  with pool_run_queue [OF run] pool_run_running [OF run] s
  have "mset (completed (evs @ evs')) = mset (submitted evs)" by simp
  with r show "\<exists>evs' q. pool_run p evs' q \<and> (\<forall>ev \<in> set evs'. own_step ev) \<and>
            mset (completed (evs @ evs')) = mset (submitted evs)" by blast
  show "\<forall>evs' q. pool_run p evs' q \<and> Stopped \<notin> set evs' \<and> submitted evs' = [] \<longrightarrow>
            length evs' + pool_work q = pool_work p"
    using own_steps_bound al by blast
qed

theorem pool_drains_witness:
  "\<exists>p. pool_run (ThreadPool 1) [Submitted (7::nat)] p \<and>
     (\<exists>evs' q. pool_run p evs' q \<and> (\<forall>ev \<in> set evs'. own_step ev) \<and>
        mset (completed ([Submitted 7] @ evs')) = {#7#})"
proof -
  let ?p = "\<lparr>mWorks = [Waiting], mTasks = [7::nat], mStop = False\<rparr>"
  have "pool_step (ThreadPool 1) (Submitted 7) ?p"
    by (intro pool_step.submit) (simp add: submit_def ThreadPool_def)
  from pool_run.more [OF pool_run.none this] have run: "pool_run (ThreadPool 1) [Submitted 7] ?p"
    by simp
  from pool_drains [OF run] have
    "\<exists>evs' q. pool_run ?p evs' q \<and> (\<forall>ev \<in> set evs'. own_step ev) \<and>
        mset (completed ([Submitted 7] @ evs')) = mset (submitted [Submitted (7::nat)])" by simp
  with run show ?thesis by (intro exI [of _ ?p]) simp
qed

text \<open>C25: the destructor returns. Once the pool is stopped, no schedule of its workers is
  longer than its fuel (one wake-up per waiting worker, one more for a running task), a worker
  that has not exited can always move, and the workers can reach the state in which every
  \<open>join\<close> returns.\<close>

theorem pool_dtor_terminates:
  assumes "mStop p"
  shows "(\<forall>evs q. pool_run p evs q \<and> Stopped \<notin> set evs \<longrightarrow> length evs + pool_fuel q \<le> pool_fuel p) \<and>
         (\<not> dtor_joined p \<longrightarrow> (\<exists>ev q. ev \<noteq> Stopped \<and> pool_step p ev q)) \<and>
         (\<exists>evs q. pool_run p evs q \<and> Stopped \<notin> set evs \<and> dtor_joined q)"
  using stopped_run stopped_not_stuck stopped_joins assms by blast

theorem pool_dtor_terminates_witness:
  "\<exists>evs q. pool_run (dtor_stop (ThreadPool 2 :: nat thread_pool)) evs q \<and> Stopped \<notin> set evs \<and>
     dtor_joined q"
  using pool_dtor_terminates [of "dtor_stop (ThreadPool 2 :: nat thread_pool)"]
  by (simp add: dtor_stop_def)

end
