(* ===== verification/Network_Server.thy ===== *)
theory Network_Server
  imports Metrics_Manager Thread_Pool
begin

unbundle bit_operations_syntax

text \<open>
  \<open>core/src/network_server.cpp\<close>: the UDP receiver. Its state is the two receive buffers used
  in turn (an explicit store from positions to bytes), the cursor into them, the table of
  registered peers and the one-thread pools that process packets when there are any. The
  kernel is the list of datagrams waiting on the socket; \<open>recvfrom\<close> on an empty list fails with
  \<open>EAGAIN\<close>. The outputs of the receiver are the counter increments and the calls of the
  registered functions, which are values of an arbitrary type. Members the constructor leaves
  uninitialised (\<open>mBufferSize\<close>) are \<open>None\<close>.
\<close>

subsection \<open>Peers\<close>

record sockaddr_in =
  sin_addr :: "byte \<times> byte \<times> byte \<times> byte"
  sin_port :: "16 word"

text \<open>The byte swap of a little-endian host; the port is stored in network order.\<close>

definition htons :: "16 word \<Rightarrow> 16 word" where
  "htons w = push_bit 8 w OR drop_bit 8 w"

definition inet_ntoa :: "byte \<times> byte \<times> byte \<times> byte \<Rightarrow> string" where
  "inet_ntoa a = (case a of (b1, b2, b3, b4) \<Rightarrow>
     fmt_nat (unat b1) @ CHR ''.'' # fmt_nat (unat b2) @ CHR ''.'' # fmt_nat (unat b3) @
     CHR ''.'' # fmt_nat (unat b4))"

definition peer_name :: "sockaddr_in \<Rightarrow> string" where
  "peer_name addr = inet_ntoa (sin_addr addr) @ CHR '':'' # fmt_nat (unat (htons (sin_port addr)))"

record 'f peer =
  name :: string
  processFunc :: 'f
  pCounter :: metric

definition Peer :: "mm_state \<Rightarrow> string \<Rightarrow> 'f \<Rightarrow> 'f peer res" where
  "Peer mm nm f =
     (let labels0 = omap_set string_less ''module'' ''network server'' [];
          labels1 = omap_set string_less ''info'' ''received bytes'' labels0
      in res_bind (MMAddCounter mm nm labels1) (\<lambda>(c, _).
           Inr \<lparr>name = nm, processFunc = f, pCounter = c\<rparr>))"

subsection \<open>The server\<close>

record ns_config =
  port :: int
  event_loop_num :: int
  async_worker_num :: int

text \<open>A packet on its way to a worker thread: where its bytes are, how many, and from whom.\<close>

record udp_task =
  data :: "nat \<times> int"
  len :: nat
  from_peer :: string

record 'f network_server =
  mpUdpWorkers :: nat
  mpUdpWorkerThreads :: "udp_task thread_pool list"
  mpReceiveBuffers :: "(nat \<times> int) \<Rightarrow> byte"
  nReceiveBuffers :: nat
  mBufferSize :: "int option"
  mReceiveBufferIndex :: nat
  mCurPosition :: int
  mRegisteredPeers :: "(string, 'f peer) omap"

definition NetworkServer :: "'f network_server" where
  "NetworkServer = \<lparr>mpUdpWorkers = 0, mpUdpWorkerThreads = [], mpReceiveBuffers = (\<lambda>_. 0),
     nReceiveBuffers = 0, mBufferSize = None, mReceiveBufferIndex = 0, mCurPosition = 0,
     mRegisteredPeers = []\<rparr>"

text \<open>
  \<open>UdpEventLoop::Init\<close>: what the system calls return; every failure is \<open>LOG(FATAL)\<close>.
\<close>

record udp_syscalls =
  setsockopt_rcvbuf :: int
  setsockopt_reuseport :: int
  bind_ret :: int
  evthread_use_pthreads :: int
  event_base_new_ok :: bool

definition UdpEventLoop_Init :: "udp_syscalls \<Rightarrow> unit res" where
  "UdpEventLoop_Init sys =
     (if setsockopt_rcvbuf sys < 0 then Inl Fatal
      else if setsockopt_reuseport sys < 0 then Inl Fatal
      else if bind_ret sys \<noteq> 0 then Inl Fatal
      else if evthread_use_pthreads sys \<noteq> 0 then Inl Fatal
      else if \<not> event_base_new_ok sys then Inl Fatal
      else Inr ())"

definition startUdpEventLoop :: "udp_syscalls \<Rightarrow> 'f network_server \<Rightarrow> 'f network_server res" where
  "startUdpEventLoop sys s =
     res_bind (UdpEventLoop_Init sys) (\<lambda>_. Inr (s\<lparr>mpUdpWorkers := mpUdpWorkers s + 1\<rparr>))"

fun start_loops :: "(nat \<Rightarrow> udp_syscalls) \<Rightarrow> nat \<Rightarrow> 'f network_server \<Rightarrow> 'f network_server res" where
  "start_loops sys 0 s = Inr s"
| "start_loops sys (Suc n) s =
     res_bind (startUdpEventLoop (sys n) s) (start_loops sys n)"

definition initUdpServer ::
  "(nat \<Rightarrow> udp_syscalls) \<Rightarrow> nat \<Rightarrow> ns_config \<Rightarrow> 'f network_server \<Rightarrow> 'f network_server res" where
  "initUdpServer sys hardware_concurrency config s =
     (let eventNum = (if event_loop_num config = -1 then int hardware_concurrency
                      else event_loop_num config);
          workerNum = (if async_worker_num config = -1 then int hardware_concurrency
                       else async_worker_num config)
      in res_bind (start_loops sys (nat eventNum) s) (\<lambda>s.
         case int32 (eventNum * 20 * 1024 * 1024) of
           None \<Rightarrow> Inl Undefined_behaviour
         | Some sz \<Rightarrow>
             if sz < 0 then Inl (Runtime_error ''std::bad_array_new_length'')
             else Inr (s\<lparr>mBufferSize := Some sz, nReceiveBuffers := nReceiveBuffers s + 2,
                         mpUdpWorkerThreads :=
                           mpUdpWorkerThreads s @ replicate (nat workerNum) (ThreadPool 1)\<rparr>)))"

definition registerPeer :: "mm_state \<Rightarrow> string \<Rightarrow> 'f \<Rightarrow> 'f network_server \<Rightarrow> 'f network_server res" where
  "registerPeer mm p f s =
     (if omap_find string_less p (mRegisteredPeers s) = None
      then res_bind (Peer mm p f) (\<lambda>peer.
             Inr (s\<lparr>mRegisteredPeers := omap_set string_less p peer (mRegisteredPeers s)\<rparr>))
      else Inr s)"

definition unRegisterPeer :: "string \<Rightarrow> 'f network_server \<Rightarrow> 'f network_server" where
  "unRegisterPeer p s = s\<lparr>mRegisteredPeers := omap_erase string_less p (mRegisteredPeers s)\<rparr>"

subsection \<open>Receiving\<close>

record datagram =
  sender :: sockaddr_in
  payload :: bytes

datatype 'f ns_out = Increment metric nat | Process 'f bytes

text \<open>The guard of the callback: \<open>!which & EV_READ\<close>, that is \<open>(!which) & EV_READ\<close>.\<close>

definition unknown_event :: "int \<Rightarrow> int \<Rightarrow> bool" where
  "unknown_event ev_read which \<longleftrightarrow> (if which = 0 then 1 else 0) AND ev_read \<noteq> 0"

text \<open>The next 1600 bytes of the receive buffers, under \<open>mBufferMutex\<close>.\<close>

definition take_slot :: "'f network_server \<Rightarrow> ((nat \<times> int) \<times> 'f network_server) res" where
  "take_slot s =
     (case mBufferSize s of
        None \<Rightarrow> Inl Undefined_behaviour
      | Some sz \<Rightarrow>
          let s' = (if mCurPosition s + 1600 \<ge> sz
                    then s\<lparr>mReceiveBufferIndex := mReceiveBufferIndex s XOR 1, mCurPosition := 0\<rparr>
                    else s)
          in if mReceiveBufferIndex s' < nReceiveBuffers s'
             then Inr ((mReceiveBufferIndex s', mCurPosition s'),
                       s'\<lparr>mCurPosition := mCurPosition s' + 1600\<rparr>)
             else Inl Undefined_behaviour)"

text \<open>\<open>recvfrom(sock, data, 1600, \<dots>)\<close> stores at most 1600 bytes of the datagram.\<close>

definition mem_write :: "nat \<times> int \<Rightarrow> bytes \<Rightarrow> (nat \<times> int \<Rightarrow> byte) \<Rightarrow> (nat \<times> int \<Rightarrow> byte)" where
  "mem_write p bs mem =
     (\<lambda>(b, k). if b = fst p \<and> snd p \<le> k \<and> k < snd p + int (length bs)
               then bs ! nat (k - snd p) else mem (b, k))"

definition mem_read :: "nat \<times> int \<Rightarrow> nat \<Rightarrow> (nat \<times> int \<Rightarrow> byte) \<Rightarrow> bytes" where
  "mem_read p n mem = map (\<lambda>i. mem (fst p, snd p + int i)) [0..<n]"

definition recvfrom :: "nat \<times> int \<Rightarrow> datagram \<Rightarrow> 'f network_server \<Rightarrow> nat \<times> 'f network_server" where
  "recvfrom p d s =
     (let bs = take 1600 (payload d)
      in (length bs, s\<lparr>mpReceiveBuffers := mem_write p bs (mpReceiveBuffers s)\<rparr>))"

text \<open>One packet: a slot, the datagram stored there, and the description of it.\<close>

definition recv_packet :: "datagram \<Rightarrow> 'f network_server \<Rightarrow> (udp_task \<times> 'f network_server) res" where
  "recv_packet d s =
     res_bind (take_slot s) (\<lambda>(ptr, s).
       let (n, s) = recvfrom ptr d s
       in Inr (\<lparr>data = ptr, len = n, from_peer = peer_name (sender d)\<rparr>, s))"

text \<open>What both the synchronous path and a worker do with a packet; \<open>None\<close>: not registered.\<close>

definition process_packet :: "udp_task \<Rightarrow> 'f network_server \<Rightarrow> 'f ns_out list option" where
  "process_packet t s =
     (case omap_find string_less (from_peer t) (mRegisteredPeers s) of
        None \<Rightarrow> None
      | Some p \<Rightarrow> Some [Increment (pCounter p) (len t),
                        Process (processFunc p) (mem_read (data t) (len t) (mpReceiveBuffers s))])"

text \<open>The worker a peer's packets go to, over the library's hash of strings.\<close>

definition worker_index :: "(string \<Rightarrow> nat) \<Rightarrow> string \<Rightarrow> 'f network_server \<Rightarrow> nat" where
  "worker_index hash p s = hash p mod length (mpUdpWorkerThreads s)"

definition submit_to :: "nat \<Rightarrow> udp_task \<Rightarrow> 'f network_server \<Rightarrow> 'f network_server res" where
  "submit_to k t s =
     res_bind (submit t (mpUdpWorkerThreads s ! k)) (\<lambda>q.
       Inr (s\<lparr>mpUdpWorkerThreads := (mpUdpWorkerThreads s)[k := q]\<rparr>))"

text \<open>
  The callback's loop, on the datagrams waiting in the kernel: the new state, the datagrams
  left in the kernel and the outputs.
\<close>

fun udp_loop :: "(string \<Rightarrow> nat) \<Rightarrow> datagram list \<Rightarrow> 'f network_server \<Rightarrow>
    ('f network_server \<times> datagram list \<times> 'f ns_out list) res" where
  "udp_loop hash [] s = res_bind (take_slot s) (\<lambda>(_, s). Inr (s, [], []))"
| "udp_loop hash (d # ds) s =
     res_bind (recv_packet d s) (\<lambda>(t, s).
       if mpUdpWorkerThreads s = [] then
         (case process_packet t s of
            None \<Rightarrow> Inr (s, ds, [])
          | Some outs \<Rightarrow>
              res_bind (udp_loop hash ds s) (\<lambda>(s, rest, outs'). Inr (s, rest, outs @ outs')))
       else
         res_bind (submit_to (worker_index hash (from_peer t) s) t s) (udp_loop hash ds))"

definition on_udp_event :: "(string \<Rightarrow> nat) \<Rightarrow> int \<Rightarrow> int \<Rightarrow> datagram list \<Rightarrow> 'f network_server \<Rightarrow>
    ('f network_server \<times> datagram list \<times> 'f ns_out list) res" where
  "on_udp_event hash ev_read which queue s =
     (if unknown_event ev_read which then Inr (s, queue, []) else udp_loop hash queue s)"

subsection \<open>Peer names\<close>

lemma htons_htons [simp]: "htons (htons w) = w"
  unfolding htons_def by (rule bit_word_eqI) (auto simp: bit_simps)

lemma htons_inject [simp]: "htons v = htons w \<longleftrightarrow> v = w"
  by (metis htons_htons)

lemma fmt_nat_no_sep [simp]: "CHR ''.'' \<notin> set (fmt_nat n)" "CHR '':'' \<notin> set (fmt_nat n)"
  using fmt_nat_digits [of "CHR ''.''" n] fmt_nat_digits [of "CHR '':''" n] by auto

lemma fmt_nat_dot: "fmt_nat a @ CHR ''.'' # x = fmt_nat b @ CHR ''.'' # y \<longleftrightarrow> a = b \<and> x = y"
  using append_sep_inject [of "CHR ''.''" "fmt_nat a" "fmt_nat b" x y] by auto

lemma inet_ntoa_inject [simp]: "inet_ntoa a = inet_ntoa b \<longleftrightarrow> a = b"
  by (cases a; cases b) (simp add: inet_ntoa_def fmt_nat_dot)

lemma inet_ntoa_no_colon [simp]: "CHR '':'' \<notin> set (inet_ntoa a)"
  by (cases a) (simp add: inet_ntoa_def)

lemma peer_name_inject_aux: "peer_name a = peer_name b \<longleftrightarrow> sin_addr a = sin_addr b \<and> sin_port a = sin_port b"
  using append_sep_inject [of "CHR '':''" "inet_ntoa (sin_addr a)" "inet_ntoa (sin_addr b)"
      "fmt_nat (unat (htons (sin_port a)))" "fmt_nat (unat (htons (sin_port b)))"]
  by (auto simp: peer_name_def)

subsection \<open>The receive buffers\<close>

text \<open>
  A buffer of \<open>sz\<close> bytes holds \<open>(sz - 1) div 1600\<close> slots. The \<open>n\<close>-th slot taken from a
  fresh server is slot \<open>n mod C\<close> of buffer \<open>(n div C) mod 2\<close>.
\<close>

definition slot_of :: "nat \<Rightarrow> nat \<Rightarrow> nat \<times> int" where
  "slot_of C n = ((n div C) mod 2, 1600 * int (n mod C))"

definition ring_at :: "nat \<Rightarrow> nat \<Rightarrow> 'f network_server \<Rightarrow> bool" where
  "ring_at C n s \<longleftrightarrow>
     0 < C \<and> 2 \<le> nReceiveBuffers s \<and>
     (\<exists>sz. mBufferSize s = Some sz \<and> int C = (sz - 1) div 1600) \<and>
     (mReceiveBufferIndex s, mCurPosition s) =
       (if n = 0 then (0, 0) else (fst (slot_of C (n - 1)), snd (slot_of C (n - 1)) + 1600))"

lemma slot_of_0 [simp]: "slot_of C 0 = (0, 0)"
  by (simp add: slot_of_def)

lemma slot_of_Suc:
  assumes "0 < C"
  shows "slot_of C (Suc n) =
    (if Suc (n mod C) = C then (fst (slot_of C n) XOR 1, 0)
     else (fst (slot_of C n), snd (slot_of C n) + 1600))"
proof (cases "Suc (n mod C) = C")
  case True
  then have d: "Suc n div C = Suc (n div C)" and m: "Suc n mod C = 0"
    by (simp_all add: div_Suc mod_Suc)
  have "Suc k mod 2 = (k mod 2) XOR 1" for k :: nat
    by (cases "even k") (auto simp: even_iff_mod_2_eq_zero odd_iff_mod_2_eq_one mod_Suc)
  with True d m show ?thesis by (simp add: slot_of_def)
next
  case False
  with assms have "Suc n div C = n div C" and "Suc n mod C = Suc (n mod C)"
    by (simp_all add: div_Suc mod_Suc)
  with False show ?thesis by (simp add: slot_of_def)
qed

lemma take_slot_ring:
  assumes "ring_at C n s"
  defines "s' \<equiv> s\<lparr>mReceiveBufferIndex := fst (slot_of C n), mCurPosition := snd (slot_of C n) + 1600\<rparr>"
  shows "take_slot s = Inr (slot_of C n, s')" and "ring_at C (Suc n) s'"
proof -
  from assms(1) obtain sz where C: "0 < C" "int C = (sz - 1) div 1600"
    and sz: "mBufferSize s = Some sz" and buf: "2 \<le> nReceiveBuffers s"
    by (auto simp: ring_at_def)
  show "ring_at C (Suc n) s'"
    using C sz buf by (auto simp: ring_at_def s'_def)
  have bound: "fst (slot_of C n) < nReceiveBuffers s" using buf by (simp add: slot_of_def)
  show "take_slot s = Inr (slot_of C n, s')"
  proof (cases n)
    case 0
    with assms(1) C have "mReceiveBufferIndex s = 0" "mCurPosition s = 0" "1600 < sz"
      by (auto simp: ring_at_def)
    with 0 sz buf show ?thesis by (simp add: take_slot_def s'_def)
  next
    case (Suc m)
    with assms(1) have st: "mReceiveBufferIndex s = fst (slot_of C m)"
      "mCurPosition s = snd (slot_of C m) + 1600"
      by (auto simp: ring_at_def)
    have "Suc (m mod C) = C \<longleftrightarrow> C \<le> Suc (m mod C)"
      using C(1) mod_less_divisor [of C m] by linarith
    then have "mCurPosition s + 1600 \<ge> sz \<longleftrightarrow> Suc (m mod C) = C"
      using C(2) by (simp add: st slot_of_def) linarith
    with sz buf st bound show ?thesis
      unfolding Suc by (auto simp: take_slot_def s'_def Suc slot_of_Suc [OF C(1)] Let_def split: if_splits)
  qed
qed

text \<open>Two slots taken less than two buffers apart are different, so their bytes are disjoint.\<close>

lemma slot_of_distinct:
  assumes "i < j" and "j < i + 2 * C"
  shows "slot_of C i \<noteq> slot_of C j"
proof
  assume eq: "slot_of C i = slot_of C j"
  have "k mod (C * 2) = C * (k div C mod 2) + k mod C" for k
    by (rule mod_mult2_eq)
  with eq have "i mod (C * 2) = j mod (C * 2)" by (simp add: slot_of_def)
  then have "C * 2 dvd j - i" using assms(1) mod_eq_dvd_iff_nat [of i j "C * 2"] by simp
  with assms show False by (auto dest: dvd_imp_le)
qed

lemma mem_read_write_same: "mem_read p (length bs) (mem_write p bs mem) = bs"
  by (intro nth_equalityI) (auto simp: mem_read_def mem_write_def)

lemma mem_read_write_other:
  assumes "fst p \<noteq> fst q \<or> snd p + int n \<le> snd q \<or> snd q + int (length bs) \<le> snd p"
  shows "mem_read p n (mem_write q bs mem) = mem_read p n mem"
  using assms by (auto simp: mem_read_def mem_write_def)

lemma slots_disjoint:
  assumes "slot_of C i \<noteq> slot_of C j" and "n \<le> 1600" and "m \<le> 1600"
  shows "fst (slot_of C i) \<noteq> fst (slot_of C j) \<or> snd (slot_of C i) + int n \<le> snd (slot_of C j) \<or>
    snd (slot_of C j) + int m \<le> snd (slot_of C i)"
proof (cases "i mod C" "j mod C" rule: linorder_cases)
  case less
  then have "int (i mod C) + 1 \<le> int (j mod C)" by linarith
  with assms(2) show ?thesis by (simp add: slot_of_def)
next
  case equal
  with assms(1) show ?thesis by (simp add: slot_of_def)
next
  case greater
  then have "int (j mod C) + 1 \<le> int (i mod C)" by linarith
  with assms(3) show ?thesis by (simp add: slot_of_def)
qed

definition stored :: "datagram \<Rightarrow> bytes" where
  "stored d = take 1600 (payload d)"

lemma length_stored: "length (stored d) \<le> 1600"
  by (simp add: stored_def)

text \<open>Receiving one packet from a ring: where it is stored and what changes.\<close>

lemma recv_packet_ring:
  assumes "ring_at C n s"
  shows "\<exists>s'. recv_packet d s = Inr (\<lparr>data = slot_of C n, len = length (stored d),
             from_peer = peer_name (sender d)\<rparr>, s') \<and>
           ring_at C (Suc n) s' \<and>
           mpReceiveBuffers s' = mem_write (slot_of C n) (stored d) (mpReceiveBuffers s) \<and>
           mpUdpWorkerThreads s' = mpUdpWorkerThreads s \<and>
           mRegisteredPeers s' = mRegisteredPeers s"
proof -
  have "ring_at C k (s\<lparr>mpReceiveBuffers := m\<rparr>) = ring_at C k s" for k m and s :: "'a network_server"
    by (simp add: ring_at_def)
  then show ?thesis
    using take_slot_ring [OF assms]
    by (simp add: recv_packet_def recvfrom_def Let_def stored_def)
qed

subsection \<open>The synchronous receiver\<close>

definition registered :: "'f network_server \<Rightarrow> datagram \<Rightarrow> bool" where
  "registered s d \<longleftrightarrow> omap_find string_less (peer_name (sender d)) (mRegisteredPeers s) \<noteq> None"

definition delivery :: "'f network_server \<Rightarrow> datagram \<Rightarrow> 'f ns_out list" where
  "delivery s d =
     (case omap_find string_less (peer_name (sender d)) (mRegisteredPeers s) of
        None \<Rightarrow> []
      | Some p \<Rightarrow> [Increment (pCounter p) (length (stored d)), Process (processFunc p) (stored d)])"

lemma process_received:
  assumes "mpReceiveBuffers s' = mem_write q (stored d) mem" and "mRegisteredPeers s' = mRegisteredPeers s"
  shows "process_packet \<lparr>data = q, len = length (stored d), from_peer = peer_name (sender d)\<rparr> s'
       = (if registered s d then Some (delivery s d) else None)"
  using assms
  by (auto simp: process_packet_def registered_def delivery_def mem_read_write_same split: option.splits)

lemma registered_cong: "mRegisteredPeers s' = mRegisteredPeers s \<Longrightarrow> registered s' = registered s"
  "mRegisteredPeers s' = mRegisteredPeers s \<Longrightarrow> delivery s' = delivery s"
  by (auto simp: registered_def delivery_def fun_eq_iff)

lemma udp_loop_sync:
  assumes "ring_at C n s" and "mpUdpWorkerThreads s = []"
  shows "\<exists>s'. udp_loop hash ds s = Inr (s', tl (dropWhile (registered s) ds),
            concat (map (delivery s) (takeWhile (registered s) ds))) \<and>
          (\<exists>m. ring_at C m s') \<and> mRegisteredPeers s' = mRegisteredPeers s \<and> mpUdpWorkerThreads s' = []"
  using assms
proof (induction ds arbitrary: n s)
  case Nil
  then show ?case using take_slot_ring [OF Nil(1)] by auto
next
  case (Cons d ds)
  from recv_packet_ring [OF Cons.prems(1), of d] obtain s1 where
    rp: "recv_packet d s = Inr (\<lparr>data = slot_of C n, len = length (stored d),
             from_peer = peer_name (sender d)\<rparr>, s1)"
    and ring: "ring_at C (Suc n) s1"
    and mem: "mpReceiveBuffers s1 = mem_write (slot_of C n) (stored d) (mpReceiveBuffers s)"
    and pools: "mpUdpWorkerThreads s1 = []" and peers: "mRegisteredPeers s1 = mRegisteredPeers s"
    using Cons.prems(2) by auto
  note pp = process_received [OF mem peers]
  from Cons.IH [OF ring pools] obtain s2 where
    IH: "udp_loop hash ds s1 = Inr (s2, tl (dropWhile (registered s) ds),
            concat (map (delivery s) (takeWhile (registered s) ds)))"
      "\<exists>m. ring_at C m s2" "mRegisteredPeers s2 = mRegisteredPeers s" "mpUdpWorkerThreads s2 = []"
    using registered_cong [OF peers] peers by auto
  show ?case
  proof (cases "registered s d")
    case True
    with IH rp pools pp show ?thesis by auto
  next
    case False
    with rp pools pp ring peers show ?thesis by auto
  qed
qed

subsection \<open>The asynchronous receiver\<close>

text \<open>
  With worker threads, the receiver and the workers interleave: the loop stores a packet and
  submits it, the loop runs dry (which still uses up a slot), a worker takes a task, a worker
  processes the task it took, a peer is registered or unregistered.
\<close>

datatype 'f ns_event =
    Recv datagram udp_task
  | Again
  | Start nat udp_task
  | Exec nat udp_task "'f ns_out list"
  | Reg string 'f
  | Unreg string

inductive ns_step :: "(string \<Rightarrow> nat) \<Rightarrow> mm_state \<Rightarrow> 'f network_server \<Rightarrow> 'f ns_event \<Rightarrow>
    'f network_server \<Rightarrow> bool" for hash mm where
  recv: "mpUdpWorkerThreads s \<noteq> [] \<Longrightarrow> recv_packet d s = Inr (t, s1) \<Longrightarrow>
    submit_to (worker_index hash (from_peer t) s1) t s1 = Inr s2 \<Longrightarrow> ns_step hash mm s (Recv d t) s2"
| again: "take_slot s = Inr (q, s1) \<Longrightarrow> ns_step hash mm s Again s1"
| start: "k < length (mpUdpWorkerThreads s) \<Longrightarrow>
    pool_step (mpUdpWorkerThreads s ! k) (Started i t) q \<Longrightarrow>
    ns_step hash mm s (Start k t) (s\<lparr>mpUdpWorkerThreads := (mpUdpWorkerThreads s)[k := q]\<rparr>)"
| exec: "k < length (mpUdpWorkerThreads s) \<Longrightarrow>
    pool_step (mpUdpWorkerThreads s ! k) (Done i t) q \<Longrightarrow>
    outs = (case process_packet t s of None \<Rightarrow> [] | Some outs \<Rightarrow> outs) \<Longrightarrow>
    ns_step hash mm s (Exec k t outs) (s\<lparr>mpUdpWorkerThreads := (mpUdpWorkerThreads s)[k := q]\<rparr>)"
| reg: "registerPeer mm p f s = Inr s1 \<Longrightarrow> ns_step hash mm s (Reg p f) s1"
| unreg: "ns_step hash mm s (Unreg p) (unRegisterPeer p s)"

inductive ns_run :: "(string \<Rightarrow> nat) \<Rightarrow> mm_state \<Rightarrow> 'f network_server \<Rightarrow> 'f ns_event list \<Rightarrow>
    'f network_server \<Rightarrow> bool" for hash mm s where
  none: "ns_run hash mm s [] s"
| more: "ns_run hash mm s evs s1 \<Longrightarrow> ns_step hash mm s1 ev s2 \<Longrightarrow> ns_run hash mm s (evs @ [ev]) s2"

fun accepted1 :: "'f ns_event \<Rightarrow> udp_task list" where
  "accepted1 (Recv d t) = [t]" | "accepted1 _ = []"

fun executed1 :: "'f ns_event \<Rightarrow> udp_task list" where
  "executed1 (Exec k t outs) = [t]" | "executed1 _ = []"

abbreviation accepted :: "'f ns_event list \<Rightarrow> udp_task list" where
  "accepted evs \<equiv> concat (map accepted1 evs)"

abbreviation executed :: "'f ns_event list \<Rightarrow> udp_task list" where
  "executed evs \<equiv> concat (map executed1 evs)"

text \<open>The slots used up so far, each with the packet stored in it.\<close>

fun slot1 :: "'f ns_event \<Rightarrow> (datagram \<times> udp_task) option list" where
  "slot1 (Recv d t) = [Some (d, t)]" | "slot1 Again = [None]" | "slot1 _ = []"

abbreviation slot_log :: "'f ns_event list \<Rightarrow> (datagram \<times> udp_task) option list" where
  "slot_log evs \<equiv> concat (map slot1 evs)"

text \<open>What the pools of the server have done, seen as runs of one-thread pools.\<close>

definition pools_inv :: "(string \<Rightarrow> nat) \<Rightarrow> nat \<Rightarrow> 'f ns_event list \<Rightarrow> 'f network_server \<Rightarrow> bool" where
  "pools_inv hash w evs s \<longleftrightarrow>
     length (mpUdpWorkerThreads s) = w \<and>
     (\<forall>k < w. \<exists>pe. pool_run (ThreadPool 1) pe (mpUdpWorkerThreads s ! k) \<and>
        submitted pe = filter (\<lambda>t. hash (from_peer t) mod w = k) (accepted evs) \<and>
        completed pe = filter (\<lambda>t. hash (from_peer t) mod w = k) (executed evs))"

lemma pools_inv_cong:
  "mpUdpWorkerThreads s' = mpUdpWorkerThreads s \<Longrightarrow> accepted evs' = accepted evs \<Longrightarrow>
   executed evs' = executed evs \<Longrightarrow> pools_inv hash w evs' s' = pools_inv hash w evs s"
  by (simp add: pools_inv_def)

text \<open>One pool makes a step; the other pools and their histories are as before.\<close>

lemma pools_inv_update:
  assumes inv: "pools_inv hash w evs s" and k: "k < w"
    and st: "pool_step (mpUdpWorkerThreads s ! k) pev q"
    and pools: "mpUdpWorkerThreads s' = (mpUdpWorkerThreads s)[k := q]"
    and acc: "accepted evs' = accepted evs @ submitted1 pev"
    and exe: "executed evs' = executed evs @ done1 pev"
    and own: "\<forall>t \<in> set (submitted1 pev @ done1 pev). hash (from_peer t) mod w = k"
  shows "pools_inv hash w evs' s'"
  unfolding pools_inv_def
proof (intro conjI allI impI)
  show "length (mpUdpWorkerThreads s') = w" using inv pools by (simp add: pools_inv_def)
  fix j assume j: "j < w"
  from inv j obtain pe where pe: "pool_run (ThreadPool 1) pe (mpUdpWorkerThreads s ! j)"
      "submitted pe = filter (\<lambda>t. hash (from_peer t) mod w = j) (accepted evs)"
      "completed pe = filter (\<lambda>t. hash (from_peer t) mod w = j) (executed evs)"
    by (auto simp: pools_inv_def)
  show "\<exists>pe. pool_run (ThreadPool 1) pe (mpUdpWorkerThreads s' ! j) \<and>
        submitted pe = filter (\<lambda>t. hash (from_peer t) mod w = j) (accepted evs') \<and>
        completed pe = filter (\<lambda>t. hash (from_peer t) mod w = j) (executed evs')"
  proof (cases "j = k")
    case True
    from own have "filter (\<lambda>t. hash (from_peer t) mod w = k) (submitted1 pev) = submitted1 pev"
      "filter (\<lambda>t. hash (from_peer t) mod w = k) (done1 pev) = done1 pev" by (auto intro: filter_True)
    with pe pool_run.more [OF pe(1) [unfolded True] st] k inv pools acc exe show ?thesis
      unfolding True by (intro exI [of _ "pe @ [pev]"]) (auto simp: pools_inv_def)
  next
    case False
    with own have "filter (\<lambda>t. hash (from_peer t) mod w = j) (submitted1 pev) = []"
      "filter (\<lambda>t. hash (from_peer t) mod w = j) (done1 pev) = []" by (auto simp: filter_empty_conv)
    with pe False pools acc exe show ?thesis by (intro exI [of _ pe]) auto
  qed
qed

lemma take_slot_pools: "take_slot s = Inr (q, s1) \<Longrightarrow> mpUdpWorkerThreads s1 = mpUdpWorkerThreads s"
  by (auto simp: take_slot_def Let_def split: option.splits if_splits)

lemma recv_packet_pools: "recv_packet d s = Inr (t, s1) \<Longrightarrow> mpUdpWorkerThreads s1 = mpUdpWorkerThreads s"
  by (auto simp: recv_packet_def recvfrom_def Let_def res_bind_Inr_iff dest: take_slot_pools)

lemma registerPeer_pools: "registerPeer mm p f s = Inr s1 \<Longrightarrow> mpUdpWorkerThreads s1 = mpUdpWorkerThreads s"
  by (auto simp: registerPeer_def res_bind_Inr_iff split: if_splits)

lemma running_submitted: "pool_run (ThreadPool n) pe p \<Longrightarrow> i < length (mWorks p) \<Longrightarrow>
    mWorks p ! i = Running t \<Longrightarrow> t \<in> set (submitted pe)"
proof -
  assume run: "pool_run (ThreadPool n) pe p" and i: "i < length (mWorks p)" "mWorks p ! i = Running t"
  then have "Running t \<in> set (mWorks p)" by (metis nth_mem)
  then have "t \<in> set (running p)" by force
  then have "t \<in># mset (running p)" by simp
  with pool_run_running [OF run] have "t \<in># mset (started pe)"
    by (metis add_0 mset.simps(1) running_ThreadPool union_iff)
  then have "t \<in> set (started pe)" by simp
  with pool_run_queue [OF run] show ?thesis by (metis Un_iff append_Nil mTasks_ThreadPool set_append)
qed

lemma ns_step_pools:
  assumes "ns_step hash mm s ev s'" and inv: "pools_inv hash w evs s"
  shows "pools_inv hash w (evs @ [ev]) s'"
  using assms(1)
proof cases
  case (recv d t s1)
  let ?k = "hash (from_peer t) mod w"
  from recv recv_packet_pools have p1: "mpUdpWorkerThreads s1 = mpUdpWorkerThreads s" by blast
  with inv have len: "length (mpUdpWorkerThreads s1) = w" by (simp add: pools_inv_def)
  with recv p1 have w: "0 < w" by auto
  from recv len obtain q where q: "submit t (mpUdpWorkerThreads s1 ! ?k) = Inr q"
    "s' = s1\<lparr>mpUdpWorkerThreads := (mpUdpWorkerThreads s1)[?k := q]\<rparr>"
    by (auto simp: submit_to_def worker_index_def res_bind_Inr_iff)
  from pool_step.submit [OF q(1)]
  have st: "pool_step (mpUdpWorkerThreads s ! ?k) (Submitted t) q" by (simp add: p1)
  show ?thesis
    by (rule pools_inv_update [OF inv _ st]) (use w q p1 recv in auto)
next
  case (start k i t q)
  from start inv have "k < w" by (simp add: pools_inv_def)
  then show ?thesis
    by (rule pools_inv_update [OF inv _ start(4)]) (use start in auto)
next
  case (exec k i t q outs)
  from exec inv have k: "k < w" by (simp add: pools_inv_def)
  with inv obtain pe where pe: "pool_run (ThreadPool 1) pe (mpUdpWorkerThreads s ! k)"
      "submitted pe = filter (\<lambda>t. hash (from_peer t) mod w = k) (accepted evs)"
    by (auto simp: pools_inv_def)
  from exec(4) have "t \<in> set (submitted pe)"
    by (cases) (use running_submitted [OF pe(1)] in auto)
  with pe(2) have "hash (from_peer t) mod w = k" by auto
  with k show ?thesis
    by (intro pools_inv_update [OF inv _ exec(4)]) (use exec in auto)
next
  case (reg p f)
  with inv registerPeer_pools show ?thesis by (subst pools_inv_cong [of _ s _ evs]) auto
next
  case (again q)
  with inv take_slot_pools [of s q s'] show ?thesis by (subst pools_inv_cong [of _ s _ evs]) auto
next
  case (unreg p)
  with inv show ?thesis by (subst pools_inv_cong [of _ s _ evs]) (auto simp: unRegisterPeer_def)
qed

lemma ns_run_pools:
  assumes "ns_run hash mm s0 evs s" and "mpUdpWorkerThreads s0 = replicate w (ThreadPool 1)"
  shows "pools_inv hash w evs s"
  using assms
proof (induction rule: ns_run.induct)
  case none
  then show ?case by (auto simp: pools_inv_def intro!: exI [of _ "[]"] pool_run.none)
next
  case (more evs s1 ev s2)
  then show ?case using ns_step_pools by blast
qed

text \<open>The packets of the last two buffers are in memory as they were received.\<close>

definition packets_inv :: "nat \<Rightarrow> 'f ns_event list \<Rightarrow> 'f network_server \<Rightarrow> bool" where
  "packets_inv C evs s \<longleftrightarrow>
     ring_at C (length (slot_log evs)) s \<and>
     (\<forall>i d t. i < length (slot_log evs) \<longrightarrow> slot_log evs ! i = Some (d, t) \<longrightarrow>
        t = \<lparr>data = slot_of C i, len = length (stored d), from_peer = peer_name (sender d)\<rparr> \<and>
        (length (slot_log evs) \<le> i + 2 * C \<longrightarrow>
           mem_read (data t) (len t) (mpReceiveBuffers s) = stored d))"

lemma ring_at_cong:
  "mBufferSize s' = mBufferSize s \<Longrightarrow> nReceiveBuffers s' = nReceiveBuffers s \<Longrightarrow>
   mReceiveBufferIndex s' = mReceiveBufferIndex s \<Longrightarrow> mCurPosition s' = mCurPosition s \<Longrightarrow>
   ring_at C n s' = ring_at C n s"
  by (simp add: ring_at_def)

lemma packets_inv_same:
  assumes "packets_inv C evs s" and "ring_at C (length (slot_log evs)) s'"
    and "mpReceiveBuffers s' = mpReceiveBuffers s" and "slot1 ev = []"
  shows "packets_inv C (evs @ [ev]) s'"
  using assms by (simp add: packets_inv_def)

lemma packets_inv_again:
  assumes inv: "packets_inv C evs s" and st: "take_slot s = Inr (q, s')"
  shows "packets_inv C (evs @ [Again]) s'"
proof -
  from inv have "ring_at C (length (slot_log evs)) s" by (simp add: packets_inv_def)
  from take_slot_ring [OF this] st inv show ?thesis
    by (auto simp: packets_inv_def nth_append less_Suc_eq)
qed

lemma packets_inv_recv:
  assumes inv: "packets_inv C evs s" and rp: "recv_packet d s = Inr (t, s')"
  shows "packets_inv C (evs @ [Recv d t]) s'"
proof -
  let ?n = "length (slot_log evs)"
  from inv have "ring_at C ?n s" by (simp add: packets_inv_def)
  from recv_packet_ring [OF this, of d] rp have
    t: "t = \<lparr>data = slot_of C ?n, len = length (stored d), from_peer = peer_name (sender d)\<rparr>"
    and ring: "ring_at C (Suc ?n) s'"
    and mem: "mpReceiveBuffers s' = mem_write (slot_of C ?n) (stored d) (mpReceiveBuffers s)"
    by auto
  have old: "mem_read (slot_of C i) (length (stored d')) (mpReceiveBuffers s')
      = mem_read (slot_of C i) (length (stored d')) (mpReceiveBuffers s)"
    if "i < ?n" and "Suc ?n \<le> i + 2 * C" for i d'
  proof -
    from that have "slot_of C i \<noteq> slot_of C ?n" by (intro slot_of_distinct) auto
    then show ?thesis unfolding mem
      by (intro mem_read_write_other slots_disjoint length_stored)
  qed
  have "t' = \<lparr>data = slot_of C i, len = length (stored d'), from_peer = peer_name (sender d')\<rparr> \<and>
      (Suc ?n \<le> i + 2 * C \<longrightarrow> mem_read (data t') (len t') (mpReceiveBuffers s') = stored d')"
    if i: "i < ?n" "slot_log evs ! i = Some (d', t')" for i d' t'
  proof -
    from inv i have "t' = \<lparr>data = slot_of C i, len = length (stored d'), from_peer = peer_name (sender d')\<rparr>"
      and "?n \<le> i + 2 * C \<longrightarrow> mem_read (data t') (len t') (mpReceiveBuffers s) = stored d'"
      by (simp_all add: packets_inv_def)
    with old [OF i(1), of d'] show ?thesis by simp
  qed
  with ring t mem show ?thesis
    by (auto simp: packets_inv_def nth_append less_Suc_eq mem_read_write_same)
qed

lemma ns_step_packets:
  assumes "ns_step hash mm s ev s'" and inv: "packets_inv C evs s"
  shows "packets_inv C (evs @ [ev]) s'"
  using assms(1)
proof cases
  case (recv d t s1)
  then obtain q where "s' = s1\<lparr>mpUdpWorkerThreads := q\<rparr>"
    by (auto simp: submit_to_def res_bind_Inr_iff)
  with packets_inv_recv [OF inv, of d t s1] recv show ?thesis
    by (simp add: packets_inv_def ring_at_def)
next
  case (again q)
  with packets_inv_again [OF inv, of q s'] show ?thesis by simp
next
  case (reg p f)
  then show ?thesis
    using inv by (intro packets_inv_same [OF inv])
      (auto simp: registerPeer_def res_bind_Inr_iff packets_inv_def ring_at_def split: if_splits)
qed (use inv in \<open>auto intro!: packets_inv_same [OF inv] simp: packets_inv_def ring_at_def unRegisterPeer_def\<close>)

lemma ns_run_packets:
  assumes "ns_run hash mm s0 evs s" and "ring_at C 0 s0"
  shows "packets_inv C evs s"
  using assms
proof (induction rule: ns_run.induct)
  case none
  then show ?case by (simp add: packets_inv_def)
next
  case (more evs s1 ev s2)
  then show ?case using ns_step_packets by blast
qed

subsection \<open>Initialisation\<close>

definition syscalls_ok :: udp_syscalls where
  "syscalls_ok = \<lparr>setsockopt_rcvbuf = 0, setsockopt_reuseport = 0, bind_ret = 0,
     evthread_use_pthreads = 0, event_base_new_ok = True\<rparr>"

lemma start_loops_ok:
  "(\<And>i. UdpEventLoop_Init (sys i) = Inr ()) \<Longrightarrow>
     start_loops sys n s = Inr (s\<lparr>mpUdpWorkers := mpUdpWorkers s + n\<rparr>)"
  by (induction n arbitrary: s) (simp_all add: startUdpEventLoop_def)

lemma start_loops_frame:
  "start_loops sys n s = Inr s' \<Longrightarrow> s' = s\<lparr>mpUdpWorkers := mpUdpWorkers s + n\<rparr>"
proof (induction n arbitrary: s)
  case 0
  then show ?case by simp
next
  case (Suc n)
  then obtain s1 where "startUdpEventLoop (sys n) s = Inr s1" "start_loops sys n s1 = Inr s'"
    by (auto simp: res_bind_Inr_iff)
  moreover from this(1) have "s1 = s\<lparr>mpUdpWorkers := mpUdpWorkers s + 1\<rparr>"
    by (auto simp: startUdpEventLoop_def res_bind_Inr_iff)
  ultimately show ?case using Suc.IH [of s1] by auto
qed

subsection \<open>The table of peers\<close>

text \<open>
  What the producer relies on: a registered function stays until it is unregistered, a second
  registration of the same name changes nothing.
\<close>

locale peer_table =
  fixes reg :: "'k \<Rightarrow> 'v \<Rightarrow> 's \<Rightarrow> 's"
    and unreg :: "'k \<Rightarrow> 's \<Rightarrow> 's"
    and look :: "'s \<Rightarrow> 'k \<Rightarrow> 'v option"
    and ok :: "'s \<Rightarrow> bool"
  assumes look_reg: "ok s \<Longrightarrow> look (reg k v s) k' = (if k' = k \<and> look s k = None then Some v else look s k')"
    and look_unreg: "ok s \<Longrightarrow> look (unreg k s) k' = (if k' = k then None else look s k')"
    and ok_reg: "ok s \<Longrightarrow> ok (reg k v s)"
    and ok_unreg: "ok s \<Longrightarrow> ok (unreg k s)"
begin

lemma first_wins: "ok s \<Longrightarrow> look s k = None \<Longrightarrow> look (reg k v' (reg k v s)) k = Some v"
  by (simp add: look_reg ok_reg)

lemma stays: "ok s \<Longrightarrow> look s k = Some v \<Longrightarrow> look (reg k' v' s) k = Some v"
  by (auto simp: look_reg)

lemma replace_after_unreg: "ok s \<Longrightarrow> look (reg k v (unreg k s)) k = Some v"
  by (simp add: look_reg look_unreg ok_unreg)

lemma frame: "ok s \<Longrightarrow> k' \<noteq> k \<Longrightarrow> look (reg k v s) k' = look s k' \<and> look (unreg k s) k' = look s k'"
  by (simp add: look_reg look_unreg)

end

text \<open>The table of a server whose metrics manager is up.\<close>

definition peers_look :: "'f network_server \<Rightarrow> string \<Rightarrow> 'f option" where
  "peers_look s p = map_option processFunc (omap_find string_less p (mRegisteredPeers s))"

definition peers_ok :: "'f network_server \<Rightarrow> bool" where
  "peers_ok s \<longleftrightarrow> omap_ok string_less (mRegisteredPeers s)"

definition reg_peer :: "mm_state \<Rightarrow> string \<Rightarrow> 'f \<Rightarrow> 'f network_server \<Rightarrow> 'f network_server" where
  "reg_peer mm p f s = (case registerPeer mm p f s of Inr s' \<Rightarrow> s' | Inl _ \<Rightarrow> s)"

lemma Peer_ready:
  assumes "spInstance mm = Some m"
  shows "\<exists>c. Peer mm p f = Inr \<lparr>name = p, processFunc = f, pCounter = c\<rparr>"
  using assms by (simp add: Peer_def MMAddCounter_ready AddCounter_def Let_def)

lemma registerPeer_ready:
  "spInstance mm = Some m \<Longrightarrow> registerPeer mm p f s = Inr (reg_peer mm p f s)"
  using Peer_ready [of mm m p f] by (auto simp: reg_peer_def registerPeer_def)

lemma reg_peer_table:
  assumes "spInstance mm = Some m"
  shows "peer_table (reg_peer mm :: string \<Rightarrow> 'f \<Rightarrow> 'f network_server \<Rightarrow> 'f network_server)
           unRegisterPeer peers_look peers_ok"
proof
  fix s :: "'f network_server" and k k' and f :: 'f assume "peers_ok s"
  obtain c where "Peer mm k f = Inr \<lparr>name = k, processFunc = f, pCounter = c\<rparr>"
    using Peer_ready [OF assms, of k f] by blast
  then show "peers_look (reg_peer mm k f s) k'
      = (if k' = k \<and> peers_look s k = None then Some f else peers_look s k')"
    by (auto simp: reg_peer_def registerPeer_def peers_look_def strs.find_set)
next
  fix s :: "'f network_server" and k k' assume "peers_ok s"
  then show "peers_look (unRegisterPeer k s) k' = (if k' = k then None else peers_look s k')"
    by (auto simp: unRegisterPeer_def peers_look_def peers_ok_def strs.find_erase)
next
  fix s :: "'f network_server" and k and f :: 'f assume "peers_ok s"
  then show "peers_ok (reg_peer mm k f s)"
    by (auto simp: reg_peer_def registerPeer_def peers_ok_def split: sum.splits if_splits)
       (auto simp: res_bind_Inr_iff strs.ok_set)
next
  fix s :: "'f network_server" and k assume "peers_ok s"
  then show "peers_ok (unRegisterPeer k s)"
    by (auto simp: unRegisterPeer_def peers_ok_def strs.ok_erase)
qed

text \<open>The metrics manager of a process that has called \<open>Init\<close>.\<close>

definition mm_up :: "mm_options \<Rightarrow> mm_state" where
  "mm_up opts = mm_Init opts mm_state0"

lemma mm_up_instance: "spInstance (mm_up opts) =
    Some (MetricsManager (exposer_port opts) (family_prefix opts) (endpoint_uri opts))"
  by (simp add: mm_up_def mm_Init_def mm_state0_def)

interpretation peers: peer_table "reg_peer (mm_up opts)" unRegisterPeer peers_look peers_ok
  for opts
  by (rule reg_peer_table [OF mm_up_instance])

subsection \<open>Properties\<close>

text \<open>A packet is attributed to its sender and to no one else: the name the receiver
  looks up is equal for two senders exactly when address and port are equal.\<close>

theorem peer_name_identifies_sender:
  "peer_name a = peer_name b \<longleftrightarrow> sin_addr a = sin_addr b \<and> sin_port a = sin_port b"
  by (rule peer_name_inject_aux)

text \<open>The receive buffers are sized for at most 102 event loops. On a fresh server whose
  system calls succeed, initialisation with 1 to 102 loops yields two buffers of 20 MiB per
  loop and a cursor at their start, the requested pools, and no peers; with more loops the size
  does not fit an \<open>int\<close> and the computation is undefined.\<close>

theorem initUdpServer_buffers:
  assumes "\<And>i. UdpEventLoop_Init (sys i) = Inr ()" and "0 < n" and "0 \<le> w"
  shows "(n \<le> 102 \<longrightarrow> (\<exists>s. initUdpServer sys hw \<lparr>port = p, event_loop_num = n, async_worker_num = w\<rparr>
              NetworkServer = Inr s \<and>
            mBufferSize s = Some (n * 20971520) \<and>
            ring_at (nat ((n * 20971520 - 1) div 1600)) 0 s \<and>
            mpUdpWorkerThreads s = replicate (nat w) (ThreadPool 1) \<and> mRegisteredPeers s = [])) \<and>
         (102 < n \<longrightarrow> initUdpServer sys hw \<lparr>port = p, event_loop_num = n, async_worker_num = w\<rparr>
              NetworkServer = Inl Undefined_behaviour)"
  using assms(2,3)
  by (auto simp: initUdpServer_def Let_def start_loops_ok [OF assms(1)] int32_def in_int32_def
      NetworkServer_def ring_at_def)

theorem initUdpServer_buffers_witness:
  "\<exists>s. initUdpServer (\<lambda>_. syscalls_ok) 8 \<lparr>port = 8086, event_loop_num = 4, async_worker_num = 2\<rparr>
     (NetworkServer :: nat network_server) = Inr s \<and> mBufferSize s = Some 83886080"
proof -
  have "UdpEventLoop_Init syscalls_ok = Inr ()"
    by (simp add: UdpEventLoop_Init_def syscalls_ok_def)
  from initUdpServer_buffers [of "\<lambda>_. syscalls_ok" 4 2 8 8086, OF this] show ?thesis by auto
qed

text \<open>Slots never run over the end of a buffer and are handed out in turn: on a server set
  up with buffers that hold \<open>C\<close> slots, the next slot after \<open>n\<close> slots is slot \<open>n mod C\<close> of
  buffer \<open>(n div C) mod 2\<close>, which leaves room for 1600 bytes, and taking it always succeeds.\<close>

theorem take_slot_in_turn:
  assumes "ring_at C n s" and "mBufferSize s = Some sz"
  shows "\<exists>s'. take_slot s = Inr ((n div C mod 2, 1600 * int (n mod C)), s') \<and> ring_at C (Suc n) s' \<and>
    0 \<le> 1600 * int (n mod C) \<and> 1600 * int (n mod C) + 1600 < sz"
proof -
  from assms have C: "0 < C" "int C = (sz - 1) div 1600" by (auto simp: ring_at_def)
  have "int (n mod C) + 1 \<le> int C" using C(1) mod_less_divisor [of C n] by linarith
  then have "1600 * int (n mod C) + 1600 < sz" unfolding C(2) by linarith
  with take_slot_ring [OF assms(1)] show ?thesis by (simp add: slot_of_def)
qed

theorem take_slot_in_turn_witness:
  "\<exists>s'. take_slot (NetworkServer\<lparr>mBufferSize := Some 4000, nReceiveBuffers := 2\<rparr> :: nat network_server)
     = Inr ((0, 0), s') \<and> mCurPosition s' = 1600"
proof -
  have "ring_at 2 0 (NetworkServer\<lparr>mBufferSize := Some 4000, nReceiveBuffers := 2\<rparr> :: nat network_server)"
    by (simp add: ring_at_def NetworkServer_def)
  from take_slot_in_turn [OF this, of 4000] show ?thesis
    by (auto simp: take_slot_def NetworkServer_def)
qed


text \<open>A server with one worker thread and small buffers, and a datagram to it.\<close>

definition server1 :: "nat network_server" where
  "server1 = NetworkServer\<lparr>mBufferSize := Some 4000, nReceiveBuffers := 2,
     mpUdpWorkerThreads := [ThreadPool 1]\<rparr>"

definition datagram1 :: datagram where
  "datagram1 = \<lparr>sender = \<lparr>sin_addr = (127, 0, 0, 1), sin_port = 3120\<rparr>, payload = [1, 2, 3]\<rparr>"

lemma server1_ring: "ring_at 2 0 server1"
  by (simp add: server1_def ring_at_def NetworkServer_def)

lemma server1_recv:
  "\<exists>t s. ns_run (\<lambda>_. 0) mm server1 [Recv datagram1 t] s"
proof -
  from recv_packet_ring [OF server1_ring, of datagram1] obtain t s1 where
    rp: "recv_packet datagram1 server1 = Inr (t, s1)"
    and pools: "mpUdpWorkerThreads s1 = [ThreadPool 1]"
    by (auto simp: server1_def)
  then obtain s2 where "submit_to (worker_index (\<lambda>_. 0) (from_peer t) s1) t s1 = Inr s2"
    by (simp add: submit_to_def worker_index_def submit_def ThreadPool_def)
  with rp have "ns_step (\<lambda>_. 0) mm server1 (Recv datagram1 t) s2"
    by (intro ns_step.recv) (auto simp: server1_def)
  from ns_run.more [OF ns_run.none this] show ?thesis by auto
qed


lemma executed_in_order:
  assumes "ns_run hash mm s0 evs s" and "mpUdpWorkerThreads s0 = replicate w (ThreadPool 1)" and "0 < w"
  shows "prefix (filter (\<lambda>t. from_peer t = p) (executed evs)) (filter (\<lambda>t. from_peer t = p) (accepted evs))"
proof -
  let ?k = "hash p mod w"
  from ns_run_pools [OF assms(1,2)] have
    "\<forall>k < w. \<exists>pe. pool_run (ThreadPool 1) pe (mpUdpWorkerThreads s ! k) \<and>
        submitted pe = filter (\<lambda>t. hash (from_peer t) mod w = k) (accepted evs) \<and>
        completed pe = filter (\<lambda>t. hash (from_peer t) mod w = k) (executed evs)"
    by (simp add: pools_inv_def)
  moreover from assms(3) have "?k < w" by simp
  ultimately obtain pe where
    "pool_run (ThreadPool 1) pe (mpUdpWorkerThreads s ! ?k)"
    and acc: "submitted pe = filter (\<lambda>t. hash (from_peer t) mod w = ?k) (accepted evs)"
    and exe: "completed pe = filter (\<lambda>t. hash (from_peer t) mod w = ?k) (executed evs)"
    by blast
  then have "one_thread_run pe" by (auto simp: one_thread_run_def)
  from pool1.per_key [OF this, of "\<lambda>t. from_peer t = p"]
  have "prefix (filter (\<lambda>t. from_peer t = p \<and> hash (from_peer t) mod w = ?k) (executed evs))
      (filter (\<lambda>t. from_peer t = p \<and> hash (from_peer t) mod w = ?k) (accepted evs))"
    by (simp add: acc exe conj_commute)
  moreover have "(\<lambda>t :: udp_task. from_peer t = p \<and> hash (from_peer t) mod w = ?k) = (\<lambda>t. from_peer t = p)"
    by auto
  ultimately show ?thesis by (simp only:)
qed

text \<open>C12: packets of one peer are processed in the order in which they arrived. In any
  interleaving of the receiver with its one-thread pools, for every peer the packets processed
  so far are a prefix of those received from it, however many pools there are and whatever
  the hash.\<close>

theorem packets_in_order:
  assumes "ns_run hash mm s0 evs s" and "mpUdpWorkerThreads s0 = replicate w (ThreadPool 1)" and "0 < w"
  shows "prefix (filter (\<lambda>t. from_peer t = p) (executed evs)) (filter (\<lambda>t. from_peer t = p) (accepted evs))"
  by (rule executed_in_order [OF assms])

theorem packets_in_order_witness:
  "\<exists>t s. ns_run (\<lambda>_. 0) mm_state0 server1 [Recv datagram1 t] s \<and>
     prefix (filter (\<lambda>t. from_peer t = ''127.0.0.1:12300'') (executed [Recv datagram1 t :: nat ns_event]))
       (filter (\<lambda>t. from_peer t = ''127.0.0.1:12300'') (accepted [Recv datagram1 t :: nat ns_event]))"
proof -
  obtain t s where run: "ns_run (\<lambda>_. 0) mm_state0 server1 [Recv datagram1 t] s"
    using server1_recv by blast
  from packets_in_order [OF run, of 1 "''127.0.0.1:12300''"] run show ?thesis
    by (auto simp: server1_def)
qed

text \<open>Without worker threads, one event of the socket delivers the waiting datagrams in
  order, each to the function of its peer with its bytes and its length counted, up to the
  first datagram of an unregistered peer. That one is dropped and the callback returns: the
  datagrams behind it stay in the kernel, and nothing is read until the edge-triggered event
  fires again.\<close>

theorem udp_loop_sync_delivers:
  assumes "ring_at C n s" and "mpUdpWorkerThreads s = []"
  shows "\<exists>s'. udp_loop hash ds s =
     Inr (s', tl (dropWhile (registered s) ds), concat (map (delivery s) (takeWhile (registered s) ds)))"
  using udp_loop_sync [OF assms] by blast

theorem udp_loop_sync_delivers_witness:
  "\<exists>s'. udp_loop (\<lambda>_. 0) [datagram1, datagram1] (server1\<lparr>mpUdpWorkerThreads := []\<rparr>)
     = Inr (s', [datagram1], [])"
proof -
  have "ring_at 2 0 (server1\<lparr>mpUdpWorkerThreads := []\<rparr>)"
    using server1_ring by (simp add: ring_at_def)
  from udp_loop_sync_delivers [OF this, of "\<lambda>_. 0" "[datagram1, datagram1]"] show ?thesis
    by (simp add: registered_def server1_def NetworkServer_def)
qed

text \<open>A datagram that arrives before initialisation is over is undefined behaviour: the
  event loops are started first, and their callback uses the buffer size and the buffers, which
  are set afterwards.\<close>

theorem early_packet_undefined:
  assumes "start_loops sys n NetworkServer = Inr s"
  shows "udp_loop hash ds s = Inl Undefined_behaviour"
proof -
  from start_loops_frame [OF assms] have "mBufferSize s = None" by (auto simp: NetworkServer_def)
  then show ?thesis
    by (cases ds) (simp_all add: recv_packet_def take_slot_def)
qed

theorem early_packet_undefined_witness:
  "udp_loop (\<lambda>_. 0) [datagram1] ((NetworkServer :: nat network_server)\<lparr>mpUdpWorkers := 1\<rparr>)
     = Inl Undefined_behaviour"
  by (rule early_packet_undefined [of "\<lambda>_. syscalls_ok" 1])
     (simp add: startUdpEventLoop_def UdpEventLoop_Init_def syscalls_ok_def NetworkServer_def)

text \<open>The callback's check for unknown events never fires: with \<open>EV_READ\<close> being 2,
  \<open>!which & EV_READ\<close> is 0 for every event, so every event enters the receive loop.\<close>

theorem unknown_event_dead:
  "on_udp_event hash 2 which queue s = udp_loop hash queue s"
  by (simp add: on_udp_event_def unknown_event_def)

text \<open>Registering a peer takes effect only while the name is free. A name that is taken
  keeps the function it has, other names are untouched, and a name can be given to a new
  function after \<open>unRegisterPeer\<close>.\<close>

theorem registerPeer_first_wins:
  assumes "peers_ok s"
  shows "registerPeer (mm_up opts) p f s = Inr (reg_peer (mm_up opts) p f s) \<and>
    peers_look (reg_peer (mm_up opts) p f s) q
      = (if q = p \<and> peers_look s p = None then Some f else peers_look s q) \<and>
    peers_look (reg_peer (mm_up opts) p f (unRegisterPeer p s)) p = Some f \<and>
    peers_ok (reg_peer (mm_up opts) p f s)"
  by (intro conjI registerPeer_ready [OF mm_up_instance] peers.look_reg [OF assms]
      peers.replace_after_unreg [OF assms] peers.ok_reg [OF assms])

theorem registerPeer_first_wins_witness:
  "peers_look (reg_peer (mm_up \<lparr>exposer_port = 8844, family_prefix = ''ffvms'', endpoint_uri = ''''\<rparr>)
     ''127.0.0.1:12300'' (7::nat) NetworkServer) ''127.0.0.1:12300'' = Some 7"
proof -
  have "peers_ok (NetworkServer :: nat network_server)" by (simp add: peers_ok_def NetworkServer_def)
  from registerPeer_first_wins [OF this, of _ "''127.0.0.1:12300''" 7 "''127.0.0.1:12300''"]
  show ?thesis by (simp add: peers_look_def NetworkServer_def)
qed

end
