(* ===== verification/Rtp_Producer.thy ===== *)
theory Rtp_Producer
  imports File_Video Network_Server
begin

text \<open>
  \<open>RtpProducer\<close> (\<open>core/include/rtp_producer.h\<close>, \<open>core/src/rtp_producer.cpp\<close>): the registration of a
  video, which for a file is probed in a thread pool and then played by a timer, and for a GB
  camera is an invite sent to the SIP gateway, whose answer sets up the depacketizer and the RTP
  encoder and registers the camera as a peer of the network server.

  The closures a caller registers are values of type \<open>'cb\<close>; calling one is an output. A camera's
  context is a \<open>shared_ptr\<close> held by the map only, so a \<open>weak_ptr\<close> to it is its identity \<open>ctx_id\<close>, and
  \<open>lock\<close> succeeds exactly while the context is in the map. The answers of FFmpeg, of the RTP
  library and of the gateway are arguments. An operation whose critical sections may be
  interleaved with others is one definition per section.
\<close>

section \<open>State\<close>

record prod_config =
  file_event_thread_num :: int
  network_receive_host :: string
  sipper_host :: string
  rtp_jitter_in_ms :: int
  max_bandwidth_in_mb :: int
  rpc_timeout_in_ms :: int

record 'cb rtp_ctx =
  ctx_id :: nat
  pProducedCounter :: metric
  pRemuxCounter :: metric
  pDemuxCounter :: metric
  videoRequest :: video_request
  processSdpFunc :: 'cb
  consumePktFunc :: 'cb
  processErrorFunc :: 'cb
  inviteId :: string
  demuxer :: bool
  payloadEncoder :: bool
  rtp :: bool
  packet :: bool
  payloadBuf :: "int option"

text \<open>
  \<open>mFileIoBases\<close> stands for the three vectors of event bases, keep-alive events and threads, which
  grow together. What \<open>Init\<close> has not set yet is \<open>None\<close>.
\<close>

record 'cb rtp_producer =
  mConfig :: "prod_config option"
  mEventBaseCursor :: "32 word"
  mFileIoBases :: nat
  mpFileIoThreadPool :: "(video_request \<times> 'cb) thread_pool option"
  mFileVideoContextMap :: "(video_request, 'cb file_ctx) omap"
  mRtpVideoContextMap :: "(video_request, 'cb rtp_ctx) omap"
  mpGrpcClient :: bool
  mpNetworkServer :: "nat network_server option"
  next_ctx :: nat

definition RtpProducer :: "'cb rtp_producer" where
  "RtpProducer =
     \<lparr>mConfig = None, mEventBaseCursor = 0, mFileIoBases = 0, mpFileIoThreadPool = None,
      mFileVideoContextMap = [], mRtpVideoContextMap = [], mpGrpcClient = False,
      mpNetworkServer = None, next_ctx = 0\<rparr>"

text \<open>Following a pointer that was never set.\<close>

definition deref :: "'a option \<Rightarrow> 'a res" where
  "deref x = (case x of None \<Rightarrow> Inl Undefined_behaviour | Some y \<Rightarrow> Inr y)"

text \<open>\<open>Init\<close>: one event base with a keep-alive event and a thread per file thread.\<close>

record file_loop_syscalls =
  fl_event_base_new :: bool
  fl_event_new :: bool
  fl_event_add :: int

fun start_file_loops :: "(nat \<Rightarrow> file_loop_syscalls) \<Rightarrow> nat \<Rightarrow> 'cb rtp_producer \<Rightarrow> 'cb rtp_producer res" where
  "start_file_loops sys 0 p = Inr p"
| "start_file_loops sys (Suc n) p =
     (if \<not> fl_event_base_new (sys n) then Inl Fatal
      else if \<not> fl_event_new (sys n) \<or> fl_event_add (sys n) < 0 then Inl Fatal
      else start_file_loops sys n (p\<lparr>mFileIoBases := mFileIoBases p + 1\<rparr>))"

definition RtpProducer_Init ::
  "int \<Rightarrow> (nat \<Rightarrow> file_loop_syscalls) \<Rightarrow> nat \<Rightarrow> prod_config \<Rightarrow> nat network_server \<Rightarrow>
     'cb rtp_producer \<Rightarrow> 'cb rtp_producer res" where
  "RtpProducer_Init use_pthreads sys hardware_concurrency config networkServer p =
     (if use_pthreads \<noteq> 0 then Inl Fatal
      else
        let n = (if file_event_thread_num config = -1 then int hardware_concurrency
                 else file_event_thread_num config)
        in res_bind (start_file_loops sys (nat n)
             (p\<lparr>mpNetworkServer := Some networkServer, mConfig := Some config\<rparr>)) (\<lambda>p.
           if n < 0 then Inl (Runtime_error ''std::system_error'')
           else Inr (p\<lparr>mpFileIoThreadPool := Some (ThreadPool (nat n)), mpGrpcClient := True\<rparr>)))"

text \<open>
  The destructor: per file thread it deletes a keep-alive event, stops the loop and joins the
  thread. The event is \<open>mFileKeepAliveEvents.back()\<close> in every round, so the others are never deleted.
\<close>

datatype dtor_action = Event_del nat | Loopbreak nat | Join nat

definition RtpProducer_dtor :: "'cb rtp_producer \<Rightarrow> dtor_action list" where
  "RtpProducer_dtor p =
     concat (map (\<lambda>i. [Event_del (mFileIoBases p - 1), Loopbreak i, Join i]) [0..<mFileIoBases p])"

lemma RtpProducer_dtor_events: "Event_del i \<in> set (RtpProducer_dtor p) \<longleftrightarrow> 0 < mFileIoBases p \<and> i = mFileIoBases p - 1"
  by (auto simp: RtpProducer_dtor_def)

section \<open>Registration\<close>

definition RtpVideoContext ::
  "mm_state \<Rightarrow> nat \<Rightarrow> video_request \<Rightarrow> 'cb \<Rightarrow> 'cb \<Rightarrow> 'cb \<Rightarrow> 'cb rtp_ctx res" where
  "RtpVideoContext mm i video sdpF pktF errF =
     (let labels0 = omap_set string_less ''module'' ''rtp producer'' [];
          labels1 = omap_set string_less ''info'' ''produced bytes'' labels0
      in res_bind (MMAddCounter mm (gbid video) labels1) (\<lambda>(produced, labels1).
         let labels2 = omap_set string_less ''info'' ''remux input bytes'' labels1
         in res_bind (MMAddCounter mm (gbid video) labels2) (\<lambda>(remux, labels2).
         let labels3 = omap_set string_less ''info'' ''demux input bytes'' labels2
         in res_bind (MMAddCounter mm (gbid video) labels3) (\<lambda>(demux, _).
         Inr \<lparr>ctx_id = i, pProducedCounter = produced, pRemuxCounter = remux,
              pDemuxCounter = demux, videoRequest = video, processSdpFunc = sdpF,
              consumePktFunc = pktF, processErrorFunc = errF, inviteId = [], demuxer = False,
              payloadEncoder = False, rtp = False, packet = False, payloadBuf = None\<rparr>))))"

definition RegisterVideo ::
  "mm_state \<Rightarrow> fmt_ptr \<times> fmt_ptr \<Rightarrow> video_request \<Rightarrow> 'cb \<Rightarrow> 'cb \<Rightarrow> 'cb \<Rightarrow> 'cb rtp_producer \<Rightarrow>
     ('cb rtp_producer \<times> 'cb prod_out list) res" where
  "RegisterVideo mm mem video sdpF pktF errF p =
     (if use_file video then
        (if omap_find VideoRequest_less video (mFileVideoContextMap p) \<noteq> None
         then Inr (p, [Err errF Too_many_files_open])
         else
           res_bind (deref (mpFileIoThreadPool p)) (\<lambda>pool.
           res_bind (submit (video, sdpF) pool) (\<lambda>pool.
           Inr (p\<lparr>mFileVideoContextMap :=
                    omap_set VideoRequest_less video (FileVideoContext mem video pktF errF)
                      (mFileVideoContextMap p),
                  mpFileIoThreadPool := Some pool\<rparr>, []))))
      else if use_gb video then
        (if omap_find VideoRequest_less video (mRtpVideoContextMap p) \<noteq> None
         then Inr (p, [Err errF Too_many_files_open])
         else
           res_bind (RtpVideoContext mm (next_ctx p) video sdpF pktF errF) (\<lambda>ctx.
           res_bind (deref (mConfig p)) (\<lambda>config.
           if \<not> mpGrpcClient p then Inl Undefined_behaviour
           else
             Inr (p\<lparr>mRtpVideoContextMap :=
                      omap_set VideoRequest_less video ctx (mRtpVideoContextMap p),
                    next_ctx := next_ctx p + 1\<rparr>,
                  [Rpc (InviteVideo (ctx_id ctx) (gbid video) (network_receive_host config)
                     (gbStreamingMode video) (rpc_timeout_in_ms config))]))))
      else Inr (p, []))"

definition UnregisterVideo :: "video_request \<Rightarrow> 'cb rtp_producer \<Rightarrow>
    ('cb rtp_producer \<times> 'cb prod_out list) res" where
  "UnregisterVideo video p =
     (if use_file video then
        res_bind (case omap_find VideoRequest_less video (mFileVideoContextMap p) of
                    None \<Rightarrow> Inr ()
                  | Some c \<Rightarrow> FileVideoContext_dtor c) (\<lambda>_.
        Inr (p\<lparr>mFileVideoContextMap := omap_erase VideoRequest_less video (mFileVideoContextMap p)\<rparr>, []))
      else if use_gb video then
        Inr (p\<lparr>mRtpVideoContextMap := omap_erase VideoRequest_less video (mRtpVideoContextMap p)\<rparr>,
             case omap_find VideoRequest_less video (mRtpVideoContextMap p) of
               None \<Rightarrow> []
             | Some ctx \<Rightarrow> if inviteId ctx = [] then [] else [Rpc (TearDown (inviteId ctx))])
      else Inr (p, []))"


section \<open>Probing a file\<close>

text \<open>What the calls of \<open>RegisterFileVideo\<close> to FFmpeg and libevent return.\<close>

record probe =
  open_input_ret :: int
  find_stream_info_ret :: int
  best_stream :: int
  avg_frame_rate :: "int \<times> int"
  alloc_output_ret :: int
  new_stream_ok :: bool
  copy_params_ret :: int
  avio_alloc_ok :: bool
  sdp_create_ret :: int
  sdp_text :: string
  write_header_ret :: int
  event_new_ok :: bool
  event_add_ret :: int

text \<open>
  \<open>long microseconds = 1e6 * fps.second / fps.first\<close>: for \<open>int\<close> operands the product is exact in a
  \<open>double\<close> and the quotient is rounded by less than the distance to the next integer, so the
  conversion truncates the exact quotient. Dividing by zero gives no value a \<open>long\<close> can hold.
\<close>

definition frame_interval :: "int \<times> int \<Rightarrow> int option" where
  "frame_interval r = (if fst r = 0 then None else Some (trunc_div (1000000 * snd r) (fst r)))"

text \<open>\<open>mEventBaseCursor.fetch_add(1) % mFileIoBases.size()\<close>: the old value, sign-extended to \<open>size_t\<close>.\<close>

definition event_base_index :: "32 word \<Rightarrow> nat \<Rightarrow> nat" where
  "event_base_index cursor n = unat (word_of_int (sint cursor) :: 64 word) mod n"

text \<open>
  The first critical section. The result says whether the function returned from it, and the
  last return code.
\<close>

definition RegisterFileVideo_probe ::
  "video_request \<Rightarrow> 'cb \<Rightarrow> probe \<Rightarrow> 'cb rtp_producer \<Rightarrow>
     (bool \<times> int \<times> 'cb rtp_producer \<times> 'cb prod_out list) res" where
  "RegisterFileVideo_probe video sdpF pr p =
     (case omap_find VideoRequest_less video (mFileVideoContextMap p) of
        None \<Rightarrow> Inr (False, 0, p, [])
      | Some c0 \<Rightarrow>
          let upd = (\<lambda>c. p\<lparr>mFileVideoContextMap :=
                             omap_set VideoRequest_less video c (mFileVideoContextMap p)\<rparr>);
              c1 = c0\<lparr>iFmtCtx := Opened\<rparr>;
              c2 = c1\<lparr>videoStreamId := best_stream pr\<rparr>;
              c3 = c2\<lparr>fps := avg_frame_rate pr\<rparr>;
              c4 = c3\<lparr>oFmtCtx := Opened\<rparr>
          in
          if iFmtCtx c0 = Garbage then Inl Undefined_behaviour
          else if open_input_ret pr < 0 then Inr (False, open_input_ret pr, upd (c0\<lparr>iFmtCtx := Null\<rparr>), [])
          else if find_stream_info_ret pr < 0 then Inr (False, find_stream_info_ret pr, upd c1, [])
          else if best_stream pr < 0 then Inr (False, best_stream pr, upd c2, [])
          else if alloc_output_ret pr < 0 then Inr (False, alloc_output_ret pr, upd (c3\<lparr>oFmtCtx := Null\<rparr>), [])
          else if \<not> new_stream_ok pr then Inr (False, alloc_output_ret pr, upd c4, [])
          else if copy_params_ret pr < 0 then Inr (False, copy_params_ret pr, upd c4, [])
          else if \<not> avio_alloc_ok pr then Inl Undefined_behaviour
          else if sdp_create_ret pr < 0 then Inr (False, sdp_create_ret pr, upd c4, [])
          else if write_header_ret pr < 0 then Inr (False, write_header_ret pr, upd c4, [])
          else if mFileIoBases p = 0 then Inl Undefined_behaviour
          else
            case frame_interval (fps c4) of
              None \<Rightarrow> Inl Undefined_behaviour
            | Some us \<Rightarrow>
                let i = event_base_index (mEventBaseCursor p) (mFileIoBases p);
                    c5 = c4\<lparr>mpFileEvent := (if event_new_ok pr then Some (i, us) else None)\<rparr>;
                    p5 = (upd c5)\<lparr>mEventBaseCursor := mEventBaseCursor p + 1\<rparr>
                in Inr (event_new_ok pr \<and> 0 \<le> event_add_ret pr, write_header_ret pr, p5,
                        [Sdp sdpF (sdp_text pr)]))"

text \<open>The second, when the last return code is not zero, and the third.\<close>

definition RegisterFileVideo_report :: "video_request \<Rightarrow> 'cb rtp_producer \<Rightarrow> 'cb prod_out list res" where
  "RegisterFileVideo_report video p =
     (case omap_find VideoRequest_less video (mFileVideoContextMap p) of
        None \<Rightarrow> Inl Undefined_behaviour
      | Some c \<Rightarrow> Inr [Err (f_processErrorFunc c) Invalid_argument])"

definition RegisterFileVideo_erase :: "video_request \<Rightarrow> 'cb rtp_producer \<Rightarrow> 'cb rtp_producer res" where
  "RegisterFileVideo_erase video p =
     res_bind (case omap_find VideoRequest_less video (mFileVideoContextMap p) of
                 None \<Rightarrow> Inr ()
               | Some c \<Rightarrow> FileVideoContext_dtor c) (\<lambda>_.
     Inr (p\<lparr>mFileVideoContextMap := omap_erase VideoRequest_less video (mFileVideoContextMap p)\<rparr>))"

text \<open>The whole function, when nothing comes between the sections.\<close>

definition RegisterFileVideo ::
  "video_request \<Rightarrow> 'cb \<Rightarrow> probe \<Rightarrow> 'cb rtp_producer \<Rightarrow> ('cb rtp_producer \<times> 'cb prod_out list) res" where
  "RegisterFileVideo video sdpF pr p =
     res_bind (RegisterFileVideo_probe video sdpF pr p) (\<lambda>(returned, ret, p, outs).
     if returned then Inr (p, outs)
     else
       res_bind (if ret \<noteq> 0 then RegisterFileVideo_report video p else Inr []) (\<lambda>errs.
       res_bind (RegisterFileVideo_erase video p) (\<lambda>p.
       Inr (p, outs @ errs))))"

text \<open>The timer of a file: one \<open>FFGetFrame\<close> on its context.\<close>

definition file_tick ::
  "nat \<Rightarrow> 'e ffmpeg \<Rightarrow> 'e \<Rightarrow> video_request \<Rightarrow> 'cb rtp_producer \<Rightarrow>
     ('cb rtp_producer \<times> 'e \<times> 'cb prod_out list) res option" where
  "file_tick fuel ff e video p =
     (case omap_find VideoRequest_less video (mFileVideoContextMap p) of
        None \<Rightarrow> Some (Inr (p, e, []))
      | Some c \<Rightarrow>
          if mpFileEvent c = None then Some (Inr (p, e, []))
          else case FFGetFrame fuel ff c e of
                 None \<Rightarrow> None
               | Some (Inl x) \<Rightarrow> Some (Inl x)
               | Some (Inr (c', e', outs)) \<Rightarrow>
                   Some (Inr (p\<lparr>mFileVideoContextMap :=
                       omap_set VideoRequest_less video c' (mFileVideoContextMap p)\<rparr>, e', outs)))"


section \<open>A camera\<close>

text \<open>\<open>pWeakContext.lock()\<close>, and writing to the object it gives.\<close>

definition lock_ctx :: "nat \<Rightarrow> 'cb rtp_producer \<Rightarrow> 'cb rtp_ctx option" where
  "lock_ctx i p = find (\<lambda>c. ctx_id c = i) (map snd (mRtpVideoContextMap p))"

definition put_ctx :: "'cb rtp_ctx \<Rightarrow> 'cb rtp_producer \<Rightarrow> 'cb rtp_producer" where
  "put_ctx c p = p\<lparr>mRtpVideoContextMap :=
     map (\<lambda>(k, c'). (k, if ctx_id c' = ctx_id c then c else c')) (mRtpVideoContextMap p)\<rparr>"

record gb_invite_response =
  peerInfo :: string
  frequency :: "32 word"
  gb_payload :: "32 word"
  encoding :: string

record invite_response =
  r_inviteId :: string
  gbInviteResponse :: "gb_invite_response option"

text \<open>Whether the RTP library could create the depacketizer, the encoder and the session.\<close>

record rtp_lib =
  rtp_demuxer_create :: bool
  rtp_payload_encode_create :: bool
  rtp_create :: bool

definition nl :: string where "nl = [CHR 0x0A]"

definition gb_sdp :: "string \<Rightarrow> gb_invite_response \<Rightarrow> string" where
  "gb_sdp camera gb =
     ''v=0'' @ nl @ ''o=- 0 0 IN IP4 127.0.0.1'' @ nl @ ''s=gb:'' @ camera @ nl
     @ ''c=IN IP4 127.0.0.1'' @ nl @ ''m=video 0 RTP/AVP '' @ fmt_nat (unat (gb_payload gb)) @ nl
     @ ''t=0 0'' @ nl
     @ ''a=rtpmap:'' @ fmt_nat (unat (gb_payload gb)) @ '' '' @ encoding gb @ ''/''
     @ fmt_nat (unat (frequency gb))"

text \<open>
  The callback of the invite, for the context \<open>i\<close> it was sent for. \<open>ok\<close> is the status of the call.
\<close>

definition on_invite_reply ::
  "mm_state \<Rightarrow> rtp_lib \<Rightarrow> nat \<Rightarrow> bool \<Rightarrow> invite_response \<Rightarrow> 'cb rtp_producer \<Rightarrow>
     ('cb rtp_producer \<times> 'cb prod_out list) res" where
  "on_invite_reply mm lib i ok resp p =
     (case lock_ctx i p of
        None \<Rightarrow> Inr (p, [])
      | Some ctx \<Rightarrow>
          let fail = [Err (processErrorFunc ctx) Invalid_argument] in
          if \<not> ok then Inr (p, fail)
          else case gbInviteResponse resp of
            None \<Rightarrow> Inr (p, fail)
          | Some gb \<Rightarrow>
              res_bind (deref (mConfig p)) (\<lambda>config.
              let bandwidth = int32 (max_bandwidth_in_mb config * 1024 * 1024) in
              res_bind (if encoding gb = ''H264''
                        then (case bandwidth of
                                None \<Rightarrow> Inl Undefined_behaviour
                              | Some b \<Rightarrow> if b < 0 then Inl (Runtime_error ''std::bad_array_new_length'')
                                           else Inr (Some b))
                        else Inr (payloadBuf ctx)) (\<lambda>buf.
              let ctx1 = ctx\<lparr>packet := True, payloadBuf := buf, inviteId := r_inviteId resp,
                             demuxer := rtp_demuxer_create lib\<rparr>;
                  ctx2 = ctx1\<lparr>payloadEncoder := rtp_payload_encode_create lib\<rparr>;
                  ctx3 = ctx2\<lparr>rtp := rtp_create lib\<rparr>
              in
              if \<not> demuxer ctx1 then Inr (put_ctx ctx1 p, fail)
              else if \<not> payloadEncoder ctx2 then Inr (put_ctx ctx2 p, fail)
              else if bandwidth = None then Inl Undefined_behaviour
              else
                res_bind (deref (mpNetworkServer p)) (\<lambda>ns.
                res_bind (registerPeer mm (peerInfo gb) i ns) (\<lambda>ns.
                Inr ((put_ctx ctx3 p)\<lparr>mpNetworkServer := Some ns\<rparr>,
                     [Sdp (processSdpFunc ctx) (gb_sdp (gbid (videoRequest ctx)) gb),
                      Rpc (SendAck (r_inviteId resp))]))))))"

text \<open>
  From a packet of the camera to the consumer. The depacketizer turns it into some number of
  payloads with time stamps, and \<open>RtpOnPacket\<close> gives each to the encoder, which asks for a buffer
  per RTP packet and hands it over (\<open>RtpPayloadFunc\<close>). Both are functions of their input here; the
  memory they keep between calls is in the choice of the function.
\<close>

definition rtp_alloc :: "nat \<Rightarrow> unit res" where
  "rtp_alloc sz = (if 1600 < sz then Inl Fatal else Inr ())"

definition rtp_packet :: "'cb rtp_ctx \<Rightarrow> bytes \<Rightarrow> 'cb prod_out list" where
  "rtp_packet ctx pkt = [Pkt (consumePktFunc ctx) pkt, Inc (pProducedCounter ctx) (length pkt)]"

fun encoder_packets :: "'cb rtp_ctx \<Rightarrow> bytes list \<Rightarrow> 'cb prod_out list res" where
  "encoder_packets ctx [] = Inr []"
| "encoder_packets ctx (pkt # pkts) =
     res_bind (rtp_alloc (length pkt)) (\<lambda>_.
     res_bind (encoder_packets ctx pkts) (\<lambda>outs.
     Inr (rtp_packet ctx pkt @ outs)))"

definition RtpOnPacket :: "(bytes \<Rightarrow> nat \<Rightarrow> bytes list) \<Rightarrow> 'cb rtp_ctx \<Rightarrow> bytes \<times> nat \<Rightarrow>
    'cb prod_out list res" where
  "RtpOnPacket enc ctx = (\<lambda>(unit, timestamp).
     res_bind (case payloadBuf ctx of
                 Some sz \<Rightarrow> if int (length unit) + 3 \<le> sz then Inr ([0, 0, 1] @ unit)
                            else Inl Undefined_behaviour
               | None \<Rightarrow> Inr unit) (\<lambda>input.
     res_bind (encoder_packets ctx (enc input timestamp)) (\<lambda>outs.
     Inr (Inc (pRemuxCounter ctx) (length unit) # outs))))"

fun demuxed_units :: "(bytes \<Rightarrow> nat \<Rightarrow> bytes list) \<Rightarrow> 'cb rtp_ctx \<Rightarrow> (bytes \<times> nat) list \<Rightarrow>
    'cb prod_out list res" where
  "demuxed_units enc ctx [] = Inr []"
| "demuxed_units enc ctx (u # us) =
     res_bind (RtpOnPacket enc ctx u) (\<lambda>outs.
     res_bind (demuxed_units enc ctx us) (\<lambda>outs'.
     Inr (outs @ outs')))"

text \<open>The function registered with the network server for the peer of context \<open>i\<close>.\<close>

definition on_peer_packet ::
  "(bytes \<Rightarrow> (bytes \<times> nat) list) \<Rightarrow> (bytes \<Rightarrow> nat \<Rightarrow> bytes list) \<Rightarrow> nat \<Rightarrow> bytes \<Rightarrow>
     'cb rtp_producer \<Rightarrow> 'cb prod_out list res" where
  "on_peer_packet demux enc i pkt p =
     (case lock_ctx i p of
        None \<Rightarrow> Inr []
      | Some ctx \<Rightarrow>
          if \<not> demuxer ctx then Inl Undefined_behaviour
          else res_bind (demuxed_units enc ctx (demux pkt)) (\<lambda>outs.
               Inr (Inc (pDemuxCounter ctx) (length pkt) # outs)))"

section \<open>Runs\<close>

text \<open>
  The operations of a producer, in any order: calls of its two methods, the answers of the
  gateway, packets of cameras, the sections of the probe, and timers.
\<close>

inductive prod_step :: "mm_state \<Rightarrow> 'cb rtp_producer \<Rightarrow> 'cb prod_out list \<Rightarrow> 'cb rtp_producer \<Rightarrow> bool"
  for mm where
  register: "RegisterVideo mm mem video sdpF pktF errF p = Inr (p', outs) \<Longrightarrow> prod_step mm p outs p'"
| unregister: "UnregisterVideo video p = Inr (p', outs) \<Longrightarrow> prod_step mm p outs p'"
| invite: "on_invite_reply mm lib i ok resp p = Inr (p', outs) \<Longrightarrow> prod_step mm p outs p'"
| packet: "on_peer_packet demux enc i pkt p = Inr outs \<Longrightarrow> prod_step mm p outs p"
| probe: "RegisterFileVideo_probe video sdpF pr p = Inr (returned, ret, p', outs) \<Longrightarrow> prod_step mm p outs p'"
| report: "RegisterFileVideo_report video p = Inr outs \<Longrightarrow> prod_step mm p outs p"
| erase: "RegisterFileVideo_erase video p = Inr p' \<Longrightarrow> prod_step mm p [] p'"
| timer: "file_tick fuel ff (e :: nat) video p = Some (Inr (p', e', outs)) \<Longrightarrow> prod_step mm p outs p'"

inductive prod_run :: "mm_state \<Rightarrow> 'cb rtp_producer \<Rightarrow> 'cb prod_out list \<Rightarrow> 'cb rtp_producer \<Rightarrow> bool"
  for mm p where
  start: "prod_run mm p [] p"
| step: "prod_run mm p outs q \<Longrightarrow> prod_step mm q outs' r \<Longrightarrow> prod_run mm p (outs @ outs') r"

inductive_cases prod_stepE: "prod_step mm p outs p'"


section \<open>The invariant\<close>

text \<open>
  The maps are ordered, a context is filed under its own request, and no two cameras ever share
  an identity: identities are below \<open>next_ctx\<close>, which only grows.
\<close>

definition ctx_ids :: "'cb rtp_producer \<Rightarrow> nat list" where
  "ctx_ids p = map (ctx_id \<circ> snd) (mRtpVideoContextMap p)"

definition prod_ok :: "'cb rtp_producer \<Rightarrow> bool" where
  "prod_ok p \<longleftrightarrow>
     omap_ok VideoRequest_less (mRtpVideoContextMap p) \<and>
     omap_ok VideoRequest_less (mFileVideoContextMap p) \<and>
     (\<forall>(k, c) \<in> set (mRtpVideoContextMap p). videoRequest c = k \<and> use_gb k \<and> \<not> use_file k) \<and>
     (\<forall>(k, c) \<in> set (mFileVideoContextMap p). f_videoRequest c = k \<and> use_file k) \<and>
     distinct (ctx_ids p) \<and> (\<forall>i \<in> set (ctx_ids p). i < next_ctx p)"

text \<open>What a step does to identities: none comes back.\<close>

definition grows :: "'cb rtp_producer \<Rightarrow> 'cb rtp_producer \<Rightarrow> bool" where
  "grows p p' \<longleftrightarrow> next_ctx p \<le> next_ctx p' \<and>
     (\<forall>i \<in> set (ctx_ids p'). i < next_ctx p \<longrightarrow> i \<in> set (ctx_ids p))"

lemma grows_refl [simp]: "grows p p"
  by (simp add: grows_def)

lemma grows_trans: "grows p q \<Longrightarrow> grows q r \<Longrightarrow> grows p r"
  by (auto simp: grows_def)

lemma lock_ctx_None: "lock_ctx i p = None \<longleftrightarrow> i \<notin> set (ctx_ids p)"
  by (auto simp: lock_ctx_def ctx_ids_def find_None_iff)

lemma lock_ctx_SomeD:
  assumes "lock_ctx i p = Some c"
  shows "ctx_id c = i" "\<exists>k. (k, c) \<in> set (mRtpVideoContextMap p)"
  using assms by (auto simp: lock_ctx_def find_Some_iff in_set_conv_nth) (metis nth_mem prod.collapse)

lemma lock_ctx_eqI:
  assumes "(k, c) \<in> set (mRtpVideoContextMap p)" "distinct (ctx_ids p)"
  shows "lock_ctx (ctx_id c) p = Some c"
proof -
  from assms(1) obtain c' where c': "lock_ctx (ctx_id c) p = Some c'"
    by (cases "lock_ctx (ctx_id c) p") (force simp: lock_ctx_None ctx_ids_def)+
  then obtain k' where "(k', c') \<in> set (mRtpVideoContextMap p)" "ctx_id c' = ctx_id c"
    using lock_ctx_SomeD by blast
  moreover have "inj_on (ctx_id \<circ> snd) (set (mRtpVideoContextMap p))"
    using assms(2) by (simp add: ctx_ids_def distinct_map)
  ultimately have "(k', c') = (k, c)"
    using inj_onD [of "ctx_id \<circ> snd" _ "(k', c')" "(k, c)"] assms(1) by simp
  with c' show ?thesis by simp
qed

lemma map_erase_sub: "set (map f (omap_erase lt k m)) \<subseteq> set (map f m)"
  by (induction lt k m rule: omap_erase.induct) auto

lemma distinct_map_erase: "distinct (map f m) \<Longrightarrow> distinct (map f (omap_erase lt k m))"
proof (induction lt k m rule: omap_erase.induct)
  case (2 lt k k' v' m)
  then show ?case using map_erase_sub [of f lt k m] by auto
qed simp

lemma map_set_sub: "x \<in> set (map (f \<circ> snd) (omap_set lt k v m)) \<Longrightarrow> x = f v \<or> x \<in> set (map (f \<circ> snd) m)"
  by (induction lt k v m rule: omap_set.induct) (auto split: if_splits)

lemma distinct_map_set:
  assumes "distinct (map (f \<circ> snd) m)" "f v \<notin> set (map (f \<circ> snd) m)"
  shows "distinct (map (f \<circ> snd) (omap_set lt k v m))"
  using assms
proof (induction m)
  case (Cons e m)
  obtain k' v' where e: "e = (k', v')" by force
  have "f v' \<notin> set (map (f \<circ> snd) (omap_set lt k v m))"
  proof
    assume "f v' \<in> set (map (f \<circ> snd) (omap_set lt k v m))"
    from map_set_sub [OF this] Cons.prems e show False by auto
  qed
  with Cons e show ?case by simp
qed simp

lemma prod_ok_erase_gb:
  assumes "prod_ok p"
  shows "prod_ok (p\<lparr>mRtpVideoContextMap := omap_erase VideoRequest_less video (mRtpVideoContextMap p)\<rparr>)"
    "grows p (p\<lparr>mRtpVideoContextMap := omap_erase VideoRequest_less video (mRtpVideoContextMap p)\<rparr>)"
  using assms map_erase_sub [of "ctx_id \<circ> snd" VideoRequest_less video "mRtpVideoContextMap p"]
    vr.set_erase_subset [of video "mRtpVideoContextMap p"]
  by (auto simp: prod_ok_def grows_def ctx_ids_def distinct_map_erase)

lemma prod_ok_add_gb:
  assumes "prod_ok p" "ctx_id c = next_ctx p" "videoRequest c = video" "use_gb video" "\<not> use_file video"
    "omap_find VideoRequest_less video (mRtpVideoContextMap p) = None"
  shows "prod_ok (p\<lparr>mRtpVideoContextMap := omap_set VideoRequest_less video c (mRtpVideoContextMap p),
      next_ctx := Suc (next_ctx p)\<rparr>)"
    "grows p (p\<lparr>mRtpVideoContextMap := omap_set VideoRequest_less video c (mRtpVideoContextMap p),
      next_ctx := Suc (next_ctx p)\<rparr>)"
proof -
  let ?m = "mRtpVideoContextMap p"
  have ok: "omap_ok VideoRequest_less ?m" and d: "distinct (map (ctx_id \<circ> snd) ?m)"
    and lt: "\<forall>i \<in> set (map (ctx_id \<circ> snd) ?m). i < next_ctx p"
    using assms(1) by (auto simp: prod_ok_def ctx_ids_def)
  have fresh: "ctx_id c \<notin> set (map (ctx_id \<circ> snd) ?m)"
    using lt assms(2) by auto
  note sub = map_set_sub [of _ ctx_id VideoRequest_less video c ?m]
  have ids: "\<forall>i \<in> set (map (ctx_id \<circ> snd) (omap_set VideoRequest_less video c ?m)). i < Suc (next_ctx p)"
    using sub lt assms(2) by fastforce
  show "prod_ok (p\<lparr>mRtpVideoContextMap := omap_set VideoRequest_less video c ?m, next_ctx := Suc (next_ctx p)\<rparr>)"
    using assms ok ids distinct_map_set [OF d fresh, of VideoRequest_less video]
    by (auto simp: prod_ok_def ctx_ids_def vr.set_set_absent [OF assms(6) ok])
  show "grows p (p\<lparr>mRtpVideoContextMap := omap_set VideoRequest_less video c ?m, next_ctx := Suc (next_ctx p)\<rparr>)"
    using sub assms(2) by (fastforce simp: grows_def ctx_ids_def)
qed

lemma put_ctx_ids [simp]: "ctx_ids (put_ctx c p) = ctx_ids p"
  by (auto simp: ctx_ids_def put_ctx_def)

lemma put_ctx_other [simp]:
  "mFileVideoContextMap (put_ctx c p) = mFileVideoContextMap p" "next_ctx (put_ctx c p) = next_ctx p"
  "mpNetworkServer (put_ctx c p) = mpNetworkServer p" "mConfig (put_ctx c p) = mConfig p"
  by (simp_all add: put_ctx_def)

lemma omap_ok_keys: "map fst m = map fst m' \<Longrightarrow> omap_ok lt m \<longleftrightarrow> omap_ok lt m'"
  by (simp add: omap_ok_def sorted_wrt_map [of lt fst, symmetric])

lemma put_ctx_omap: "omap_ok lt (mRtpVideoContextMap (put_ctx c p)) \<longleftrightarrow> omap_ok lt (mRtpVideoContextMap p)"
  by (rule omap_ok_keys) (simp add: put_ctx_def case_prod_beta comp_def)


lemma prod_ok_put_ctx:
  assumes "prod_ok p" "lock_ctx (ctx_id c) p = Some c0" "videoRequest c = videoRequest c0"
  shows "prod_ok (put_ctx c p)" "grows p (put_ctx c p)"
proof -
  have "videoRequest c = k" if "(k, c') \<in> set (mRtpVideoContextMap p)" "ctx_id c' = ctx_id c" for k c'
    using lock_ctx_eqI [OF that(1)] that assms by (auto simp: prod_ok_def)
  with assms(1) show "prod_ok (put_ctx c p)"
    unfolding prod_ok_def put_ctx_ids put_ctx_omap put_ctx_other
    by (fastforce simp: put_ctx_def)
  show "grows p (put_ctx c p)" by (simp add: grows_def)
qed

lemma prod_ok_set_file:
  assumes "prod_ok p" "omap_find VideoRequest_less video (mFileVideoContextMap p) = Some c0"
    "f_videoRequest c = f_videoRequest c0"
  shows "prod_ok (p\<lparr>mFileVideoContextMap := omap_set VideoRequest_less video c (mFileVideoContextMap p)\<rparr>)"
proof -
  have ok: "omap_ok VideoRequest_less (mFileVideoContextMap p)" using assms(1) by (simp add: prod_ok_def)
  show ?thesis
    using assms by (fastforce simp: prod_ok_def ctx_ids_def vr.set_set_present [OF ok assms(2)])
qed

lemma prod_ok_add_file:
  assumes "prod_ok p" "omap_find VideoRequest_less video (mFileVideoContextMap p) = None"
    "f_videoRequest c = video" "use_file video"
  shows "prod_ok (p\<lparr>mFileVideoContextMap := omap_set VideoRequest_less video c (mFileVideoContextMap p)\<rparr>)"
proof -
  have ok: "omap_ok VideoRequest_less (mFileVideoContextMap p)" using assms(1) by (simp add: prod_ok_def)
  show ?thesis
    using assms by (auto simp: prod_ok_def ctx_ids_def vr.set_set_absent [OF assms(2) ok])
qed

lemma prod_ok_erase_file:
  assumes "prod_ok p"
  shows "prod_ok (p\<lparr>mFileVideoContextMap := omap_erase VideoRequest_less video (mFileVideoContextMap p)\<rparr>)"
  using assms vr.set_erase_subset [of video "mFileVideoContextMap p"]
  by (auto simp: prod_ok_def ctx_ids_def)

lemma prod_ok_other [simp]:
  "prod_ok (p\<lparr>mEventBaseCursor := x\<rparr>) = prod_ok p" "prod_ok (p\<lparr>mpFileIoThreadPool := pool\<rparr>) = prod_ok p"
  "prod_ok (p\<lparr>mpNetworkServer := ns\<rparr>) = prod_ok p"
  by (simp_all add: prod_ok_def ctx_ids_def)

lemma grows_other [simp]:
  "grows p (q\<lparr>mEventBaseCursor := x\<rparr>) = grows p q" "grows p (q\<lparr>mpFileIoThreadPool := pool\<rparr>) = grows p q"
  "grows p (q\<lparr>mpNetworkServer := ns\<rparr>) = grows p q" "grows p (q\<lparr>mFileVideoContextMap := m\<rparr>) = grows p q"
  by (simp_all add: grows_def ctx_ids_def)

lemma RtpVideoContext_fields:
  assumes "RtpVideoContext mm i video sdpF pktF errF = Inr c"
  shows "ctx_id c = i" "videoRequest c = video" "inviteId c = []" "\<not> demuxer c" "processSdpFunc c = sdpF"
    "consumePktFunc c = pktF" "processErrorFunc c = errF" "payloadBuf c = None"
  using assms by (auto simp: RtpVideoContext_def res_bind_Inr_iff Let_def)

lemma RegisterVideo_keeps [keeps]:
  assumes "RegisterVideo mm mem video sdpF pktF errF p = Inr (p', outs)" "prod_ok p"
  shows "prod_ok p' \<and> grows p p'"
proof -
  have added: "prod_ok (p\<lparr>mFileVideoContextMap :=
      omap_set VideoRequest_less video (FileVideoContext mem video pktF errF) (mFileVideoContextMap p),
      mpFileIoThreadPool := pool\<rparr>)"
    if "use_file video" "omap_find VideoRequest_less video (mFileVideoContextMap p) = None" for pool
    using prod_ok_add_file [OF assms(2) that(2) _ that(1)] by (simp add: FileVideoContext_def)
  show ?thesis
    using assms added
    by (auto simp: RegisterVideo_def res_bind_Inr_iff deref_def RtpVideoContext_fields
        intro!: prod_ok_add_gb split: if_splits option.splits)
qed

lemma UnregisterVideo_keeps [keeps]:
  assumes "UnregisterVideo video p = Inr (p', outs)" "prod_ok p"
  shows "prod_ok p' \<and> grows p p'"
  using assms
  by (auto simp: UnregisterVideo_def res_bind_Inr_iff intro: prod_ok_erase_gb prod_ok_erase_file
      split: if_splits option.splits)

lemma on_invite_reply_keeps [keeps]:
  assumes "on_invite_reply mm lib i ok resp p = Inr (p', outs)" "prod_ok p"
  shows "prod_ok p' \<and> grows p p'"
proof (cases "lock_ctx i p")
  case None
  with assms show ?thesis by (simp add: on_invite_reply_def)
next
  case (Some c)
  then have "ctx_id c = i" by (rule lock_ctx_SomeD)
  with Some have put: "prod_ok (put_ctx c' p) \<and> grows p (put_ctx c' p)"
    if "ctx_id c' = ctx_id c" "videoRequest c' = videoRequest c" for c'
    using prod_ok_put_ctx [OF assms(2), of c' c] that by simp
  from assms Some show ?thesis
    by (auto simp: on_invite_reply_def res_bind_Inr_iff Let_def put split: if_splits option.splits)
qed

lemma RegisterFileVideo_probe_keeps [keeps]:
  assumes "RegisterFileVideo_probe video sdpF pr p = Inr (returned, ret, p', outs)" "prod_ok p"
  shows "prod_ok p' \<and> grows p p'"
  using assms
  by (auto simp: RegisterFileVideo_probe_def Let_def prod_ok_set_file split: if_splits option.splits)

lemma RegisterFileVideo_erase_keeps [keeps]:
  assumes "RegisterFileVideo_erase video p = Inr p'" "prod_ok p"
  shows "prod_ok p' \<and> grows p p'"
  using assms by (auto simp: RegisterFileVideo_erase_def res_bind_Inr_iff intro: prod_ok_erase_file)


lemma FFGetFrame_video:
  assumes "FFGetFrame fuel ff c e = Some (Inr (c', e', outs))"
  shows "f_videoRequest c' = f_videoRequest c"
proof (cases "f_error c = 0")
  case True
  have pass: "f_videoRequest (p_ctx q) = f_videoRequest c" if "frame_pass ff c e0 = Inr q" for e0 q
    using that by (auto simp: frame_pass_def Let_def fix_timestamps_def split: prod.splits option.splits if_splits)
  from assms True obtain q where q: "frame_loop fuel ff c e = Some (Inr q)"
    and c': "c' = p_ctx q \<or> c' = (p_ctx q)\<lparr>f_error := p_ret q\<rparr>"
    by (auto simp: FFGetFrame_def split: option.splits sum.splits if_splits)
  then show ?thesis using frame_loop_last [OF q] pass by fastforce
qed (use assms in \<open>simp add: FFGetFrame_def\<close>)

lemma file_tick_keeps [keeps]:
  assumes "file_tick fuel ff e video p = Some (Inr (p', e', outs))" "prod_ok p"
  shows "prod_ok p' \<and> grows p p'"
  using assms FFGetFrame_video
  by (auto simp: file_tick_def intro!: prod_ok_set_file split: option.splits sum.splits if_splits)

lemma prod_step_keeps [keeps]:
  assumes "prod_step mm p outs p'" "prod_ok p"
  shows "prod_ok p' \<and> grows p p'"
  using assms(1)
  by cases (use assms(2) in \<open>auto dest: keeps\<close>)

lemma prod_run_keeps:
  "prod_run mm p outs p' \<Longrightarrow> prod_ok p \<Longrightarrow> prod_ok p' \<and> grows p p'"
  by (induction rule: prod_run.induct) (auto dest: prod_step_keeps intro: grows_trans)

lemma start_file_loops_res:
  "start_file_loops sys n p = Inr p' \<Longrightarrow> p' = p\<lparr>mFileIoBases := mFileIoBases p + n\<rparr>"
proof (induction n arbitrary: p)
  case (Suc n)
  from Suc.IH [of "p\<lparr>mFileIoBases := mFileIoBases p + 1\<rparr>"] Suc.prems show ?case
    by (simp split: if_splits)
qed simp

lemma RtpProducer_Init_res:
  assumes "RtpProducer_Init use_pthreads sys hc config ns RtpProducer = Inr p"
  shows "\<exists>n. p = RtpProducer\<lparr>mpNetworkServer := Some ns, mConfig := Some config, mFileIoBases := n,
    mpFileIoThreadPool := Some (ThreadPool n), mpGrpcClient := True\<rparr>"
  using assms start_file_loops_res
  by (fastforce simp: RtpProducer_Init_def res_bind_Inr_iff Let_def RtpProducer_def split: if_splits)

lemma prod_ok_Init:
  assumes "RtpProducer_Init use_pthreads sys hc config ns RtpProducer = Inr p"
  shows "prod_ok p"
  using RtpProducer_Init_res [OF assms] by (auto simp: prod_ok_def RtpProducer_def ctx_ids_def)

text \<open>
  After its initialisation a producer keeps its invariant whatever is registered,
  unregistered, answered, received, probed and played, in any order: both maps stay ordered,
  every context is filed under the request it was made for and in the map of its kind, and
  the identities of cameras are never shared.
\<close>

theorem producer_invariant:
  assumes "RtpProducer_Init use_pthreads sys hc config ns RtpProducer = Inr p"
    and "prod_run mm p outs q"
  shows "prod_ok q"
  using prod_run_keeps [OF assms(2) prod_ok_Init [OF assms(1)]] by blast

text \<open>The producer of the examples: one file thread, metrics up, and one camera.\<close>

definition demo_config :: prod_config where
  "demo_config = \<lparr>file_event_thread_num = 1, network_receive_host = ''10.0.0.2:8086'',
     sipper_host = ''10.0.0.3:8087'', rtp_jitter_in_ms = 100, max_bandwidth_in_mb = 4,
     rpc_timeout_in_ms = 3000\<rparr>"

definition demo_mm :: mm_state where
  "demo_mm = mm_up \<lparr>exposer_port = 8844, family_prefix = ''ffvms'', endpoint_uri = ''''\<rparr>"

definition demo_camera :: video_request where
  "demo_camera = VideoRequest\<lparr>use_gb := True, gbid := ''demo1''\<rparr>"

definition demo_file :: video_request where
  "demo_file = VideoRequest\<lparr>use_file := True, filename := ''/a.mp4''\<rparr>"

text \<open>Its network server has one event loop and no workers.\<close>

definition demo_ns :: "nat network_server" where
  "demo_ns = NetworkServer\<lparr>mpUdpWorkers := 1, mBufferSize := Some 20971520, nReceiveBuffers := 2\<rparr>"

definition demo_producer :: "nat rtp_producer" where
  "demo_producer = RtpProducer\<lparr>mpNetworkServer := Some demo_ns, mConfig := Some demo_config,
     mFileIoBases := 1, mpFileIoThreadPool := Some (ThreadPool 1), mpGrpcClient := True\<rparr>"

definition demo_reply :: invite_response where
  "demo_reply = \<lparr>r_inviteId = ''inv1'', gbInviteResponse =
     Some \<lparr>peerInfo = ''10.0.0.9:5000'', frequency = 90000, gb_payload = 96, encoding = ''H264''\<rparr>\<rparr>"

lemmas demo_prod_defs = demo_config_def demo_mm_def demo_camera_def demo_file_def demo_producer_def
  demo_reply_def RtpProducer_def VideoRequest_def

lemma demo_Init:
  "RtpProducer_Init 0 (\<lambda>_. \<lparr>fl_event_base_new = True, fl_event_new = True, fl_event_add = 0\<rparr>) 4
     demo_config demo_ns RtpProducer = Inr demo_producer"
  by (simp add: RtpProducer_Init_def demo_prod_defs)

definition demo_gb :: "nat rtp_ctx" where
  "demo_gb = projr (RtpVideoContext demo_mm 0 demo_camera 1 2 3)"

definition demo_invited :: "nat rtp_producer" where
  "demo_invited = demo_producer\<lparr>mRtpVideoContextMap := [(demo_camera, demo_gb)], next_ctx := 1\<rparr>"

lemma RtpVideoContext_ready:
  "spInstance mm = Some m \<Longrightarrow> \<exists>c. RtpVideoContext mm i video sdpF pktF errF = Inr c"
  by (simp add: RtpVideoContext_def MMAddCounter_ready AddCounter_def Let_def)

lemma demo_gb_ctx: "RtpVideoContext demo_mm 0 demo_camera 1 2 3 = Inr demo_gb"
proof -
  obtain c where "RtpVideoContext demo_mm 0 demo_camera (1 :: nat) 2 3 = Inr c"
    unfolding demo_mm_def by (metis RtpVideoContext_ready mm_up_instance)
  then show ?thesis by (simp only: demo_gb_def sum.sel)
qed

lemmas demo_gb_fields [simp] = RtpVideoContext_fields [OF demo_gb_ctx]

lemma demo_register:
  "RegisterVideo demo_mm (Null, Null) demo_camera 1 2 3 demo_producer =
     Inr (demo_invited, [Rpc (InviteVideo 0 ''demo1'' ''10.0.0.2:8086'' UDP 3000)])"
  using demo_gb_ctx by (simp add: RegisterVideo_def demo_invited_def demo_prod_defs deref_def)

theorem producer_invariant_witness: "prod_ok demo_invited \<and> ctx_ids demo_invited = [0]"
proof -
  have "prod_run demo_mm demo_producer ([] @ [Rpc (InviteVideo 0 ''demo1'' ''10.0.0.2:8086'' UDP 3000)]) demo_invited"
    by (rule prod_run.step [OF prod_run.start prod_step.register [OF demo_register]])
  from producer_invariant [OF demo_Init this] show ?thesis
    by (simp add: ctx_ids_def demo_invited_def)
qed


lemma prod_okD:
  assumes "prod_ok p"
  shows "omap_ok VideoRequest_less (mRtpVideoContextMap p)" "omap_ok VideoRequest_less (mFileVideoContextMap p)"
    "distinct (ctx_ids p)" "i \<in> set (ctx_ids p) \<Longrightarrow> i < next_ctx p"
    "(k, c) \<in> set (mRtpVideoContextMap p) \<Longrightarrow> videoRequest c = k"
    "(k, f) \<in> set (mFileVideoContextMap p) \<Longrightarrow> f_videoRequest f = k"
  using assms unfolding prod_ok_def by (blast, blast, blast, blast, blast, blast)

text \<open>
  C7: An unregistered camera is silent for ever. Whatever the producer does afterwards, also
  registering the same camera again, the identity of the old context never locks again: a late
  answer of the gateway changes nothing and calls nothing, and neither does a late packet.
\<close>

theorem unregistered_silent:
  assumes "prod_ok p" and "omap_find VideoRequest_less video (mRtpVideoContextMap p) = Some ctx"
    and "use_gb video" and "\<not> use_file video"
    and "UnregisterVideo video p = Inr (p1, outs1)" and "prod_run mm p1 outs q"
  shows "on_invite_reply mm lib (ctx_id ctx) ok resp q = Inr (q, []) \<and>
    on_peer_packet demux enc (ctx_id ctx) pkt q = Inr []"
proof -
  have p1: "p1 = p\<lparr>mRtpVideoContextMap := omap_erase VideoRequest_less video (mRtpVideoContextMap p)\<rparr>"
    using assms(3-5) by (auto simp: UnregisterVideo_def)
  note ok = prod_okD(1) [OF assms(1)]
  obtain k where k: "same_key VideoRequest_less video k" "(k, ctx) \<in> set (mRtpVideoContextMap p)"
    using assms(2) vr.find_Some_iff [OF ok, of video ctx] by auto
  have "ctx_id ctx \<notin> set (ctx_ids p1)"
  proof
    assume "ctx_id ctx \<in> set (ctx_ids p1)"
    then obtain k' c' where c': "(k', c') \<in> set (mRtpVideoContextMap p1)" "ctx_id c' = ctx_id ctx"
      by (auto simp: ctx_ids_def)
    then have mem: "(k', c') \<in> set (mRtpVideoContextMap p)" "\<not> same_key VideoRequest_less video k'"
      by (auto simp: p1 vr.set_erase [OF ok])
    note d = prod_okD(3) [OF assms(1)]
    have "Some c' = Some ctx"
      using lock_ctx_eqI [OF mem(1) d] lock_ctx_eqI [OF k(2) d] unfolding c'(2) by (rule trans [OF sym])
    then show False using mem(2) k(1) prod_okD(5) [OF assms(1) mem(1)] prod_okD(5) [OF assms(1) k(2)] by simp
  qed
  moreover have "ctx_id ctx \<in> set (ctx_ids p)"
    using k(2) by (force simp: ctx_ids_def)
  then have "ctx_id ctx < next_ctx p1"
    using prod_okD(4) [OF assms(1)] by (simp add: p1)
  moreover have "prod_ok q \<and> grows p1 q"
    using prod_run_keeps [OF assms(6)] UnregisterVideo_keeps [OF assms(5,1)] by blast
  ultimately have "lock_ctx (ctx_id ctx) q = None"
    by (auto simp: lock_ctx_None grows_def)
  then show ?thesis by (simp add: on_invite_reply_def on_peer_packet_def)
qed

lemma demo_invited_ok: "prod_ok demo_invited"
  by (simp add: prod_ok_def demo_invited_def demo_prod_defs ctx_ids_def omap_ok_def)

lemma demo_invited_find: "omap_find VideoRequest_less demo_camera (mRtpVideoContextMap demo_invited) = Some demo_gb"
  by (simp add: demo_invited_def vr.irrefl)

lemma demo_unregister:
  "UnregisterVideo demo_camera demo_invited = Inr (demo_invited\<lparr>mRtpVideoContextMap := []\<rparr>, [])"
  by (simp add: UnregisterVideo_def demo_invited_find) (simp add: demo_invited_def demo_prod_defs vr.irrefl)

theorem unregistered_silent_witness:
  "on_invite_reply demo_mm \<lparr>rtp_demuxer_create = True, rtp_payload_encode_create = True, rtp_create = True\<rparr>
     0 True demo_reply (demo_invited\<lparr>mRtpVideoContextMap := []\<rparr>) =
     Inr (demo_invited\<lparr>mRtpVideoContextMap := []\<rparr>, [])"
proof -
  have "use_gb demo_camera" "\<not> use_file demo_camera" by (simp_all add: demo_prod_defs)
  from unregistered_silent [OF demo_invited_ok demo_invited_find this demo_unregister prod_run.start]
  show ?thesis by simp
qed

subsection \<open>Peers\<close>

definition peer_of :: "'cb rtp_producer \<Rightarrow> string \<Rightarrow> nat option" where
  "peer_of p nm = (case mpNetworkServer p of None \<Rightarrow> None | Some ns \<Rightarrow> peers_look ns nm)"

lemma registerPeer_stays:
  assumes "registerPeer mm n j ns = Inr ns'" "peers_look ns nm = Some i"
  shows "peers_look ns' nm = Some i"
proof (cases "omap_find string_less n (mRegisteredPeers ns)")
  case None
  have "\<not> same_key string_less n nm"
    using None assms(2) strs.find_same [of n nm "mRegisteredPeers ns"] by (auto simp: peers_look_def)
  with assms None show ?thesis
    by (auto simp: registerPeer_def peers_look_def res_bind_Inr_iff strs.find_set)
qed (use assms in \<open>auto simp: registerPeer_def\<close>)

lemma same_server:
  "RegisterVideo mm mem video sdpF pktF errF p = Inr (p', outs) \<Longrightarrow> mpNetworkServer p' = mpNetworkServer p"
  "UnregisterVideo video p = Inr (p', outs) \<Longrightarrow> mpNetworkServer p' = mpNetworkServer p"
  "RegisterFileVideo_erase video p = Inr p' \<Longrightarrow> mpNetworkServer p' = mpNetworkServer p"
  by (auto simp: RegisterVideo_def UnregisterVideo_def RegisterFileVideo_erase_def res_bind_Inr_iff
      split: if_splits)

lemma same_server_probe:
  "RegisterFileVideo_probe video sdpF pr p = Inr (returned, ret, p', outs) \<Longrightarrow> mpNetworkServer p' = mpNetworkServer p"
  by (auto simp: RegisterFileVideo_probe_def Let_def split: if_splits option.splits)

lemma same_server_tick:
  "file_tick fuel ff e video p = Some (Inr (p', e', outs)) \<Longrightarrow> mpNetworkServer p' = mpNetworkServer p"
  by (auto simp: file_tick_def split: if_splits option.splits sum.splits)

lemma invite_server:
  assumes "on_invite_reply mm lib i ok resp p = Inr (p', outs)"
  shows "mpNetworkServer p' = mpNetworkServer p \<or>
    (\<exists>n ns ns'. registerPeer mm n i ns = Inr ns' \<and> mpNetworkServer p = Some ns \<and> mpNetworkServer p' = Some ns')"
  using assms
  by (auto simp: on_invite_reply_def Let_def deref_def res_bind_Inr_iff split: option.splits if_splits)

lemma prod_step_peer_stays:
  assumes "prod_step mm p outs p'" "peer_of p nm = Some i"
  shows "peer_of p' nm = Some i"
proof -
  from assms(1) consider "mpNetworkServer p' = mpNetworkServer p"
    | n j ns ns' where "registerPeer mm n j ns = Inr ns'" "mpNetworkServer p = Some ns" "mpNetworkServer p' = Some ns'"
    by cases (use same_server same_server_probe same_server_tick invite_server in \<open>metis+\<close>)
  then show ?thesis
  proof cases
    case 2
    with assms(2) registerPeer_stays [OF 2(1)] show ?thesis by (simp add: peer_of_def)
  qed (use assms(2) in \<open>simp add: peer_of_def\<close>)
qed

lemma prod_run_peer_stays: "prod_run mm p outs q \<Longrightarrow> peer_of p nm = Some i \<Longrightarrow> peer_of q nm = Some i"
  by (induction rule: prod_run.induct) (auto intro: prod_step_peer_stays)


text \<open>
  A peer stays bound to the first context that was registered for it: the producer never
  calls \<open>unRegisterPeer\<close>, and a second registration of the same peer is ignored. So once a camera
  has been unregistered, every later packet of its address goes to the dead context and is
  dropped, also when the camera has been invited again meanwhile and streams from the same
  address: the new viewers never get a picture.
\<close>

theorem peer_lost_after_unregister:
  assumes "prod_ok p" and "lock_ctx i p = Some ctx" and "peer_of p nm = Some i"
    and "UnregisterVideo (videoRequest ctx) p = Inr (p1, outs1)" and "prod_run mm p1 outs q"
  shows "peer_of q nm = Some i \<and> on_peer_packet demux enc i pkt q = Inr []"
proof -
  obtain k where k: "(k, ctx) \<in> set (mRtpVideoContextMap p)" and i: "ctx_id ctx = i"
    using lock_ctx_SomeD [OF assms(2)] by blast
  have vid: "videoRequest ctx = k" using prod_okD(5) [OF assms(1) k] .
  have gb: "use_gb k" "\<not> use_file k" using assms(1) k unfolding prod_ok_def by blast+
  have p1: "p1 = p\<lparr>mRtpVideoContextMap := omap_erase VideoRequest_less k (mRtpVideoContextMap p)\<rparr>"
    using assms(4) gb vid by (simp add: UnregisterVideo_def)
  have "c' \<noteq> ctx" if "(k', c') \<in> set (mRtpVideoContextMap p1)" for k' c'
  proof
    assume "c' = ctx"
    moreover have "(k', c') \<in> set (mRtpVideoContextMap p)" "\<not> same_key VideoRequest_less k k'"
      using that by (auto simp: p1 vr.set_erase [OF prod_okD(1) [OF assms(1)]])
    ultimately show False using prod_okD(5) [OF assms(1)] vid vr.same_refl by blast
  qed
  moreover have "c' = ctx" if "(k', c') \<in> set (mRtpVideoContextMap p)" "ctx_id c' = i" for k' c'
    using lock_ctx_eqI [OF that(1) prod_okD(3) [OF assms(1)]] assms(2) that(2) by simp
  moreover have "set (mRtpVideoContextMap p1) \<subseteq> set (mRtpVideoContextMap p)"
    unfolding p1 using vr.set_erase_subset by simp
  ultimately have "i \<notin> set (ctx_ids p1)"
    by (auto simp: ctx_ids_def) blast
  moreover have "i \<in> set (ctx_ids p)" using k i by (force simp: ctx_ids_def)
  then have "i < next_ctx p1" using prod_okD(4) [OF assms(1)] by (simp add: p1)
  moreover have "grows p1 q"
    using prod_run_keeps [OF assms(5)] UnregisterVideo_keeps [OF assms(4,1)] by blast
  ultimately have "lock_ctx i q = None" by (auto simp: lock_ctx_None grows_def)
  moreover have "peer_of q nm = Some i"
    by (rule prod_run_peer_stays [OF assms(5)]) (use assms(3) in \<open>simp add: peer_of_def p1\<close>)
  ultimately show ?thesis by (simp add: on_peer_packet_def)
qed

subsection \<open>The answer of the gateway\<close>

text \<open>A library that works, and the state after the answer of the gateway has arrived.\<close>

definition lib_ok :: rtp_lib where
  "lib_ok = \<lparr>rtp_demuxer_create = True, rtp_payload_encode_create = True, rtp_create = True\<rparr>"

definition demo_live :: "nat rtp_ctx" where
  "demo_live = demo_gb\<lparr>packet := True, payloadBuf := Some 4194304, inviteId := ''inv1'',
     demuxer := True, payloadEncoder := True, rtp := True\<rparr>"

definition demo_streaming :: "nat rtp_producer" where
  "demo_streaming = demo_invited\<lparr>mRtpVideoContextMap := [(demo_camera, demo_live)],
     mpNetworkServer := Some (reg_peer demo_mm ''10.0.0.9:5000'' 0 demo_ns)\<rparr>"

lemma demo_lock: "lock_ctx 0 demo_invited = Some demo_gb" "lock_ctx 0 demo_streaming = Some demo_live"
  by (simp_all add: lock_ctx_def demo_invited_def demo_streaming_def demo_live_def)

lemma demo_reg: "registerPeer demo_mm n i ns = Inr (reg_peer demo_mm n i ns)"
  unfolding demo_mm_def by (rule registerPeer_ready [OF mm_up_instance])

lemma demo_answer:
  "on_invite_reply demo_mm lib_ok 0 True demo_reply demo_invited =
     Inr (demo_streaming,
       [Sdp 1 (gb_sdp ''demo1'' \<lparr>peerInfo = ''10.0.0.9:5000'', frequency = 90000, gb_payload = 96, encoding = ''H264''\<rparr>),
        Rpc (SendAck ''inv1'')])"
  unfolding on_invite_reply_def demo_lock
  by (simp add: demo_reg demo_reply_def deref_def int32_def in_int32_def lib_ok_def)
    (simp add: put_ctx_def demo_invited_def demo_streaming_def demo_live_def demo_producer_def demo_config_def
      demo_camera_def VideoRequest_def RtpProducer_def int32_def in_int32_def demo_reg deref_def demo_reply_def)

lemma demo_streaming_ok: "prod_ok demo_streaming"
  using prod_step_keeps [OF prod_step.invite [OF demo_answer] demo_invited_ok] by simp

lemma demo_streaming_peer: "peer_of demo_streaming ''10.0.0.9:5000'' = Some 0"
proof -
  have "peers_ok demo_ns" "peers_look demo_ns n = None" for n
    by (simp_all add: peers_ok_def peers_look_def demo_ns_def NetworkServer_def)
  then show ?thesis
    by (simp add: peer_of_def demo_streaming_def demo_mm_def peers.look_reg)
qed

lemma demo_teardown:
  "UnregisterVideo (videoRequest demo_live) demo_streaming =
     Inr (demo_streaming\<lparr>mRtpVideoContextMap := []\<rparr>, [Rpc (TearDown ''inv1'')])"
  by (simp add: UnregisterVideo_def demo_streaming_def demo_live_def vr.irrefl)
    (simp add: demo_camera_def VideoRequest_def)

theorem peer_lost_after_unregister_witness:
  "\<exists>q. prod_run demo_mm (demo_streaming\<lparr>mRtpVideoContextMap := []\<rparr>)
      [Rpc (InviteVideo 1 ''demo1'' ''10.0.0.2:8086'' UDP 3000)] q \<and>
    peer_of q ''10.0.0.9:5000'' = Some 0 \<and> on_peer_packet (\<lambda>b. [(b, 7)]) (\<lambda>b t. [b]) 0 [1, 2, 3] q = Inr []"
proof -
  obtain c where c: "RtpVideoContext demo_mm 1 demo_camera (1 :: nat) 2 3 = Inr c"
    unfolding demo_mm_def by (metis RtpVideoContext_ready mm_up_instance)
  have "RegisterVideo demo_mm (Null, Null) demo_camera 1 2 3 (demo_streaming\<lparr>mRtpVideoContextMap := []\<rparr>) =
    Inr (demo_streaming\<lparr>mRtpVideoContextMap := [(demo_camera, c)], next_ctx := 2\<rparr>,
      [Rpc (InviteVideo 1 ''demo1'' ''10.0.0.2:8086'' UDP 3000)])"
    using c RtpVideoContext_fields [OF c]
    by (simp add: RegisterVideo_def demo_streaming_def demo_invited_def demo_producer_def demo_config_def deref_def
        RtpProducer_def) (simp add: demo_camera_def VideoRequest_def)
  from prod_run.step [OF prod_run.start prod_step.register [OF this]]
  obtain q where q: "prod_run demo_mm (demo_streaming\<lparr>mRtpVideoContextMap := []\<rparr>)
      [Rpc (InviteVideo 1 ''demo1'' ''10.0.0.2:8086'' UDP 3000)] q"
    by auto
  from peer_lost_after_unregister [OF demo_streaming_ok demo_lock(2) demo_streaming_peer demo_teardown q] q
  show ?thesis by blast
qed


lemma accepted_invite:
  assumes "prod_ok p" and "lock_ctx i p = Some ctx" and "gbInviteResponse resp = Some gb"
    and "rtp_demuxer_create lib" and "rtp_payload_encode_create lib"
    and "mConfig p = Some config" and "0 \<le> max_bandwidth_in_mb config" and "max_bandwidth_in_mb config < 2048"
    and "mpNetworkServer p = Some ns" and "peers_look ns (peerInfo gb) = None" and "spInstance mm = Some m"
  shows "\<exists>p'. on_invite_reply mm lib i True resp p =
      Inr (p', [Sdp (processSdpFunc ctx) (gb_sdp (gbid (videoRequest ctx)) gb), Rpc (SendAck (r_inviteId resp))]) \<and>
    peer_of p' (peerInfo gb) = Some i \<and>
    (\<exists>ctx'. lock_ctx i p' = Some ctx' \<and> demuxer ctx' \<and> payloadEncoder ctx' \<and>
       consumePktFunc ctx' = consumePktFunc ctx \<and>
       (r_inviteId resp \<noteq> [] \<longrightarrow>
         (\<exists>p''. UnregisterVideo (videoRequest ctx) p' = Inr (p'', [Rpc (TearDown (r_inviteId resp))]))))"
proof -
  let ?b = "max_bandwidth_in_mb config * 1024 * 1024"
  have b: "int32 ?b = Some ?b" "0 \<le> ?b" using assms(7,8) by (auto simp: int32_def in_int32_def)
  let ?c = "ctx\<lparr>packet := True, payloadBuf := if encoding gb = ''H264'' then Some ?b else payloadBuf ctx,
    inviteId := r_inviteId resp, demuxer := True, payloadEncoder := True, rtp := rtp_create lib\<rparr>"
  let ?p = "(put_ctx ?c p)\<lparr>mpNetworkServer := Some (reg_peer mm (peerInfo gb) i ns)\<rparr>"
  obtain k where k: "(k, ctx) \<in> set (mRtpVideoContextMap p)" and i: "ctx_id ctx = i"
    using lock_ctx_SomeD [OF assms(2)] by blast
  have reply: "on_invite_reply mm lib i True resp p =
      Inr (?p, [Sdp (processSdpFunc ctx) (gb_sdp (gbid (videoRequest ctx)) gb), Rpc (SendAck (r_inviteId resp))])"
    using assms b by (auto simp: on_invite_reply_def deref_def Let_def registerPeer_ready)
  have ok: "prod_ok ?p" using on_invite_reply_keeps [OF reply assms(1)] by simp
  have mem: "(k, ?c) \<in> set (mRtpVideoContextMap ?p)"
    using k i by (force simp: put_ctx_def)
  have "lock_ctx i ?p = Some ?c"
    using lock_ctx_eqI [OF mem prod_okD(3) [OF ok]] i by simp
  moreover have "peer_of ?p (peerInfo gb) = Some i"
  proof -
    obtain pr where "Peer mm (peerInfo gb) i = Inr pr" "processFunc pr = i"
      using Peer_ready [OF assms(11), of "peerInfo gb" i] by auto
    then show ?thesis
      using assms(10) by (simp add: peer_of_def reg_peer_def registerPeer_def peers_look_def strs.find_set)
  qed
  moreover have "omap_find VideoRequest_less k (mRtpVideoContextMap ?p) = Some ?c"
    by (rule vr.find_mem [OF prod_okD(1) [OF ok] mem])
  moreover have "videoRequest ctx = k" "use_gb k" "\<not> use_file k"
    using assms(1) k unfolding prod_ok_def by blast+
  ultimately show ?thesis
    using reply by (auto simp: UnregisterVideo_def)
qed



text \<open>
  An invite that fails is reported to the consumer, but the context is kept: until someone
  unregisters the camera, every further registration of it is refused as already existing.
\<close>

theorem invite_failed_blocks:
  assumes "prod_ok p" and "lock_ctx i p = Some ctx" and "\<not> ok \<or> gbInviteResponse resp = None"
  shows "on_invite_reply mm lib i ok resp p = Inr (p, [Err (processErrorFunc ctx) Invalid_argument]) \<and>
    RegisterVideo mm mem (videoRequest ctx) sdpF pktF errF p = Inr (p, [Err errF Too_many_files_open])"
proof -
  obtain k where k: "(k, ctx) \<in> set (mRtpVideoContextMap p)"
    using lock_ctx_SomeD [OF assms(2)] by blast
  then have "videoRequest ctx = k" "use_gb k" "\<not> use_file k"
    using assms(1) unfolding prod_ok_def by blast+
  then show ?thesis
    using assms(2,3) vr.find_mem [OF prod_okD(1) [OF assms(1)] k]
    by (auto simp: on_invite_reply_def RegisterVideo_def Let_def)
qed

theorem invite_failed_blocks_witness:
  "on_invite_reply demo_mm lib_ok 0 False demo_reply demo_invited = Inr (demo_invited, [Err 3 Invalid_argument]) \<and>
   RegisterVideo demo_mm (Null, Null) demo_camera 4 5 6 demo_invited = Inr (demo_invited, [Err 6 Too_many_files_open])"
  using invite_failed_blocks [OF demo_invited_ok demo_lock(1), of False demo_reply demo_mm lib_ok "(Null, Null)" 4 5 6]
  by simp


subsection \<open>From a camera's packet to the consumer\<close>

text \<open>What the encoder is given for a payload, and whether it fits the buffer.\<close>

definition framed :: "'cb rtp_ctx \<Rightarrow> bytes \<Rightarrow> bytes" where
  "framed ctx unit = (case payloadBuf ctx of Some _ \<Rightarrow> [0, 0, 1] @ unit | None \<Rightarrow> unit)"

definition fits :: "'cb rtp_ctx \<Rightarrow> bytes \<Rightarrow> bool" where
  "fits ctx unit = (case payloadBuf ctx of Some sz \<Rightarrow> int (length unit) + 3 \<le> sz | None \<Rightarrow> True)"

fun pkts_of :: "'cb prod_out list \<Rightarrow> ('cb \<times> bytes) list" where
  "pkts_of [] = []"
| "pkts_of (Pkt cb pkt # outs) = (cb, pkt) # pkts_of outs"
| "pkts_of (_ # outs) = pkts_of outs"

fun only_media :: "'cb prod_out \<Rightarrow> bool" where
  "only_media (Pkt cb pkt) = True"
| "only_media (Inc c n) = True"
| "only_media _ = False"

lemma pkts_of_append [simp]: "pkts_of (xs @ ys) = pkts_of xs @ pkts_of ys"
  by (induction xs rule: pkts_of.induct) auto

lemma encoder_packets_cases:
  "if \<forall>pkt \<in> set pkts. length pkt \<le> 1600
   then \<exists>outs. encoder_packets ctx pkts = Inr outs \<and> pkts_of outs = map (Pair (consumePktFunc ctx)) pkts \<and>
     list_all only_media outs
   else encoder_packets ctx pkts = Inl Fatal"
  by (induction pkts) (auto simp: rtp_alloc_def rtp_packet_def split: if_splits)

definition unit_ok :: "(bytes \<Rightarrow> nat \<Rightarrow> bytes list) \<Rightarrow> 'cb rtp_ctx \<Rightarrow> bytes \<times> nat \<Rightarrow> bool" where
  "unit_ok enc ctx u \<longleftrightarrow> fits ctx (fst u) \<and> (\<forall>pkt \<in> set (enc (framed ctx (fst u)) (snd u)). length pkt \<le> 1600)"

lemma RtpOnPacket_cases:
  "if unit_ok enc ctx u
   then \<exists>outs. RtpOnPacket enc ctx u = Inr outs \<and> list_all only_media outs \<and>
     pkts_of outs = map (Pair (consumePktFunc ctx)) (enc (framed ctx (fst u)) (snd u))
   else \<exists>x. RtpOnPacket enc ctx u = Inl x"
  using encoder_packets_cases [of "enc (framed ctx (fst u)) (snd u)" ctx]
  by (cases u) (auto simp: RtpOnPacket_def unit_ok_def fits_def framed_def split: option.splits if_splits)

lemma demuxed_units_cases:
  "if \<forall>u \<in> set us. unit_ok enc ctx u
   then \<exists>outs. demuxed_units enc ctx us = Inr outs \<and> list_all only_media outs \<and>
     pkts_of outs = map (Pair (consumePktFunc ctx)) (concat (map (\<lambda>u. enc (framed ctx (fst u)) (snd u)) us))
   else \<exists>x. demuxed_units enc ctx us = Inl x"
proof (induction us)
  case (Cons u us)
  show ?case
  proof (cases "unit_ok enc ctx u")
    case True
    then obtain outs where "RtpOnPacket enc ctx u = Inr outs" "list_all only_media outs"
      "pkts_of outs = map (Pair (consumePktFunc ctx)) (enc (framed ctx (fst u)) (snd u))"
      using RtpOnPacket_cases [of enc ctx u] by auto
    with Cons True show ?thesis by (auto split: if_splits)
  next
    case False
    then obtain x where "RtpOnPacket enc ctx u = Inl x"
      using RtpOnPacket_cases [of enc ctx u] by auto
    with False show ?thesis by auto
  qed
qed simp

text \<open>
  C11: A packet of a live camera is processed exactly when every payload the depacketizer makes
  of it fits the buffer (with the three bytes of the H264 start code) and every RTP packet the
  encoder makes of those fits its 1600 bytes. Then the consumer of this camera, and no other,
  gets all those RTP packets, unchanged and in order; nothing else happens but counting.
\<close>

theorem camera_packet_delivered:
  assumes "lock_ctx i p = Some ctx" and "demuxer ctx"
  shows "((\<exists>outs. on_peer_packet demux enc i pkt p = Inr outs) \<longleftrightarrow> (\<forall>u \<in> set (demux pkt). unit_ok enc ctx u)) \<and>
    (\<forall>outs. on_peer_packet demux enc i pkt p = Inr outs \<longrightarrow>
       pkts_of outs = map (Pair (consumePktFunc ctx))
         (concat (map (\<lambda>u. enc (framed ctx (fst u)) (snd u)) (demux pkt))) \<and>
       list_all only_media outs)"
  using demuxed_units_cases [of "demux pkt" enc ctx] assms
  by (auto simp: on_peer_packet_def split: if_splits)

theorem camera_packet_delivered_witness:
  "\<exists>outs. on_peer_packet (\<lambda>b. [(drop 1 b, 9)]) (\<lambda>b t. [take 3 b, drop 3 b]) 0 [128, 65, 66] demo_streaming = Inr outs \<and>
     pkts_of outs = [(2, [0, 0, 1]), (2, [65, 66])]"
proof -
  have "demuxer demo_live" "consumePktFunc demo_live = 2"
    "unit_ok (\<lambda>b t. [take 3 b, drop 3 b]) demo_live ([65, 66], 9)" "framed demo_live [65, 66] = [0, 0, 1, 65, 66]"
    by (simp_all add: demo_live_def unit_ok_def fits_def framed_def)
  with camera_packet_delivered [OF demo_lock(2), of "\<lambda>b. [(drop 1 b, 9)]" "\<lambda>b t. [take 3 b, drop 3 b]" "[128, 65, 66]"]
  show ?thesis by auto
qed


subsection \<open>Probing\<close>

text \<open>
  What a probe comes to: the stream is started (\<open>None\<close>), or it is given up with a return code,
  before or after the description was handed out.
\<close>

definition probe_result :: "probe \<Rightarrow> (int \<times> bool) option" where
  "probe_result pr =
     (if open_input_ret pr < 0 then Some (open_input_ret pr, False)
      else if find_stream_info_ret pr < 0 then Some (find_stream_info_ret pr, False)
      else if best_stream pr < 0 then Some (best_stream pr, False)
      else if alloc_output_ret pr < 0 \<or> \<not> new_stream_ok pr then Some (alloc_output_ret pr, False)
      else if copy_params_ret pr < 0 then Some (copy_params_ret pr, False)
      else if sdp_create_ret pr < 0 then Some (sdp_create_ret pr, False)
      else if write_header_ret pr < 0 then Some (write_header_ret pr, False)
      else if event_new_ok pr \<and> 0 \<le> event_add_ret pr then None
      else Some (write_header_ret pr, True))"

text \<open>A probe that runs on defined values only.\<close>

definition probe_sane :: "'cb file_ctx \<Rightarrow> probe \<Rightarrow> 'cb rtp_producer \<Rightarrow> bool" where
  "probe_sane c pr p \<longleftrightarrow> iFmtCtx c \<noteq> Garbage \<and> oFmtCtx c \<noteq> Garbage \<and> avio_alloc_ok pr \<and>
     0 < mFileIoBases p \<and> fst (avg_frame_rate pr) \<noteq> 0"

lemma probe_started:
  assumes "omap_find VideoRequest_less video (mFileVideoContextMap p) = Some c"
    and "probe_sane c pr p" and "probe_result pr = None"
  shows "\<exists>p' c'. RegisterFileVideo_probe video sdpF pr p = Inr (True, write_header_ret pr, p', [Sdp sdpF (sdp_text pr)]) \<and>
    omap_find VideoRequest_less video (mFileVideoContextMap p') = Some c' \<and>
    mpFileEvent c' = Some (event_base_index (mEventBaseCursor p) (mFileIoBases p),
      trunc_div (1000000 * snd (avg_frame_rate pr)) (fst (avg_frame_rate pr))) \<and>
    videoStreamId c' = best_stream pr \<and> f_error c' = f_error c"
  using assms
  by (auto simp: RegisterFileVideo_probe_def probe_result_def probe_sane_def frame_interval_def Let_def vr.find_set
      split: if_splits)

lemma probe_given_up:
  assumes "omap_find VideoRequest_less video (mFileVideoContextMap p) = Some c"
    and "probe_sane c pr p" and "probe_result pr = Some (ret, sent)"
  shows "\<exists>p' c'. RegisterFileVideo_probe video sdpF pr p =
      Inr (False, ret, p', if sent then [Sdp sdpF (sdp_text pr)] else []) \<and>
    omap_find VideoRequest_less video (mFileVideoContextMap p') = Some c' \<and>
    f_processErrorFunc c' = f_processErrorFunc c \<and> iFmtCtx c' \<noteq> Garbage \<and> oFmtCtx c' \<noteq> Garbage"
  using assms
  by (simp add: RegisterFileVideo_probe_def probe_result_def probe_sane_def frame_interval_def Let_def vr.find_set
      split: if_splits) blast


definition demo_probe :: probe where
  "demo_probe = \<lparr>open_input_ret = 0, find_stream_info_ret = 0, best_stream = 1, avg_frame_rate = (25, 1),
     alloc_output_ret = 0, new_stream_ok = True, copy_params_ret = 0, avio_alloc_ok = True,
     sdp_create_ret = 0, sdp_text = ''v=0'', write_header_ret = 0, event_new_ok = True, event_add_ret = 0\<rparr>"

definition demo_probing :: "nat rtp_producer" where
  "demo_probing = demo_producer\<lparr>mFileVideoContextMap := [(demo_file, FileVideoContext (Null, Null) demo_file 2 3)]\<rparr>"

lemma demo_probing_ok: "prod_ok demo_probing"
  by (simp add: prod_ok_def demo_probing_def ctx_ids_def FileVideoContext_def demo_prod_defs omap_ok_Cons)

lemma demo_probing_find: "omap_find VideoRequest_less demo_file (mFileVideoContextMap demo_probing) =
    Some (FileVideoContext (Null, Null) demo_file 2 3)"
  by (simp add: demo_probing_def vr.irrefl)


text \<open>
  The two pointers of a file context are never initialised. In memory that happens not to
  be zero, both ways a registered file can go on are undefined: probing it passes the garbage to
  \<open>avformat_open_input\<close>, and unregistering it before the probe passes it to
  \<open>avformat_close_input\<close>.
\<close>

theorem file_ctx_uninitialised:
  assumes "RegisterVideo mm (Garbage, y) video sdpF pktF errF p = Inr (p', [])" and "use_file video"
  shows "RegisterFileVideo video sdpF pr p' = Inl Undefined_behaviour \<and>
    UnregisterVideo video p' = Inl Undefined_behaviour"
proof -
  have "omap_find VideoRequest_less video (mFileVideoContextMap p') = Some (FileVideoContext (Garbage, y) video pktF errF)"
    using assms by (auto simp: RegisterVideo_def res_bind_Inr_iff vr.find_set split: if_splits)
  then show ?thesis
    using assms(2)
    by (simp add: RegisterFileVideo_def RegisterFileVideo_probe_def UnregisterVideo_def FileVideoContext_def
        FileVideoContext_dtor_def Let_def)
qed

lemma demo_register_file:
  "\<exists>p'. RegisterVideo demo_mm (Garbage, Null) demo_file 1 2 3 demo_producer = Inr (p', [])"
  by (simp add: RegisterVideo_def demo_file_def VideoRequest_def demo_producer_def RtpProducer_def deref_def
      submit_def ThreadPool_def)

theorem file_ctx_uninitialised_witness:
  "\<exists>p'. RegisterVideo demo_mm (Garbage, Null) demo_file 1 2 3 demo_producer = Inr (p', []) \<and>
     UnregisterVideo demo_file p' = Inl Undefined_behaviour"
  using demo_register_file file_ctx_uninitialised [of demo_mm Null demo_file 1 2 3 demo_producer]
  by (auto simp: demo_file_def)


text \<open>
  If the file is unregistered between the failure of its probe and the report of it, the
  report logs that the file is gone and then follows the iterator all the same, past the end
  of the map.
\<close>

theorem probe_report_race:
  assumes "prod_ok p" and "use_file video"
    and "RegisterFileVideo_probe video sdpF pr p = Inr (False, ret, p1, outs)"
    and "UnregisterVideo video p1 = Inr (p2, outs2)"
  shows "RegisterFileVideo_report video p2 = Inl Undefined_behaviour"
proof -
  have "prod_ok p1" using RegisterFileVideo_probe_keeps [OF assms(3,1)] by blast
  then have "omap_find VideoRequest_less video (omap_erase VideoRequest_less video (mFileVideoContextMap p1)) = None"
    by (simp add: vr.find_erase [OF prod_okD(2)])
  with assms(2,4) show ?thesis
    by (auto simp: UnregisterVideo_def RegisterFileVideo_report_def res_bind_Inr_iff)
qed

theorem probe_report_race_witness:
  "\<exists>p1 p2. RegisterFileVideo_probe demo_file 1 (demo_probe\<lparr>open_input_ret := -2\<rparr>) demo_probing = Inr (False, -2, p1, []) \<and>
     UnregisterVideo demo_file p1 = Inr (p2, []) \<and> RegisterFileVideo_report demo_file p2 = Inl Undefined_behaviour"
proof -
  let ?p1 = "demo_probing\<lparr>mFileVideoContextMap := [(demo_file, FileVideoContext (Null, Null) demo_file 2 3)]\<rparr>"
  let ?p2 = "demo_probing\<lparr>mFileVideoContextMap := []\<rparr>"
  have probe: "RegisterFileVideo_probe demo_file 1 (demo_probe\<lparr>open_input_ret := -2\<rparr>) demo_probing = Inr (False, -2, ?p1, [])"
    by (simp add: RegisterFileVideo_probe_def demo_probing_find)
      (simp add: demo_probing_def demo_probe_def FileVideoContext_def vr.irrefl)
  have isfile: "use_file demo_file" by (simp add: demo_file_def)
  have un: "UnregisterVideo demo_file ?p1 = Inr (?p2, [])"
    using isfile by (simp add: UnregisterVideo_def FileVideoContext_dtor_def FileVideoContext_def vr.irrefl)
  from probe_report_race [OF demo_probing_ok isfile probe un] probe un show ?thesis by blast
qed

end
