(* ===== verification/Gateway.thy ===== *)
theory Gateway
  imports Rtp_Producer
begin

text \<open>
  The gateway and its dialogue with the producer. The program only knows the interface
  (\<open>api/video_greeter.proto\<close>); the one implementation in the repository is
  \<open>VideoGreeterServiceImpl\<close> of \<open>core/unittest/rtp_producer_ut.cpp\<close>, which the test \<open>TEST_GB\<close> runs
  the producer against. Here are that gateway, the requests and answers on their way between
  the two, which overtake each other freely, and what the two guarantee together.
\<close>

section \<open>The gateway\<close>

record rtp_session =
  pushPort :: int
  pushPid :: int

record greeter =
  portToUse :: "32 word"
  requestId :: "32 word"
  mPushSessions :: "(string, rtp_session) omap"

definition VideoGreeterServiceImpl :: "32 word \<Rightarrow> greeter" where
  "VideoGreeterServiceImpl local_port_begin_with =
     \<lparr>portToUse = local_port_begin_with, requestId = 0, mPushSessions = []\<rparr>"

definition greeter_InviteVideo :: "greeter \<Rightarrow> invite_response \<times> greeter" where
  "greeter_InviteVideo g =
     (let invite = fmt_int (sint (requestId g));
          session = \<lparr>pushPort = sint (portToUse g), pushPid = 0\<rparr>
      in (\<lparr>r_inviteId = invite,
           gbInviteResponse = Some \<lparr>peerInfo = ''127.0.0.1:'' @ fmt_int (pushPort session),
             frequency = 90000, gb_payload = 33, encoding = ''MP2T''\<rparr>\<rparr>,
          g\<lparr>requestId := requestId g + 1, portToUse := portToUse g + 2,
            mPushSessions := omap_set string_less invite session (mPushSessions g)\<rparr>))"

text \<open>
  \<open>popen2\<close>, seen from the process that calls it: \<open>pipes\<close> tells whether both pipes were made, \<open>fork\<close> is
  what \<open>fork\<close> returned to it.
\<close>

definition popen2 :: "bool \<Rightarrow> int \<Rightarrow> int" where
  "popen2 pipes fork = (if \<not> pipes then -1 else fork)"

definition greeter_SendAck :: "bool \<Rightarrow> int \<Rightarrow> string \<Rightarrow> greeter \<Rightarrow> greeter" where
  "greeter_SendAck pipes fork invite g =
     (case omap_find string_less invite (mPushSessions g) of
        None \<Rightarrow> g
      | Some session \<Rightarrow>
          g\<lparr>mPushSessions :=
              omap_set string_less invite (session\<lparr>pushPid := popen2 pipes fork\<rparr>) (mPushSessions g)\<rparr>)"

text \<open>With the process identifiers that are given to \<open>kill\<close>.\<close>

definition greeter_TearDown :: "string \<Rightarrow> greeter \<Rightarrow> greeter \<times> int list" where
  "greeter_TearDown invite g =
     (case omap_find string_less invite (mPushSessions g) of
        None \<Rightarrow> (g, [])
      | Some session \<Rightarrow>
          if pushPid session = 0 then (g, [])
          else (g\<lparr>mPushSessions := omap_erase string_less invite (mPushSessions g)\<rparr>, [pushPid session]))"

section \<open>The dialogue\<close>

text \<open>
  The producer, the gateway, the requests that the gateway has not handled yet, its answers that
  have not arrived yet with the context each is for, and how many invites it has handled.
\<close>

record 'cb dialogue =
  producer :: "'cb rtp_producer"
  gw :: greeter
  in_flight :: "rpc list"
  replies :: "(nat \<times> invite_response) list"
  served :: nat

fun rpcs :: "'cb prod_out list \<Rightarrow> rpc list" where
  "rpcs [] = []"
| "rpcs (Rpc r # outs) = r # rpcs outs"
| "rpcs (_ # outs) = rpcs outs"

text \<open>
  Any request may be handled next, and any answer arrive next. An invite may run into its
  deadline before or after the gateway has handled it. \<open>reg\<close> says whether videos are registered.
\<close>

inductive gb_step :: "mm_state \<Rightarrow> bool \<Rightarrow> 'cb dialogue \<Rightarrow> 'cb prod_out list \<Rightarrow> 'cb dialogue \<Rightarrow> bool"
  for mm reg where
  register: "reg \<Longrightarrow> RegisterVideo mm mem video sdpF pktF errF (producer w) = Inr (p', outs) \<Longrightarrow>
    gb_step mm reg w outs (w\<lparr>producer := p', in_flight := in_flight w @ rpcs outs\<rparr>)"
| unregister: "UnregisterVideo video (producer w) = Inr (p', outs) \<Longrightarrow>
    gb_step mm reg w outs (w\<lparr>producer := p', in_flight := in_flight w @ rpcs outs\<rparr>)"
| serve_invite: "in_flight w = xs @ InviteVideo i camera host transmission timeout # ys \<Longrightarrow>
    greeter_InviteVideo (gw w) = (resp, g) \<Longrightarrow>
    gb_step mm reg w [] (w\<lparr>gw := g, in_flight := xs @ ys, replies := replies w @ [(i, resp)],
      served := Suc (served w)\<rparr>)"
| serve_ack: "in_flight w = xs @ SendAck invite # ys \<Longrightarrow>
    gb_step mm reg w [] (w\<lparr>gw := greeter_SendAck pipes fork invite (gw w), in_flight := xs @ ys\<rparr>)"
| serve_teardown: "in_flight w = xs @ TearDown invite # ys \<Longrightarrow> greeter_TearDown invite (gw w) = (g, kills) \<Longrightarrow>
    gb_step mm reg w [] (w\<lparr>gw := g, in_flight := xs @ ys\<rparr>)"
| reply: "replies w = xs @ (i, resp) # ys \<Longrightarrow> on_invite_reply mm lib i ok resp (producer w) = Inr (p', outs) \<Longrightarrow>
    gb_step mm reg w outs (w\<lparr>producer := p', replies := xs @ ys, in_flight := in_flight w @ rpcs outs\<rparr>)"
| unserved: "in_flight w = xs @ InviteVideo i camera host transmission timeout # ys \<Longrightarrow>
    on_invite_reply mm lib i False resp (producer w) = Inr (p', outs) \<Longrightarrow>
    gb_step mm reg w outs (w\<lparr>producer := p', in_flight := xs @ ys @ rpcs outs\<rparr>)"
| packet: "peer_of (producer w) nm = Some i \<Longrightarrow> on_peer_packet demux enc i pkt (producer w) = Inr outs \<Longrightarrow>
    gb_step mm reg w outs w"

inductive gb_run :: "mm_state \<Rightarrow> bool \<Rightarrow> 'cb dialogue \<Rightarrow> 'cb prod_out list \<Rightarrow> 'cb dialogue \<Rightarrow> bool"
  for mm reg w0 where
  start: "gb_run mm reg w0 [] w0"
| more: "gb_run mm reg w0 outs w \<Longrightarrow> gb_step mm reg w outs' w' \<Longrightarrow> gb_run mm reg w0 (outs @ outs') w'"

definition gb_start :: "32 word \<Rightarrow> 'cb rtp_producer \<Rightarrow> 'cb dialogue" where
  "gb_start b p = \<lparr>producer = p, gw = VideoGreeterServiceImpl b, in_flight = [], replies = [], served = 0\<rparr>"

lemma gb_step_prod:
  "gb_step mm reg w outs w' \<Longrightarrow> producer w' = producer w \<and> outs = [] \<or> prod_step mm (producer w) outs (producer w')"
  by (induction rule: gb_step.induct) (auto intro: prod_step.intros)

lemma gb_run_prod: "gb_run mm reg w outs w' \<Longrightarrow> prod_run mm (producer w) outs (producer w')"
proof (induction rule: gb_run.induct)
  case start
  show ?case
    by (rule prod_run.start)
next
  case (more outs w outs' w')
  then show ?case
    using gb_step_prod [OF more(2)] prod_run.step [OF more(3)] by auto
qed

lemma served_step: "gb_step mm reg w outs w' \<Longrightarrow> served w \<le> served w'"
  by (induction rule: gb_step.induct) auto

lemma served_run: "gb_run mm reg w outs w' \<Longrightarrow> served w \<le> served w'"
  by (induction rule: gb_run.induct) (auto dest: served_step)

section \<open>Identifiers and ports\<close>

lemma fmt_nat_unsigned: "fmt_nat n \<noteq> CHR ''-'' # s"
  using fmt_nat_digits [of "CHR ''-''" n] by auto

lemma fmt_int_inject [simp]: "fmt_int a = fmt_int b \<longleftrightarrow> a = b"
proof (cases "a < 0"; cases "b < 0")
  assume "a < 0" "\<not> b < 0"
  then show ?thesis
    using fmt_nat_unsigned [of "nat b"] by (auto simp: fmt_int_def dest: sym)
next
  assume "\<not> a < 0" "b < 0"
  then show ?thesis
    using fmt_nat_unsigned [of "nat a"] by (auto simp: fmt_int_def)
qed (auto simp: fmt_int_def)

lemma sint_inject: "sint a = sint b \<longleftrightarrow> a = b"
  by (auto intro: signed_word_eqI)

lemma fmt_int_nonempty [simp]: "fmt_int a \<noteq> []"
  by (simp add: fmt_int_def)

definition invite_id :: "nat \<Rightarrow> string" where
  "invite_id k = fmt_int (sint (of_nat k :: 32 word))"

definition push_port :: "32 word \<Rightarrow> nat \<Rightarrow> int" where
  "push_port b k = sint (b + 2 * of_nat k)"

definition answer :: "32 word \<Rightarrow> nat \<Rightarrow> invite_response" where
  "answer b k = \<lparr>r_inviteId = invite_id k,
     gbInviteResponse = Some \<lparr>peerInfo = ''127.0.0.1:'' @ fmt_int (push_port b k), frequency = 90000,
       gb_payload = 33, encoding = ''MP2T''\<rparr>\<rparr>"

definition push_peer :: "32 word \<Rightarrow> nat \<Rightarrow> string" where
  "push_peer b k = ''127.0.0.1:'' @ fmt_int (push_port b k)"

lemma of_nat32_inject:
  assumes "j < 2 ^ 32" "k < 2 ^ 32"
  shows "(of_nat j :: 32 word) = of_nat k \<longleftrightarrow> j = k"
proof -
  have "unat (of_nat j :: 32 word) = j" "unat (of_nat k :: 32 word) = k"
    using assms by (simp_all only: unat_of_nat len_num1 len_bit0 mod_less) simp_all
  then show ?thesis
    by metis
qed

lemma invite_id_inject: "j < 2 ^ 32 \<Longrightarrow> k < 2 ^ 32 \<Longrightarrow> invite_id j = invite_id k \<longleftrightarrow> j = k"
  using of_nat32_inject by (simp add: invite_id_def sint_inject)

lemma push_peer_inject:
  assumes "j < 2 ^ 31" "k < 2 ^ 31"
  shows "push_peer b j = push_peer b k \<longleftrightarrow> j = k"
proof -
  have "push_peer b j = push_peer b k \<longleftrightarrow> (of_nat (2 * j) :: 32 word) = of_nat (2 * k)"
    by (simp add: push_peer_def push_port_def sint_inject)
  also have "\<dots> \<longleftrightarrow> 2 * j = 2 * k"
    using assms by (intro of_nat32_inject) auto
  finally show ?thesis
    by simp
qed

section \<open>What holds throughout\<close>

text \<open>An invite identifier is mentioned by a context, or by a request that is on its way.\<close>

definition invites :: "'cb rtp_producer \<Rightarrow> string set" where
  "invites p = (\<lambda>e. inviteId (snd e)) ` set (mRtpVideoContextMap p)"

definition mentions :: "'cb rtp_producer \<Rightarrow> rpc list \<Rightarrow> string \<Rightarrow> bool" where
  "mentions p rs s \<longleftrightarrow> s \<in> invites p \<or> SendAck s \<in> set rs \<or> TearDown s \<in> set rs"

text \<open>
  \<open>ks\<close> numbers the invites whose answers are on their way. Each has a session of its own that no
  one else mentions, and its port is not registered as a peer.
\<close>

definition gb_ok :: "32 word \<Rightarrow> nat list \<Rightarrow> 'cb dialogue \<Rightarrow> bool" where
  "gb_ok b ks w \<longleftrightarrow>
     requestId (gw w) = of_nat (served w) \<and> portToUse (gw w) = b + 2 * of_nat (served w) \<and>
     omap_ok string_less (mPushSessions (gw w)) \<and>
     map snd (replies w) = map (answer b) ks \<and> distinct ks \<and> (\<forall>k \<in> set ks. k < served w) \<and>
     (\<forall>nm j. peer_of (producer w) nm = Some j \<longrightarrow> (\<exists>k < served w. k \<notin> set ks \<and> nm = push_peer b k)) \<and>
     (\<forall>s. mentions (producer w) (in_flight w) s \<longrightarrow> s = [] \<or> (\<exists>k < served w. k \<notin> set ks \<and> s = invite_id k)) \<and>
     (\<forall>k \<in> set ks. omap_find string_less (invite_id k) (mPushSessions (gw w)) =
        Some \<lparr>pushPort = push_port b k, pushPid = 0\<rparr>)"

lemma rpcs_append [simp]: "rpcs (xs @ ys) = rpcs xs @ rpcs ys"
  by (induction xs rule: rpcs.induct) auto

lemma invite_peers:
  assumes "on_invite_reply mm lib i ok resp p = Inr (p', outs)" "peer_of p' nm = Some j"
  shows "peer_of p nm = Some j \<or> ok \<and> (\<exists>gb. gbInviteResponse resp = Some gb \<and> nm = peerInfo gb)"
proof -
  have reg: "peers_look ns nm = Some j \<or> nm = n" if "registerPeer mm n i ns = Inr ns'" "peers_look ns' nm = Some j"
    for n ns ns'
    using that by (auto simp: registerPeer_def peers_look_def res_bind_Inr_iff strs.find_set split: if_splits)
  show ?thesis
    using assms
    by (auto simp: on_invite_reply_def Let_def deref_def res_bind_Inr_iff peer_of_def
        split: option.splits if_splits dest: reg)
qed

lemma invites_put_ctx: "invites (put_ctx c p) \<subseteq> insert (inviteId c) (invites p)"
  by (force simp: invites_def put_ctx_def)

lemma invites_server [simp]: "invites (p\<lparr>mpNetworkServer := ns\<rparr>) = invites p"
  by (simp add: invites_def)

lemma invite_mentions:
  assumes "on_invite_reply mm lib i ok resp p = Inr (p', outs)" "mentions p' (rs @ rpcs outs) s"
  shows "mentions p rs s \<or> ok \<and> s = r_inviteId resp"
proof -
  have put: "s \<in> invites p \<or> s = inviteId c" if "s \<in> invites (put_ctx c p)" for c
    using that invites_put_ctx by blast
  show ?thesis
  proof (cases "ok \<and> lock_ctx i p \<noteq> None \<and> gbInviteResponse resp \<noteq> None")
    case True
    then obtain c gb where "ok" and c: "lock_ctx i p = Some c" and gb: "gbInviteResponse resp = Some gb"
      by blast
    then have "(\<exists>c'. (p' = put_ctx c' p \<or> (\<exists>ns. p' = (put_ctx c' p)\<lparr>mpNetworkServer := ns\<rparr>)) \<and>
        inviteId c' = r_inviteId resp) \<and> set (rpcs outs) \<subseteq> {SendAck (r_inviteId resp)}"
      using assms(1) unfolding on_invite_reply_def c gb option.case Let_def
      by (auto simp: res_bind_Inr_iff split: if_splits)
    then show ?thesis
      using \<open>ok\<close> assms(2) put by (auto simp: mentions_def)
  next
    case False
    then have "p' = p \<and> rpcs outs = []"
      using assms(1) unfolding on_invite_reply_def
      by (cases "lock_ctx i p"; cases ok; cases "gbInviteResponse resp") (auto simp: Let_def)
    then show ?thesis
      using assms(2) by simp
  qed
qed

lemma register_mentions:
  assumes "RegisterVideo mm mem video sdpF pktF errF p = Inr (p', outs)" "mentions p' (rs @ rpcs outs) s"
  shows "mentions p rs s \<or> s = []"
proof -
  have "mRtpVideoContextMap p' = mRtpVideoContextMap p \<and> rpcs outs = [] \<or>
    (\<exists>c. mRtpVideoContextMap p' = omap_set VideoRequest_less video c (mRtpVideoContextMap p) \<and> inviteId c = [] \<and>
      set (rpcs outs) \<inter> range SendAck = {} \<and> set (rpcs outs) \<inter> range TearDown = {})"
    using assms(1) by (auto simp: RegisterVideo_def res_bind_Inr_iff RtpVideoContext_fields split: if_splits)
  then show ?thesis
  proof (elim disjE exE conjE)
    fix c
    assume c: "mRtpVideoContextMap p' = omap_set VideoRequest_less video c (mRtpVideoContextMap p)" "inviteId c = []"
      and out: "set (rpcs outs) \<inter> range SendAck = {}" "set (rpcs outs) \<inter> range TearDown = {}"
    have "invites p' \<subseteq> insert [] (invites p)"
      using vr.set_set [of _ video c "mRtpVideoContextMap p"] c by (fastforce simp: invites_def)
    then show ?thesis
      using assms(2) out by (auto simp: mentions_def)
  qed (use assms(2) in \<open>simp add: mentions_def invites_def\<close>)
qed

lemma unregister_mentions:
  assumes "UnregisterVideo video p = Inr (p', outs)" "mentions p' (rs @ rpcs outs) s"
    "omap_ok VideoRequest_less (mRtpVideoContextMap p)"
  shows "mentions p rs s"
proof -
  have "inviteId c \<in> invites p"
    if "omap_find VideoRequest_less video (mRtpVideoContextMap p) = Some c" for c
    using that vr.find_Some_iff [OF assms(3)] by (force simp: invites_def)
  moreover have "invites p' \<subseteq> invites p"
    using assms(1) vr.set_erase_subset [of video "mRtpVideoContextMap p"]
    by (auto simp: UnregisterVideo_def res_bind_Inr_iff invites_def split: if_splits)
  ultimately show ?thesis
    using assms(1,2)
    by (auto simp: UnregisterVideo_def res_bind_Inr_iff mentions_def split: if_splits option.splits)
qed

lemma gb_okD:
  assumes "gb_ok b ks w"
  shows "requestId (gw w) = of_nat (served w)" "portToUse (gw w) = b + 2 * of_nat (served w)"
    "omap_ok string_less (mPushSessions (gw w))" "map snd (replies w) = map (answer b) ks" "distinct ks"
    "k \<in> set ks \<Longrightarrow> k < served w"
    "peer_of (producer w) nm = Some j \<Longrightarrow> \<exists>k < served w. k \<notin> set ks \<and> nm = push_peer b k"
    "mentions (producer w) (in_flight w) s \<Longrightarrow> s = [] \<or> (\<exists>k < served w. k \<notin> set ks \<and> s = invite_id k)"
    "k \<in> set ks \<Longrightarrow> omap_find string_less (invite_id k) (mPushSessions (gw w)) =
        Some \<lparr>pushPort = push_port b k, pushPid = 0\<rparr>"
  using assms unfolding gb_ok_def by blast+

lemma gb_ok_start: "(\<And>nm. peer_of p nm = None) \<Longrightarrow> mRtpVideoContextMap p = [] \<Longrightarrow> gb_ok b [] (gb_start b p)"
  by (simp add: gb_ok_def gb_start_def VideoGreeterServiceImpl_def mentions_def invites_def)

text \<open>A step of the producer that registers no peer and mentions no new invite.\<close>

lemma gb_ok_quiet:
  assumes "gb_ok b ks w" "\<And>nm j. peer_of p' nm = Some j \<Longrightarrow> peer_of (producer w) nm = Some j"
    and "\<And>s. mentions p' rs s \<Longrightarrow> mentions (producer w) (in_flight w) s \<or> s = []"
  shows "gb_ok b ks (w\<lparr>producer := p', in_flight := rs\<rparr>)"
  using assms unfolding gb_ok_def by simp blast

lemma mentions_fewer: "mentions p rs s \<Longrightarrow> set rs \<subseteq> set rs' \<Longrightarrow> mentions p rs' s"
  by (auto simp: mentions_def)

lemma gb_ok_serve_invite:
  assumes "gb_ok b ks w" "greeter_InviteVideo (gw w) = (resp, g)" "set rs \<subseteq> set (in_flight w)" "served w < 2 ^ 32"
  shows "gb_ok b (ks @ [served w]) (w\<lparr>gw := g, in_flight := rs, replies := replies w @ [(i, resp)],
    served := Suc (served w)\<rparr>)"
proof -
  note ok = gb_okD [OF assms(1)]
  have resp: "resp = answer b (served w)"
    and g: "g = (gw w)\<lparr>requestId := of_nat (Suc (served w)), portToUse := b + 2 * of_nat (Suc (served w)),
      mPushSessions := omap_set string_less (invite_id (served w))
        \<lparr>pushPort = push_port b (served w), pushPid = 0\<rparr> (mPushSessions (gw w))\<rparr>"
    using assms(2) ok(1,2)
    by (auto simp: greeter_InviteVideo_def Let_def answer_def invite_id_def push_port_def algebra_simps)
  have other: "invite_id (served w) \<noteq> invite_id k" if "k < served w" for k
    using invite_id_inject [of "served w" k] that assms(4) by simp
  show ?thesis
    unfolding gb_ok_def
  proof (simp add: resp g ok(3,4,5), intro conjI)
    show "served w \<notin> set ks" "\<forall>k \<in> set ks. k < Suc (served w)"
      using ok(6) by (auto intro: less_SucI)
    show "\<forall>nm. (\<exists>j. peer_of (producer w) nm = Some j) \<longrightarrow>
        (\<exists>k < Suc (served w). k \<noteq> served w \<and> k \<notin> set ks \<and> nm = push_peer b k)"
      using ok(7) less_SucI by blast
    show "\<forall>s. mentions (producer w) rs s \<longrightarrow>
        s = [] \<or> (\<exists>k < Suc (served w). k \<noteq> served w \<and> k \<notin> set ks \<and> s = invite_id k)"
      using ok(8) mentions_fewer [OF _ assms(3)] less_SucI by blast
  qed (use ok(6,9) other in \<open>auto simp: strs.find_set\<close>)
qed

lemma gb_ok_serve:
  assumes "gb_ok b ks w" "mentions (producer w) (in_flight w) s" "set rs \<subseteq> set (in_flight w)"
    and "served w \<le> 2 ^ 32" "omap_ok string_less (mPushSessions g)"
    and "requestId g = requestId (gw w)" "portToUse g = portToUse (gw w)"
    and "\<And>s'. s' \<noteq> s \<Longrightarrow> omap_find string_less s' (mPushSessions g) = omap_find string_less s' (mPushSessions (gw w))"
  shows "gb_ok b ks (w\<lparr>gw := g, in_flight := rs\<rparr>)"
proof -
  note ok = gb_okD [OF assms(1)]
  have "invite_id k' \<noteq> s" if k': "k' \<in> set ks" for k'
    using ok(8) [OF assms(2)]
  proof
    assume "\<exists>k < served w. k \<notin> set ks \<and> s = invite_id k"
    then obtain k where "k < served w" "k \<notin> set ks" "s = invite_id k"
      by blast
    then show ?thesis
      using k' ok(6) [OF k'] assms(4) invite_id_inject [of k' k] by auto
  qed (simp add: invite_id_def)
  then have "\<forall>k' \<in> set ks. omap_find string_less (invite_id k') (mPushSessions g) =
      Some \<lparr>pushPort = push_port b k', pushPid = 0\<rparr>"
    using assms(8) ok(9) by simp
  moreover have "mentions (producer w) rs s' \<Longrightarrow> mentions (producer w) (in_flight w) s'" for s'
    by (erule mentions_fewer [OF _ assms(3)])
  ultimately show ?thesis
    using assms(1,5-7) unfolding gb_ok_def by simp
qed

lemma gb_ok_reply:
  assumes "gb_ok b ks w" "replies w = xs @ (i, resp) # ys"
    and "on_invite_reply mm lib i ok resp (producer w) = Inr (p', outs)"
  obtains as k bs where "ks = as @ k # bs" "resp = answer b k"
    "gb_ok b (as @ bs) (w\<lparr>producer := p', replies := xs @ ys, in_flight := in_flight w @ rpcs outs\<rparr>)"
proof -
  note inv = gb_okD [OF assms(1)]
  obtain as k bs where ks: "ks = as @ k # bs" and parts: "map snd xs = map (answer b) as" "resp = answer b k"
    "map snd ys = map (answer b) bs"
    using inv(4) unfolding assms(2) by (auto simp: append_eq_map_conv Cons_eq_map_conv)
  have k: "k < served w" "k \<notin> set (as @ bs)"
    using inv(5) inv(6) [of k] by (auto simp: ks)
  have "peer_of (producer w) nm = Some j \<or> nm = push_peer b k" if "peer_of p' nm = Some j" for nm j
    using invite_peers [OF assms(3) that] by (auto simp: parts(2) answer_def push_peer_def)
  then have peers: "\<forall>nm j. peer_of p' nm = Some j \<longrightarrow> (\<exists>k < served w. k \<notin> set (as @ bs) \<and> nm = push_peer b k)"
    using inv(7) k unfolding ks by fastforce
  have "mentions (producer w) (in_flight w) s \<or> s = invite_id k" if "mentions p' (in_flight w @ rpcs outs) s" for s
    using invite_mentions [OF assms(3) that] by (auto simp: parts(2) answer_def)
  then have "\<forall>s. mentions p' (in_flight w @ rpcs outs) s \<longrightarrow>
      s = [] \<or> (\<exists>k < served w. k \<notin> set (as @ bs) \<and> s = invite_id k)"
    using inv(8) k unfolding ks by fastforce
  with peers have "gb_ok b (as @ bs) (w\<lparr>producer := p', replies := xs @ ys, in_flight := in_flight w @ rpcs outs\<rparr>)"
    unfolding gb_ok_def using inv(1-3,5) inv(6,9) parts by (simp add: ks)
  with ks parts(2) show thesis
    by (rule that)
qed

lemma same_peers: "mpNetworkServer p' = mpNetworkServer p \<Longrightarrow> peer_of p' nm = peer_of p nm"
  by (simp add: peer_of_def)

lemma SendAck_sessions:
  "omap_ok string_less (mPushSessions g) \<Longrightarrow> omap_ok string_less (mPushSessions (greeter_SendAck pipes fork s g))"
  "s' \<noteq> s \<Longrightarrow> omap_find string_less s' (mPushSessions (greeter_SendAck pipes fork s g)) =
     omap_find string_less s' (mPushSessions g)"
  "requestId (greeter_SendAck pipes fork s g) = requestId g" "portToUse (greeter_SendAck pipes fork s g) = portToUse g"
  by (auto simp: greeter_SendAck_def strs.find_set split: option.splits)

lemma TearDown_sessions:
  assumes "greeter_TearDown s g = (g', kills)" "omap_ok string_less (mPushSessions g)"
  shows "omap_ok string_less (mPushSessions g')" "requestId g' = requestId g" "portToUse g' = portToUse g"
    "s' \<noteq> s \<Longrightarrow> omap_find string_less s' (mPushSessions g') = omap_find string_less s' (mPushSessions g)"
  using assms by (auto simp: greeter_TearDown_def strs.find_erase split: option.splits if_splits)

lemma gb_step_ok:
  assumes "gb_step mm reg w outs w'" "gb_ok b ks w" "prod_ok (producer w)" "served w' \<le> 2 ^ 32"
  shows "\<exists>ks'. gb_ok b ks' w'"
  using assms(1)
proof cases
  case (register mem video sdpF pktF errF p')
  have "gb_ok b ks w'"
    unfolding register(1)
    by (rule gb_ok_quiet [OF assms(2)])
       (auto simp: same_peers [OF same_server(1) [OF register(3)]] dest: register_mentions [OF register(3)])
  then show ?thesis ..
next
  case (unregister video p')
  have "gb_ok b ks w'"
    unfolding unregister(1)
    by (rule gb_ok_quiet [OF assms(2)])
       (auto simp: same_peers [OF same_server(2) [OF unregister(2)]]
         dest: unregister_mentions [OF unregister(2) _ prod_okD(1) [OF assms(3)]])
  then show ?thesis ..
next
  case (serve_invite xs i camera host transmission timeout ys resp g)
  then show ?thesis
    using gb_ok_serve_invite [OF assms(2) serve_invite(4), of "xs @ ys" i] assms(4) by auto
next
  case (serve_ack xs invite ys pipes fork)
  have "gb_ok b ks w'"
    unfolding serve_ack(2)
    by (rule gb_ok_serve [OF assms(2), of invite])
       (use serve_ack assms(4) gb_okD(3) [OF assms(2)] in \<open>auto simp: mentions_def SendAck_sessions\<close>)
  then show ?thesis ..
next
  case (serve_teardown xs invite ys g kills)
  have "gb_ok b ks w'"
    unfolding serve_teardown(2)
    by (rule gb_ok_serve [OF assms(2), of invite])
       (use serve_teardown assms(4) TearDown_sessions [OF serve_teardown(4) gb_okD(3) [OF assms(2)]]
        in \<open>auto simp: mentions_def\<close>)
  then show ?thesis ..
next
  case (reply xs i resp ys lib ok p')
  show ?thesis
    unfolding reply(1) by (rule gb_ok_reply [OF assms(2) reply(2,3)]) blast
next
  case (unserved xs i camera host transmission timeout ys lib resp p')
  have "mentions (producer w) (in_flight w) s" if "mentions p' (xs @ ys @ rpcs outs) s" for s
    using invite_mentions [OF unserved(3), of "xs @ ys" s] that unserved(2) by (auto simp: mentions_def)
  then have "gb_ok b ks w'"
    unfolding unserved(1)
    by (intro gb_ok_quiet [OF assms(2)]) (auto dest: invite_peers [OF unserved(3)])
  then show ?thesis ..
next
  case (packet nm i demux enc pkt)
  then show ?thesis
    using assms(2) by blast
qed

lemma gb_run_ok:
  "gb_run mm reg w outs w' \<Longrightarrow> gb_ok b ks w \<Longrightarrow> prod_ok (producer w) \<Longrightarrow> served w' \<le> 2 ^ 32 \<Longrightarrow>
   (\<exists>ks'. gb_ok b ks' w') \<and> prod_ok (producer w')"
proof (induction rule: gb_run.induct)
  case (more outs w1 outs' w2)
  have "served w1 \<le> 2 ^ 32"
    using served_step [OF more(2)] more.prems(3) by simp
  then obtain ks1 where "gb_ok b ks1 w1" "prod_ok (producer w1)"
    using more by blast
  then show ?case
    using gb_step_ok [OF more(2)] gb_step_prod [OF more(2)] prod_step_keeps more.prems(3) by metis
qed blast

section \<open>What the two guarantee together\<close>

lemma prod_step_config:
  assumes "prod_step mm p outs p'"
  shows "mConfig p' = mConfig p \<and> (mpNetworkServer p \<noteq> None \<longrightarrow> mpNetworkServer p' \<noteq> None)"
proof -
  have "mConfig p' = mConfig p"
    using assms
  proof cases
    case (invite lib i ok resp)
    then show ?thesis
      by (auto simp: on_invite_reply_def Let_def res_bind_Inr_iff split: option.splits if_splits)
  qed (auto simp: RegisterVideo_def UnregisterVideo_def RegisterFileVideo_probe_def RegisterFileVideo_erase_def
      file_tick_def Let_def res_bind_Inr_iff split: if_splits option.splits sum.splits)
  moreover have "mpNetworkServer p \<noteq> None \<longrightarrow> mpNetworkServer p' \<noteq> None"
    using assms
    by cases (use same_server same_server_probe same_server_tick invite_server in \<open>metis option.distinct(1)\<close>)+
  ultimately show ?thesis
    by blast
qed

lemma prod_run_config:
  "prod_run mm p outs p' \<Longrightarrow> mConfig p' = mConfig p \<and> (mpNetworkServer p \<noteq> None \<longrightarrow> mpNetworkServer p' \<noteq> None)"
  by (induction rule: prod_run.induct) (auto dest: prod_step_config)

lemma gb_started:
  assumes "RtpProducer_Init use_pthreads sys hc config ns RtpProducer = Inr p" "mRegisteredPeers ns = []"
  shows "gb_ok b [] (gb_start b p)" "prod_ok p" "mConfig p = Some config" "mpNetworkServer p = Some ns"
proof -
  obtain n where p: "p = RtpProducer\<lparr>mpNetworkServer := Some ns, mConfig := Some config, mFileIoBases := n,
      mpFileIoThreadPool := Some (ThreadPool n), mpGrpcClient := True\<rparr>"
    using RtpProducer_Init_res [OF assms(1)] by blast
  show "gb_ok b [] (gb_start b p)"
    by (rule gb_ok_start) (simp_all add: p peer_of_def peers_look_def assms(2) RtpProducer_def)
  show "prod_ok p" "mConfig p = Some config" "mpNetworkServer p = Some ns"
    using prod_ok_Init [OF assms(1)] by (simp_all add: p)
qed

text \<open>
  C17: the sessions of the cameras are kept apart. From the start of the producer and the gateway on,
  through any mixture of registrations, answers, timeouts and packets with at most \<open>2^31\<close> invites
  served, an answer that arrives for a camera that is still registered binds an address that no
  other camera has to that camera's context: the viewers get the description, the gateway its
  acknowledgement, and packets from that address go to that context.
\<close>

theorem sessions_kept_apart:
  assumes "RtpProducer_Init use_pthreads sys hc config ns RtpProducer = Inr p" and "mRegisteredPeers ns = []"
    and "0 \<le> max_bandwidth_in_mb config" and "max_bandwidth_in_mb config < 2048" and "spInstance mm = Some m"
    and "gb_run mm True (gb_start b p) outs w" and "served w \<le> 2 ^ 31"
    and "(i, resp) \<in> set (replies w)" and "lock_ctx i (producer w) = Some ctx"
    and "rtp_demuxer_create lib" and "rtp_payload_encode_create lib"
  shows "\<exists>gb p' ctx'. gbInviteResponse resp = Some gb \<and> peer_of (producer w) (peerInfo gb) = None \<and>
    on_invite_reply mm lib i True resp (producer w) =
      Inr (p', [Sdp (processSdpFunc ctx) (gb_sdp (gbid (videoRequest ctx)) gb), Rpc (SendAck (r_inviteId resp))]) \<and>
    peer_of p' (peerInfo gb) = Some i \<and> lock_ctx i p' = Some ctx' \<and> demuxer ctx' \<and> payloadEncoder ctx'"
proof -
  note st = gb_started [OF assms(1,2)]
  obtain ks where ok: "gb_ok b ks w" "prod_ok (producer w)"
    using gb_run_ok [OF assms(6), of b "[]"] st(1,2) assms(7) by (auto simp: gb_start_def)
  have "resp \<in> set (map (answer b) ks)"
    unfolding gb_okD(4) [OF ok(1), symmetric] using assms(8) by force
  then obtain k where k: "k \<in> set ks" "resp = answer b k"
    by auto
  let ?gb = "the (gbInviteResponse resp)"
  have gb: "gbInviteResponse resp = Some ?gb" "peerInfo ?gb = push_peer b k"
    by (simp_all add: k(2) answer_def push_peer_def)
  have config: "mConfig (producer w) = Some config" "\<exists>ns'. mpNetworkServer (producer w) = Some ns'"
    using prod_run_config [OF gb_run_prod [OF assms(6)]] st(3,4) by (auto simp: gb_start_def)
  then obtain ns' where ns': "mpNetworkServer (producer w) = Some ns'"
    by blast
  have free: "peer_of (producer w) (peerInfo ?gb) = None"
  proof (rule ccontr)
    assume "peer_of (producer w) (peerInfo ?gb) \<noteq> None"
    then obtain k' where "k' < served w" "k' \<notin> set ks" "push_peer b k = push_peer b k'"
      using gb_okD(7) [OF ok(1)] gb(2) by (metis not_None_eq)
    then show False
      using push_peer_inject [of k k' b] gb_okD(6) [OF ok(1) k(1)] k(1) assms(7) by auto
  qed
  then have "peers_look ns' (peerInfo ?gb) = None"
    by (simp add: peer_of_def ns')
  then show ?thesis
    using accepted_invite [OF ok(2) assms(9) gb(1) assms(10,11) config(1) assms(3,4) ns' _ assms(5)] gb(1) free
    by blast
qed

text \<open>The dialogue of the examples: one camera has been invited and the gateway has answered.\<close>

definition demo_dialogue :: "nat dialogue" where
  "demo_dialogue = \<lparr>producer = demo_invited,
     gw = \<lparr>portToUse = 12302, requestId = 1, mPushSessions = [(''0'', \<lparr>pushPort = 12300, pushPid = 0\<rparr>)]\<rparr>,
     in_flight = [], replies = [(0, answer 12300 0)], served = 1\<rparr>"

lemma demo_texts: "fmt_int 0 = ''0''" "fmt_int 12300 = ''12300''"
  by (simp_all add: fmt_int_def fmt_nat.simps char_of_def bit_0)

lemma demo_dialogue_run:
  "gb_run demo_mm True (gb_start 12300 demo_producer) [Rpc (InviteVideo 0 ''demo1'' ''10.0.0.2:8086'' UDP 3000)]
     demo_dialogue"
proof -
  let ?r = "InviteVideo 0 ''demo1'' ''10.0.0.2:8086'' UDP 3000"
  let ?w = "(gb_start 12300 demo_producer)\<lparr>producer := demo_invited, in_flight := [?r]\<rparr>"
  have "gb_step demo_mm True (gb_start 12300 demo_producer) [Rpc ?r] ?w"
    using gb_step.register [of True demo_mm _ _ _ _ _ "gb_start 12300 demo_producer"] demo_register
    by (fastforce simp: gb_start_def)
  moreover have "gb_step demo_mm True ?w [] demo_dialogue"
    using gb_step.serve_invite [of ?w "[]" 0 "''demo1''" "''10.0.0.2:8086''" UDP 3000 "[]" "answer 12300 0"]
    by (simp add: greeter_InviteVideo_def gb_start_def VideoGreeterServiceImpl_def Let_def demo_dialogue_def
        answer_def invite_id_def push_port_def demo_texts)
  ultimately have "gb_run demo_mm True (gb_start 12300 demo_producer) (([] @ [Rpc ?r]) @ []) demo_dialogue"
    by (intro gb_run.more [OF gb_run.more [OF gb_run.start]])
  then show ?thesis
    by simp
qed

theorem sessions_kept_apart_witness:
  "peer_of (fst (projr (on_invite_reply demo_mm lib_ok 0 True (answer 12300 0) demo_invited))) ''127.0.0.1:12300'' = Some 0"
proof -
  have a: "mRegisteredPeers demo_ns = []" "0 \<le> max_bandwidth_in_mb demo_config" "max_bandwidth_in_mb demo_config < 2048"
    "served demo_dialogue \<le> 2 ^ 31" "(0, answer 12300 0) \<in> set (replies demo_dialogue)"
    "lock_ctx 0 (producer demo_dialogue) = Some demo_gb" "rtp_demuxer_create lib_ok" "rtp_payload_encode_create lib_ok"
    by (simp_all add: demo_ns_def NetworkServer_def demo_config_def demo_dialogue_def demo_lock lib_ok_def)
  have m: "spInstance demo_mm = Some (MetricsManager 8844 ''ffvms'' '''')"
    unfolding demo_mm_def mm_up_instance by simp
  show ?thesis
    using sessions_kept_apart [OF demo_Init a(1-3) m demo_dialogue_run a(4-8)]
    by (auto simp: demo_dialogue_def answer_def push_port_def demo_texts)
qed

text \<open>A session that nobody mentions any more is never touched again.\<close>

definition forgotten :: "string \<Rightarrow> 'cb dialogue \<Rightarrow> bool" where
  "forgotten s w \<longleftrightarrow> \<not> mentions (producer w) (in_flight w) s \<and> (\<forall>r \<in> set (replies w). r_inviteId (snd r) \<noteq> s)"

lemma forgotten_step:
  assumes "gb_step mm reg w outs w'" "forgotten s w" "s \<noteq> []" "s \<noteq> fmt_int (sint (requestId (gw w)))"
    and "prod_ok (producer w)" "omap_ok string_less (mPushSessions (gw w))"
  shows "forgotten s w' \<and>
    omap_find string_less s (mPushSessions (gw w')) = omap_find string_less s (mPushSessions (gw w))"
  using assms(1)
proof cases
  case (register mem video sdpF pktF errF p')
  then show ?thesis
    using assms(2,3) register_mentions [OF register(3)] by (auto simp: forgotten_def)
next
  case (unregister video p')
  then show ?thesis
    using assms(2) unregister_mentions [OF unregister(2) _ prod_okD(1) [OF assms(5)]] by (auto simp: forgotten_def)
next
  case (serve_invite xs i camera host transmission timeout ys resp g)
  then show ?thesis
    using assms(2,4) by (auto simp: forgotten_def mentions_def greeter_InviteVideo_def Let_def strs.find_set)
next
  case (serve_ack xs invite ys pipes fork)
  then show ?thesis
    using assms(2) by (auto simp: forgotten_def mentions_def SendAck_sessions)
next
  case (serve_teardown xs invite ys g kills)
  then show ?thesis
    using assms(2) TearDown_sessions(4) [OF serve_teardown(4) assms(6)] by (auto simp: forgotten_def mentions_def)
next
  case (reply xs i resp ys lib ok p')
  then show ?thesis
    using assms(2) invite_mentions [OF reply(3)] by (auto simp: forgotten_def)
next
  case (unserved xs i camera host transmission timeout ys lib resp p')
  then show ?thesis
    using assms(2) invite_mentions [OF unserved(3), of "xs @ ys" s] by (auto simp: forgotten_def mentions_def)
next
  case (packet nm i demux enc pkt)
  then show ?thesis
    using assms(2) by simp
qed

lemma forgotten_run:
  assumes "gb_run mm reg w outs w'" "gb_ok b ks w" "prod_ok (producer w)" "served w' < 2 ^ 32"
    and "forgotten (invite_id k) w" "k < served w"
  shows "forgotten (invite_id k) w' \<and>
    omap_find string_less (invite_id k) (mPushSessions (gw w')) =
      omap_find string_less (invite_id k) (mPushSessions (gw w))"
  using assms(1,4)
proof (induction rule: gb_run.induct)
  case (more outs w1 outs' w2)
  have served: "served w1 < 2 ^ 32" "served w \<le> served w1"
    using served_step [OF more(2)] more.prems served_run [OF more(1)] by simp_all
  obtain ks1 where ok: "gb_ok b ks1 w1" "prod_ok (producer w1)"
    using gb_run_ok [OF more(1) assms(2,3)] served(1) by auto
  have "invite_id k \<noteq> fmt_int (sint (requestId (gw w1)))"
    using invite_id_inject [of k "served w1"] assms(6) served gb_okD(1) [OF ok(1)] by (simp add: invite_id_def)
  then show ?case
    using forgotten_step [OF more(2) _ _ _ ok(2) gb_okD(3) [OF ok(1)]] more.IH [OF served(1)]
    by (simp add: invite_id_def)
qed (use assms(5) in simp)

text \<open>
  C38: an answer to an invite whose camera was unregistered meanwhile is dropped without a word to
  the gateway. Nobody else knows the session it names: whatever happens afterwards, it is never
  acknowledged and never torn down.
\<close>

theorem orphaned_session:
  assumes "RtpProducer_Init use_pthreads sys hc config ns RtpProducer = Inr p" and "mRegisteredPeers ns = []"
    and "gb_run mm True (gb_start b p) outs w" and "replies w = xs @ (i, resp) # ys"
    and "lock_ctx i (producer w) = None"
    and "gb_run mm True (w\<lparr>replies := xs @ ys\<rparr>) outs' w'" and "served w' < 2 ^ 32"
  shows "on_invite_reply mm lib i ok resp (producer w) = Inr (producer w, []) \<and>
    (\<exists>session. omap_find string_less (r_inviteId resp) (mPushSessions (gw w')) = Some session \<and>
       pushPid session = 0)"
proof -
  note st = gb_started [OF assms(1,2)]
  have served: "served w \<le> 2 ^ 32"
    using served_run [OF assms(6)] assms(7) by simp
  obtain ks where ok: "gb_ok b ks w" "prod_ok (producer w)"
    using gb_run_ok [OF assms(3), of b "[]"] st(1,2) served by (auto simp: gb_start_def)
  have drop: "on_invite_reply mm lib i ok resp (producer w) = Inr (producer w, [])" for lib ok
    by (simp add: on_invite_reply_def assms(5))
  obtain as k bs where ks: "ks = as @ k # bs" "resp = answer b k"
    and ok1: "gb_ok b (as @ bs) (w\<lparr>replies := xs @ ys\<rparr>)"
    by (rule gb_ok_reply [OF ok(1) assms(4) drop]) simp
  have k: "k \<in> set ks" "k < served w" "k \<notin> set (as @ bs)"
    using gb_okD(5,6) [OF ok(1)] ks(1) by auto
  have other: "invite_id k \<noteq> invite_id j" if "j < served w" "j \<noteq> k" for j
    using invite_id_inject [of k j] that k(2) served by auto
  have "\<not> mentions (producer w) (in_flight w) (invite_id k)"
    using gb_okD(8) [OF ok(1), of "invite_id k"] other k(1) by (auto simp: invite_id_def)
  moreover have "r_inviteId (snd r) \<noteq> invite_id k" if r: "r \<in> set (xs @ ys)" for r
  proof -
    have "snd r \<in> set (map snd (xs @ ys))"
      using r by auto
    moreover have "set (map snd (xs @ ys)) = set (map (answer b) (as @ bs))"
      using gb_okD(4) [OF ok1] by simp
    ultimately obtain j where "j \<in> set (as @ bs)" "snd r = answer b j"
      unfolding set_map by (metis imageE)
    moreover from this have "j \<noteq> k" "j < served w"
      using gb_okD(6) [OF ok1, of j] k(3) by auto
    ultimately show ?thesis
      using other [of j] by (simp add: answer_def)
  qed
  ultimately have "forgotten (invite_id k) (w\<lparr>replies := xs @ ys\<rparr>)"
    by (simp add: forgotten_def)
  then have "omap_find string_less (invite_id k) (mPushSessions (gw w')) =
      omap_find string_less (invite_id k) (mPushSessions (gw w))"
    using forgotten_run [OF assms(6) ok1 _ assms(7), of k] ok(2) k(2) by simp
  then show ?thesis
    using drop gb_okD(9) [OF ok(1) k(1)] by (simp add: ks(2) answer_def)
qed

theorem orphaned_session_witness:
  "on_invite_reply demo_mm lib_ok 0 True (answer 12300 0) (demo_invited\<lparr>mRtpVideoContextMap := []\<rparr>) =
     Inr (demo_invited\<lparr>mRtpVideoContextMap := []\<rparr>, [])"
proof -
  let ?w = "demo_dialogue\<lparr>producer := demo_invited\<lparr>mRtpVideoContextMap := []\<rparr>\<rparr>"
  have "gb_step demo_mm True demo_dialogue [] ?w"
    using gb_step.unregister [of demo_camera demo_dialogue] demo_unregister by (fastforce simp: demo_dialogue_def)
  then have run: "gb_run demo_mm True (gb_start 12300 demo_producer)
      ([Rpc (InviteVideo 0 ''demo1'' ''10.0.0.2:8086'' UDP 3000)] @ []) ?w"
    by (rule gb_run.more [OF demo_dialogue_run])
  have "mRegisteredPeers demo_ns = []" "replies ?w = [] @ (0, answer 12300 0) # []" "lock_ctx 0 (producer ?w) = None"
    by (simp_all add: demo_ns_def NetworkServer_def demo_dialogue_def lock_ctx_def)
  from orphaned_session [OF demo_Init this(1) run this(2,3) gb_run.start]
  show ?thesis
    by (simp add: demo_dialogue_def)
qed

end
