(* ===== verification/Async_Client.thy ===== *)
theory Async_Client
  imports Ffvms_Prelude "HOL-Library.Multiset"
begin

text \<open>
  \<open>AsyncClient\<close> and \<open>GeneralAsyncClientCall\<close> (\<open>common/grpc\<close>): calls spread over the completion queues
  round robin, one thread per queue that answers the calls its queue hands out, and a destructor
  that shuts the queues down one after the other.

  A call is one object: its address, the deadline set on its context, the response and status it
  stores, and its callback. gRPC is a parameter: which call a queue hands out next, what it has
  written into response and status, and whether it says \<open>ok\<close> are choices of the steps. What is
  relied on is documented: a queue hands each call out once, \<open>Next\<close> returns false only after
  \<open>Shutdown\<close> when nothing is left, and no call may be started on a queue after \<open>Shutdown\<close>.
\<close>

section \<open>Calls\<close>

datatype grpc_status = Status nat string

record ('cb, 'r) client_call =
  call_addr :: nat
  call_deadline :: "int option"
  mpResponse :: 'r
  mpStatus :: grpc_status
  callback_fn :: "'cb option"

definition GeneralAsyncClientCall :: "nat \<Rightarrow> 'r \<Rightarrow> ('cb, 'r) client_call" where
  "GeneralAsyncClientCall a blank =
     \<lparr>call_addr = a, call_deadline = None, mpResponse = blank, mpStatus = Status 0 [], callback_fn = None\<rparr>"

definition SetCallback :: "'cb \<Rightarrow> ('cb, 'r) client_call \<Rightarrow> ('cb, 'r) client_call" where
  "SetCallback cb c = c\<lparr>callback_fn := Some cb\<rparr>"

text \<open>The clock counts nanoseconds in 64 bits.\<close>

definition StartCall :: "int \<Rightarrow> int \<Rightarrow> ('cb, 'r) client_call \<Rightarrow> ('cb, 'r) client_call res" where
  "StartCall now timeoutInMs c =
     (if 0 < timeoutInMs then
        (let deadline = now + timeoutInMs * 1000000 in
         if deadline < 2 ^ 63 then Inr (c\<lparr>call_deadline := Some deadline\<rparr>) else Inl Undefined_behaviour)
      else Inr c)"

datatype ('cb, 'r) rpc_event =
    Call_started nat 'cb nat
  | Call_answered nat 'cb 'r grpc_status

text \<open>\<open>c\<close> is the call with what the library has written into it; \<open>delete\<close> follows.\<close>

definition Processed :: "bool \<Rightarrow> ('cb, 'r) client_call \<Rightarrow> ('cb, 'r) rpc_event res" where
  "Processed ok c =
     (let status = (if ok then mpStatus c else Status 2 ''grpc unknown mistake'') in
      case callback_fn c of
        None \<Rightarrow> Inl (Runtime_error ''bad_function_call'')
      | Some cb \<Rightarrow> Inr (Call_answered (call_addr c) cb (mpResponse c) status))"

section \<open>The client\<close>

record ('cb, 'r) cq =
  cq_calls :: "('cb, 'r) client_call list"
  cq_shut :: bool

record ('cb, 'r) async_client =
  mCursor :: "64 word"
  mThreadNum :: int
  mpCqs :: "('cb, 'r) cq list"
  thread_runs :: "bool list"
  next_call :: nat
  dtor_at :: "nat option"

text \<open>The constructor does not set \<open>mCursor\<close>: it starts as what the memory held.\<close>

definition AsyncClient :: "64 word \<Rightarrow> int \<Rightarrow> ('cb, 'r) async_client" where
  "AsyncClient mem threadNum =
     \<lparr>mCursor = mem, mThreadNum = threadNum,
      mpCqs = replicate (nat threadNum) \<lparr>cq_calls = [], cq_shut = False\<rparr>,
      thread_runs = replicate (nat threadNum) True, next_call = 0, dtor_at = None\<rparr>"

definition cq_index :: "('cb, 'r) async_client \<Rightarrow> nat" where
  "cq_index s = unat (mCursor s mod word_of_int (mThreadNum s))"

definition Call :: "int \<Rightarrow> 'r \<Rightarrow> int \<Rightarrow> 'cb \<Rightarrow> ('cb, 'r) async_client \<Rightarrow>
    (('cb, 'r) async_client \<times> ('cb, 'r) rpc_event) res" where
  "Call now blank timeoutInMs cb s =
     (if (word_of_int (mThreadNum s) :: 64 word) = 0 then Inl Undefined_behaviour
      else
        let i = cq_index s in
        if length (mpCqs s) \<le> i then Inl Undefined_behaviour
        else
          let q = mpCqs s ! i in
          if cq_shut q then Inl Undefined_behaviour
          else
            res_bind (StartCall now timeoutInMs (SetCallback cb (GeneralAsyncClientCall (next_call s) blank))) (\<lambda>c.
            Inr (s\<lparr>mCursor := mCursor s + 1, mpCqs := (mpCqs s)[i := q\<lparr>cq_calls := cq_calls q @ [c]\<rparr>],
                   next_call := next_call s + 1\<rparr>,
                 Call_started (next_call s) cb i)))"

text \<open>
  One pass of the loop of thread \<open>i\<close>: its queue hands out the call at position \<open>j\<close>, with response and
  status as the library left them; or \<open>Next\<close> returns false and the thread ends.
\<close>

definition thread_pass :: "nat \<Rightarrow> nat \<Rightarrow> bool \<Rightarrow> 'r \<Rightarrow> grpc_status \<Rightarrow> ('cb, 'r) async_client \<Rightarrow>
    (('cb, 'r) async_client \<times> ('cb, 'r) rpc_event) res" where
  "thread_pass i j ok response status s =
     (let q = mpCqs s ! i; c = (cq_calls q ! j)\<lparr>mpResponse := response, mpStatus := status\<rparr> in
      res_bind (Processed ok c) (\<lambda>ev.
      Inr (s\<lparr>mpCqs := (mpCqs s)[i := q\<lparr>cq_calls := take j (cq_calls q) @ drop (Suc j) (cq_calls q)\<rparr>]\<rparr>, ev)))"

definition thread_end :: "nat \<Rightarrow> ('cb, 'r) async_client \<Rightarrow> ('cb, 'r) async_client" where
  "thread_end i s = s\<lparr>thread_runs := (thread_runs s)[i := False]\<rparr>"

definition dtor_shutdown :: "nat \<Rightarrow> ('cb, 'r) async_client \<Rightarrow> ('cb, 'r) async_client" where
  "dtor_shutdown i s = s\<lparr>mpCqs := (mpCqs s)[i := (mpCqs s ! i)\<lparr>cq_shut := True\<rparr>]\<rparr>"

inductive ac_step :: "('cb, 'r) async_client \<Rightarrow> ('cb, 'r) rpc_event list \<Rightarrow> ('cb, 'r) async_client \<Rightarrow> bool" where
  call: "dtor_at s = None \<Longrightarrow> Call now blank timeoutInMs cb s = Inr (s', ev) \<Longrightarrow> ac_step s [ev] s'"
| answer: "i < length (mpCqs s) \<Longrightarrow> thread_runs s ! i \<Longrightarrow> j < length (cq_calls (mpCqs s ! i)) \<Longrightarrow>
    thread_pass i j ok response status s = Inr (s', ev) \<Longrightarrow> ac_step s [ev] s'"
| ends: "i < length (mpCqs s) \<Longrightarrow> thread_runs s ! i \<Longrightarrow> cq_shut (mpCqs s ! i) \<Longrightarrow> cq_calls (mpCqs s ! i) = [] \<Longrightarrow>
    ac_step s [] (thread_end i s)"
| dtor: "dtor_at s = None \<Longrightarrow> ac_step s [] (s\<lparr>dtor_at := Some 0\<rparr>)"
| shutdown: "dtor_at s = Some i \<Longrightarrow> i < nat (mThreadNum s) \<Longrightarrow> \<not> cq_shut (mpCqs s ! i) \<Longrightarrow>
    ac_step s [] (dtor_shutdown i s)"
| joined: "dtor_at s = Some i \<Longrightarrow> i < nat (mThreadNum s) \<Longrightarrow> cq_shut (mpCqs s ! i) \<Longrightarrow> \<not> thread_runs s ! i \<Longrightarrow>
    ac_step s [] (s\<lparr>dtor_at := Some (Suc i)\<rparr>)"

inductive ac_run :: "('cb, 'r) async_client \<Rightarrow> ('cb, 'r) rpc_event list \<Rightarrow> ('cb, 'r) async_client \<Rightarrow> bool" for s0 where
  start: "ac_run s0 [] s0"
| more: "ac_run s0 evs s \<Longrightarrow> ac_step s evs' s' \<Longrightarrow> ac_run s0 (evs @ evs') s'"

section \<open>Every call is answered once\<close>

fun started_calls :: "('cb, 'r) rpc_event list \<Rightarrow> (nat \<times> 'cb) list" where
  "started_calls [] = []"
| "started_calls (Call_started a cb i # evs) = (a, cb) # started_calls evs"
| "started_calls (_ # evs) = started_calls evs"

fun answered_calls :: "('cb, 'r) rpc_event list \<Rightarrow> (nat \<times> 'cb) list" where
  "answered_calls [] = []"
| "answered_calls (Call_answered a cb r st # evs) = (a, cb) # answered_calls evs"
| "answered_calls (_ # evs) = answered_calls evs"

lemma started_calls_append [simp]: "started_calls (xs @ ys) = started_calls xs @ started_calls ys"
  by (induction xs rule: started_calls.induct) auto

lemma answered_calls_append [simp]: "answered_calls (xs @ ys) = answered_calls xs @ answered_calls ys"
  by (induction xs rule: answered_calls.induct) auto

definition call_key :: "('cb, 'r) client_call \<Rightarrow> nat \<times> 'cb" where
  "call_key c = (call_addr c, the (callback_fn c))"

definition open_calls :: "('cb, 'r) async_client \<Rightarrow> ('cb, 'r) client_call list" where
  "open_calls s = concat (map cq_calls (mpCqs s))"

text \<open>What every step keeps.\<close>

definition ac_ok :: "('cb, 'r) async_client \<Rightarrow> bool" where
  "ac_ok s \<longleftrightarrow> length (mpCqs s) = nat (mThreadNum s) \<and> length (thread_runs s) = nat (mThreadNum s) \<and>
     (\<forall>c \<in> set (open_calls s). callback_fn c \<noteq> None) \<and>
     (\<forall>i < nat (mThreadNum s). \<not> thread_runs s ! i \<longrightarrow> cq_shut (mpCqs s ! i) \<and> cq_calls (mpCqs s ! i) = []) \<and>
     (\<forall>i < nat (mThreadNum s). cq_shut (mpCqs s ! i) \<longrightarrow> (\<exists>d. dtor_at s = Some d \<and> i \<le> d)) \<and>
     (\<forall>d. dtor_at s = Some d \<longrightarrow> d \<le> nat (mThreadNum s) \<and> (\<forall>i < d. \<not> thread_runs s ! i))"

lemma ac_ok_init: "ac_ok (AsyncClient mem threadNum)"
  by (simp add: ac_ok_def AsyncClient_def open_calls_def)


lemma mset_concat_update:
  assumes "i < length qs"
  shows "mset (concat (map f (qs[i := q]))) + mset (f (qs ! i)) = mset (concat (map f qs)) + mset (f q)"
proof -
  have "qs = take i qs @ qs ! i # drop (Suc i) qs" using id_take_nth_drop [OF assms] .
  then have "mset (concat (map f qs)) = mset (concat (map f (take i qs))) + mset (f (qs ! i)) + mset (concat (map f (drop (Suc i) qs)))"
    by (metis concat.simps(2) concat_append list.simps(9) map_append mset_append union_assoc)
  then show ?thesis unfolding upd_conv_take_nth_drop [OF assms] by simp
qed

lemma mset_remove_nth: "j < length xs \<Longrightarrow> mset (take j xs @ drop (Suc j) xs) + {#xs ! j#} = mset xs"
  using arg_cong [OF id_take_nth_drop, of j xs mset] by simp

lemma CallD:
  assumes "Call now blank timeoutInMs cb s = Inr (s', ev)"
  obtains c where "cq_index s < length (mpCqs s)" "\<not> cq_shut (mpCqs s ! cq_index s)" "call_key c = (next_call s, cb)"
    "callback_fn c \<noteq> None" "ev = Call_started (next_call s) cb (cq_index s)"
    "s' = s\<lparr>mCursor := mCursor s + 1, mpCqs := (mpCqs s)[cq_index s :=
        (mpCqs s ! cq_index s)\<lparr>cq_calls := cq_calls (mpCqs s ! cq_index s) @ [c]\<rparr>], next_call := next_call s + 1\<rparr>"
proof -
  from assms obtain c where "StartCall now timeoutInMs (SetCallback cb (GeneralAsyncClientCall (next_call s) blank)) = Inr c"
    and rest: "cq_index s < length (mpCqs s)" "\<not> cq_shut (mpCqs s ! cq_index s)"
      "ev = Call_started (next_call s) cb (cq_index s)"
      "s' = s\<lparr>mCursor := mCursor s + 1, mpCqs := (mpCqs s)[cq_index s :=
        (mpCqs s ! cq_index s)\<lparr>cq_calls := cq_calls (mpCqs s ! cq_index s) @ [c]\<rparr>], next_call := next_call s + 1\<rparr>"
    by (auto simp: Call_def Let_def res_bind_Inr_iff split: if_splits)
  moreover from this(1) have "call_key c = (next_call s, cb)" "callback_fn c \<noteq> None"
    by (auto simp: StartCall_def SetCallback_def GeneralAsyncClientCall_def call_key_def Let_def split: if_splits)
  ultimately show thesis using that by blast
qed

lemma thread_passD:
  assumes "thread_pass i j ok response status s = Inr (s', ev)"
  obtains cb st where "callback_fn (cq_calls (mpCqs s ! i) ! j) = Some cb"
    "ev = Call_answered (call_addr (cq_calls (mpCqs s ! i) ! j)) cb response st"
    "st = (if ok then status else Status 2 ''grpc unknown mistake'')"
    "s' = s\<lparr>mpCqs := (mpCqs s)[i := (mpCqs s ! i)\<lparr>cq_calls := take j (cq_calls (mpCqs s ! i)) @ drop (Suc j) (cq_calls (mpCqs s ! i))\<rparr>]\<rparr>"
  using assms by (auto simp: thread_pass_def Processed_def Let_def res_bind_Inr_iff split: option.splits)

lemma open_calls_update:
  assumes "i < length (mpCqs s)"
  shows "mset (open_calls (s\<lparr>mpCqs := (mpCqs s)[i := q]\<rparr>)) + mset (cq_calls (mpCqs s ! i)) =
    mset (open_calls s) + mset (cq_calls q)"
  using mset_concat_update [OF assms, of cq_calls q] by (simp add: open_calls_def)

lemma open_calls_started:
  assumes "Call now blank timeoutInMs cb s = Inr (s', ev)"
  shows "\<exists>c. mset (open_calls s') = add_mset c (mset (open_calls s)) \<and> call_key c = (next_call s, cb) \<and> callback_fn c \<noteq> None"
proof -
  from assms obtain c where c: "cq_index s < length (mpCqs s)" "call_key c = (next_call s, cb)" "callback_fn c \<noteq> None"
    "s' = s\<lparr>mCursor := mCursor s + 1, mpCqs := (mpCqs s)[cq_index s :=
        (mpCqs s ! cq_index s)\<lparr>cq_calls := cq_calls (mpCqs s ! cq_index s) @ [c]\<rparr>], next_call := next_call s + 1\<rparr>"
    by (rule CallD) blast
  have "mset (open_calls s') + mset (cq_calls (mpCqs s ! cq_index s)) =
      mset (open_calls s) + mset (cq_calls (mpCqs s ! cq_index s) @ [c])"
    using open_calls_update [OF c(1), of "(mpCqs s ! cq_index s)\<lparr>cq_calls := cq_calls (mpCqs s ! cq_index s) @ [c]\<rparr>"]
    unfolding c(4) by (simp add: open_calls_def)
  with c(2,3) show ?thesis by auto
qed

lemma open_calls_answered:
  assumes "thread_pass i j ok response status s = Inr (s', ev)" "i < length (mpCqs s)" "j < length (cq_calls (mpCqs s ! i))"
  shows "\<exists>c cb st. mset (open_calls s) = add_mset c (mset (open_calls s')) \<and> callback_fn c = Some cb \<and>
    ev = Call_answered (call_addr c) cb response st"
proof -
  let ?calls = "cq_calls (mpCqs s ! i)"
  from assms(1) obtain cb st where r: "callback_fn (?calls ! j) = Some cb"
    "ev = Call_answered (call_addr (?calls ! j)) cb response st"
    "s' = s\<lparr>mpCqs := (mpCqs s)[i := (mpCqs s ! i)\<lparr>cq_calls := take j ?calls @ drop (Suc j) ?calls\<rparr>]\<rparr>"
    by (rule thread_passD) blast
  have "mset (open_calls s') + mset ?calls = mset (open_calls s) + mset (take j ?calls @ drop (Suc j) ?calls)"
    using open_calls_update [OF assms(2), of "(mpCqs s ! i)\<lparr>cq_calls := take j ?calls @ drop (Suc j) ?calls\<rparr>"]
    unfolding r(3) by simp
  moreover have "mset ?calls = mset (take j ?calls @ drop (Suc j) ?calls) + {#?calls ! j#}"
    using mset_remove_nth [OF assms(3)] by simp
  ultimately have "mset (open_calls s) = add_mset (?calls ! j) (mset (open_calls s'))" by simp
  with r(1,2) show ?thesis by blast
qed

lemma open_calls_other:
  "i < length (mpCqs s) \<Longrightarrow> mset (open_calls (dtor_shutdown i s)) = mset (open_calls s)"
  "open_calls (thread_end i s) = open_calls s" "open_calls (s\<lparr>dtor_at := d\<rparr>) = open_calls s"
  using open_calls_update [of i s "(mpCqs s ! i)\<lparr>cq_shut := True\<rparr>"]
  by (simp_all add: dtor_shutdown_def thread_end_def open_calls_def)


lemma open_callbacks:
  assumes "ac_step s evs s'" "\<forall>c \<in> set (open_calls s). callback_fn c \<noteq> None" "length (mpCqs s) = nat (mThreadNum s)"
  shows "\<forall>c \<in> set (open_calls s'). callback_fn c \<noteq> None"
  using assms(1)
proof cases
  case (call now blank timeoutInMs cb ev)
  from open_calls_started [OF call(3)] assms(2) show ?thesis
    by (metis insert_iff set_mset_add_mset_insert set_mset_mset)
next
  case (answer i j ok response status ev)
  from open_calls_answered [OF answer(5,2,4)] assms(2) show ?thesis
    by (metis insert_iff set_mset_add_mset_insert set_mset_mset)
next
  case (shutdown i)
  then have "set (open_calls s') = set (open_calls s)"
    using open_calls_other(1) [of i s] assms(3) by (metis mset_eq_setD)
  with assms(2) show ?thesis by simp
qed (use assms(2) in \<open>simp_all add: open_calls_other\<close>)

lemma ac_step_ok:
  assumes "ac_step s evs s'" "ac_ok s"
  shows "ac_ok s'"
proof -
  have cbs: "\<forall>c \<in> set (open_calls s'). callback_fn c \<noteq> None"
    using open_callbacks [OF assms(1)] assms(2) unfolding ac_ok_def by blast
  show ?thesis
    using assms(1)
  proof cases
    case (call now blank timeoutInMs cb ev)
    from call(3) obtain c where c: "cq_index s < length (mpCqs s)" "\<not> cq_shut (mpCqs s ! cq_index s)"
      "s' = s\<lparr>mCursor := mCursor s + 1, mpCqs := (mpCqs s)[cq_index s :=
        (mpCqs s ! cq_index s)\<lparr>cq_calls := cq_calls (mpCqs s ! cq_index s) @ [c]\<rparr>], next_call := next_call s + 1\<rparr>"
      by (rule CallD) blast
    show ?thesis using assms(2) cbs c(1,2) unfolding ac_ok_def c(3) by (auto simp: nth_list_update)
  next
    case (answer i j ok response status ev)
    from answer(5) have s': "s' = s\<lparr>mpCqs := (mpCqs s)[i := (mpCqs s ! i)\<lparr>cq_calls :=
        take j (cq_calls (mpCqs s ! i)) @ drop (Suc j) (cq_calls (mpCqs s ! i))\<rparr>]\<rparr>"
      by (rule thread_passD) blast
    show ?thesis using assms(2) cbs answer(2,3) unfolding ac_ok_def s' by (auto simp: nth_list_update)
  next
    case (ends i)
    show ?thesis
      using assms(2) cbs ends unfolding ac_ok_def by (auto simp: nth_list_update thread_end_def)
  next
    case dtor
    show ?thesis using assms(2) cbs dtor unfolding ac_ok_def by auto
  next
    case (shutdown i)
    show ?thesis
      using assms(2) cbs shutdown unfolding ac_ok_def by (auto simp: nth_list_update dtor_shutdown_def)
  next
    case (joined i)
    show ?thesis using assms(2) cbs joined unfolding ac_ok_def by (auto simp: less_Suc_eq)
  qed
qed

lemma ac_run_ok: "ac_run s0 evs s \<Longrightarrow> ac_ok s0 \<Longrightarrow> ac_ok s"
  by (induction rule: ac_run.induct) (auto intro: ac_step_ok)

lemma ac_step_calls:
  assumes "ac_step s evs s'" "ac_ok s"
  shows "mset (started_calls evs) + image_mset call_key (mset (open_calls s)) =
    mset (answered_calls evs) + image_mset call_key (mset (open_calls s'))"
  using assms(1)
proof cases
  case (call now blank timeoutInMs cb ev)
  moreover from call(3) have "ev = Call_started (next_call s) cb (cq_index s)" by (rule CallD) blast
  ultimately show ?thesis using open_calls_started [OF call(3)] by auto
next
  case (answer i j ok response status ev)
  from open_calls_answered [OF answer(5,2,4)] answer(1) show ?thesis by (auto simp: call_key_def)
next
  case (shutdown i)
  with assms(2) show ?thesis using open_calls_other(1) [of i s] by (simp add: ac_ok_def)
qed (simp_all add: open_calls_other)

lemma ac_step_addr:
  assumes "ac_step s evs s'"
  shows "map fst (started_calls evs) = [next_call s..<next_call s']" "mThreadNum s' = mThreadNum s"
    "mCursor s' - of_nat (next_call s') = mCursor s - of_nat (next_call s)" "next_call s \<le> next_call s'"
proof -
  have "map fst (started_calls evs) = [next_call s..<next_call s'] \<and> mThreadNum s' = mThreadNum s \<and>
      mCursor s' - of_nat (next_call s') = mCursor s - of_nat (next_call s) \<and> next_call s \<le> next_call s'"
    using assms
  proof cases
    case (call now blank timeoutInMs cb ev)
    from call(3) obtain c where c: "ev = Call_started (next_call s) cb (cq_index s)"
        "s' = s\<lparr>mCursor := mCursor s + 1, mpCqs := (mpCqs s)[cq_index s :=
          (mpCqs s ! cq_index s)\<lparr>cq_calls := cq_calls (mpCqs s ! cq_index s) @ [c]\<rparr>], next_call := next_call s + 1\<rparr>"
      by (rule CallD) blast
    then show ?thesis
      using call(1) by (simp add: algebra_simps)
  next
    case (answer i j ok response status ev)
    from answer(5) obtain cb st where "ev = Call_answered (call_addr (cq_calls (mpCqs s ! i) ! j)) cb response st"
      "s' = s\<lparr>mpCqs := (mpCqs s)[i := (mpCqs s ! i)\<lparr>cq_calls :=
          take j (cq_calls (mpCqs s ! i)) @ drop (Suc j) (cq_calls (mpCqs s ! i))\<rparr>]\<rparr>"
      by (rule thread_passD) blast
    then show ?thesis
      using answer(1) by simp
  qed (simp_all add: thread_end_def dtor_shutdown_def)
  then show "map fst (started_calls evs) = [next_call s..<next_call s']" "mThreadNum s' = mThreadNum s"
    "mCursor s' - of_nat (next_call s') = mCursor s - of_nat (next_call s)" "next_call s \<le> next_call s'"
    by blast+
qed

lemma ac_run_calls:
  "ac_run s0 evs s \<Longrightarrow> ac_ok s0 \<Longrightarrow> open_calls s0 = [] \<Longrightarrow> next_call s0 = 0 \<Longrightarrow>
   mset (started_calls evs) = mset (answered_calls evs) + image_mset call_key (mset (open_calls s)) \<and>
   map fst (started_calls evs) = [0..<next_call s]"
proof (induction rule: ac_run.induct)
  case (more evs s evs' s')
  note ok = ac_run_ok [OF more(1,4)]
  from more have IH: "mset (started_calls evs) = mset (answered_calls evs) + image_mset call_key (mset (open_calls s))"
    "map fst (started_calls evs) = [0..<next_call s]" by blast+
  have "[0..<next_call s'] = [0..<next_call s] @ [next_call s..<next_call s']"
    using upt_add_eq_append [of 0 "next_call s" "next_call s' - next_call s"] ac_step_addr(4) [OF more(2)] by simp
  then have "map fst (started_calls (evs @ evs')) = [0..<next_call s']"
    using IH(2) ac_step_addr(1) [OF more(2)] by simp
  moreover have "mset (started_calls (evs @ evs')) =
      mset (answered_calls (evs @ evs')) + image_mset call_key (mset (open_calls s'))"
    using IH(1) ac_step_calls [OF more(2) ok] by (simp add: add.commute add.left_commute)
  ultimately show ?case by blast
qed simp


lemma open_calls_init [simp]: "open_calls (AsyncClient mem n) = []" "next_call (AsyncClient mem n) = 0"
  "mThreadNum (AsyncClient mem n) = n" "mCursor (AsyncClient mem n) = mem"
  by (simp_all add: AsyncClient_def open_calls_def)

lemma answered_once:
  assumes "ac_run (AsyncClient mem n) evs s"
  shows "mset (started_calls evs) = mset (answered_calls evs) + mset (map call_key (open_calls s)) \<and>
    distinct (map fst (started_calls evs)) \<and>
    (dtor_at s = Some (nat n) \<longrightarrow> mset (answered_calls evs) = mset (started_calls evs))"
proof -
  note calls = ac_run_calls [OF assms ac_ok_init open_calls_init(1,2)]
  have ok: "ac_ok s" by (rule ac_run_ok [OF assms ac_ok_init])
  have n: "mThreadNum s = n"
    using assms by (induction rule: ac_run.induct) (simp_all add: ac_step_addr(2))
  have "open_calls s = []" if "dtor_at s = Some (nat n)"
  proof -
    have "cq_calls q = []" if "q \<in> set (mpCqs s)" for q
      using that ok \<open>dtor_at s = Some (nat n)\<close> n unfolding ac_ok_def in_set_conv_nth by metis
    then show ?thesis by (simp add: open_calls_def)
  qed
  with calls show ?thesis by simp
qed

text \<open>
  C19: The calls that were started are the ones answered and the ones still in a queue, no two the
  same: in every run no call is lost, none is answered twice, and each is answered through the
  callback it was started with. When the destructor has returned, none is left unanswered.
\<close>

theorem calls_answered_once:
  assumes "ac_run (AsyncClient mem n) evs s"
  shows "mset (started_calls evs) = mset (answered_calls evs) + mset (map call_key (open_calls s)) \<and>
    distinct (map fst (started_calls evs)) \<and>
    (dtor_at s = Some (nat n) \<longrightarrow> mset (answered_calls evs) = mset (started_calls evs))"
  by (rule answered_once [OF assms])

section \<open>Round robin\<close>

lemma ac_run_cursor:
  "ac_run (AsyncClient mem n) evs s \<Longrightarrow> mThreadNum s = n \<and> mCursor s = mem + of_nat (next_call s)"
proof (induction rule: ac_run.induct)
  case (more evs s evs' s')
  from ac_step_addr(2,3) [OF more(2)] more(3) show ?case by (simp add: algebra_simps)
qed simp

lemma cq_index_mod:
  assumes "0 < mThreadNum s" "mThreadNum s < 2 ^ 31"
  shows "cq_index s = unat (mCursor s) mod nat (mThreadNum s)"
proof -
  have "unat (word_of_int (mThreadNum s) :: 64 word) = nat (mThreadNum s)"
    using assms by (simp add: unat_eq_nat_uint uint_word_of_int_eq take_bit_int_eq_self)
  then show ?thesis by (simp add: cq_index_def unat_mod)
qed

text \<open>
  With \<open>n > 0\<close> threads a call can be started on every state before the destructor, its deadline
  permitting, and call number \<open>a\<close> goes to queue \<open>(mem + a) mod 2 ^ 64 mod n\<close>: the calls take the
  queues in turn, from wherever the uninitialised cursor starts. With no threads every call is
  undefined.
\<close>

theorem calls_round_robin:
  assumes "ac_run (AsyncClient mem n) evs s" "n < 2 ^ 31"
  shows "if 0 < n
    then (\<forall>a cb i. Call_started a cb i \<in> set evs \<longrightarrow> i = unat (mem + of_nat a) mod nat n) \<and>
      (dtor_at s = None \<longrightarrow> now + timeoutInMs * 1000000 < 2 ^ 63 \<longrightarrow>
         (\<exists>s' i. Call now blank timeoutInMs cb s = Inr (s', Call_started (next_call s) cb i)))
    else Call now blank timeoutInMs cb (AsyncClient mem n) = Inl Undefined_behaviour"
proof (cases "0 < n")
  case True
  have idx: "i = unat (mem + of_nat a) mod nat n" if "Call_started a cb i \<in> set evs" for a cb i
    using assms(1) that
  proof (induction rule: ac_run.induct)
    case (more evs s evs' s')
    note cur = ac_run_cursor [OF more(1)]
    show ?case
    proof (cases "Call_started a cb i \<in> set evs")
      case False
      with more(4) have "Call_started a cb i \<in> set evs'" by simp
      with more(2) have "a = next_call s \<and> i = cq_index s"
        by (cases rule: ac_step.cases) (auto elim!: CallD thread_passD)
      with cur cq_index_mod [of s] True assms(2) show ?thesis by simp
    qed (rule more(3))
  qed simp
  note cur = ac_run_cursor [OF assms(1)] and ok = ac_run_ok [OF assms(1) ac_ok_init]
  have "\<exists>s' i. Call now blank timeoutInMs cb s = Inr (s', Call_started (next_call s) cb i)"
    if "dtor_at s = None" "now + timeoutInMs * 1000000 < 2 ^ 63"
  proof -
    have i: "cq_index s < nat n" using cq_index_mod [of s] cur True assms(2) by simp
    have "word_of_int n \<noteq> (0 :: 64 word)"
      using True assms(2) by (simp add: word_of_int_eq_0_iff) (auto dest: zdvd_imp_le)
    moreover have "length (mpCqs s) = nat n" "\<not> cq_shut (mpCqs s ! cq_index s)"
      using ok i cur that(1) unfolding ac_ok_def by auto
    ultimately show ?thesis
      using i cur that(2) by (auto simp: Call_def StartCall_def Let_def)
  qed
  with idx True show ?thesis by auto
next
  case False
  then have "mpCqs (AsyncClient mem n :: ('a, 'b) async_client) = []" by (simp add: AsyncClient_def)
  with False show ?thesis by (simp add: Call_def Let_def)
qed


text \<open>Two calls on one thread, of which the second is answered first.\<close>

definition demo_ac1 :: "(nat, string) async_client" where
  "demo_ac1 = fst (projr (Call 0 [] 3000 7 (AsyncClient 5 1)))"

definition demo_ac2 :: "(nat, string) async_client" where
  "demo_ac2 = fst (projr (Call 0 [] 0 8 demo_ac1))"

lemmas demo_ac_defs = demo_ac2_def demo_ac1_def AsyncClient_def Call_def StartCall_def SetCallback_def
  GeneralAsyncClientCall_def cq_index_def thread_pass_def Processed_def

lemma demo_ac_run:
  "\<exists>s. ac_run (AsyncClient 5 1 :: (nat, string) async_client)
     ([] @ [Call_started 0 7 0] @ [Call_started 1 8 0] @ [Call_answered 1 8 ''v'' (Status 0 [])]) s \<and>
     map call_key (open_calls s) = [(0, 7)]"
proof -
  have 1: "ac_step (AsyncClient 5 1) [Call_started 0 7 0] demo_ac1"
    by (rule ac_step.call [where now = 0 and blank = "[]" and timeoutInMs = 3000 and cb = 7]) (simp_all add: demo_ac_defs Let_def)
  have 2: "ac_step demo_ac1 [Call_started 1 8 0] demo_ac2"
    by (rule ac_step.call [where now = 0 and blank = "[]" and timeoutInMs = 0 and cb = 8]) (simp_all add: demo_ac_defs Let_def)
  obtain s where s: "thread_pass 0 1 True ''v'' (Status 0 []) demo_ac2 = Inr (s, Call_answered 1 8 ''v'' (Status 0 []))"
    "map call_key (open_calls s) = [(0, 7)]"
    by (simp add: demo_ac_defs Let_def open_calls_def call_key_def)
  have 3: "ac_step demo_ac2 [Call_answered 1 8 ''v'' (Status 0 [])] s"
    by (rule ac_step.answer [OF _ _ _ s(1)]) (simp_all add: demo_ac_defs Let_def)
  from ac_run.more [OF ac_run.more [OF ac_run.more [OF ac_run.start 1] 2] 3] s(2) show ?thesis by auto
qed

theorem calls_answered_once_witness:
  "\<exists>s. ac_run (AsyncClient 5 1 :: (nat, string) async_client)
     [Call_started 0 7 0, Call_started 1 8 0, Call_answered 1 8 ''v'' (Status 0 [])] s \<and>
     {#(0, 7), (1, 8)#} = {#(1, 8)#} + mset (map call_key (open_calls s))"
  using demo_ac_run calls_answered_once [of 5 1
    "[Call_started 0 7 0, Call_started 1 8 0, Call_answered 1 8 ''v'' (Status 0 [])] :: (nat, string) rpc_event list"] by auto

theorem calls_round_robin_witness:
  "\<exists>s. ac_run (AsyncClient 5 1 :: (nat, string) async_client)
     [Call_started 0 7 0, Call_started 1 8 0, Call_answered 1 8 ''v'' (Status 0 [])] s \<and>
     (0 :: nat) = unat (5 + of_nat 1 :: 64 word) mod nat 1"
  using demo_ac_run calls_round_robin [of 5 1
    "[Call_started 0 7 0, Call_started 1 8 0, Call_answered 1 8 ''v'' (Status 0 [])] :: (nat, string) rpc_event list"] by auto

section \<open>The destructor\<close>

text \<open>What is left to do once the destructor runs.\<close>

definition dtor_work :: "('cb, 'r) async_client \<Rightarrow> nat" where
  "dtor_work s = length (open_calls s) + count_list (thread_runs s) True +
     length (filter (\<lambda>q. \<not> cq_shut q) (mpCqs s)) + (nat (mThreadNum s) - the (dtor_at s))"

lemma filter_update_less:
  "i < length xs \<Longrightarrow> P (xs ! i) \<Longrightarrow> \<not> P y \<Longrightarrow> length (filter P (xs[i := y])) < length (filter P xs)"
  by (induction xs arbitrary: i) (auto split: nat.splits simp: nth_Cons')

lemma filter_update_same:
  "P (xs ! i) = P y \<Longrightarrow> i < length xs \<Longrightarrow> length (filter P (xs[i := y])) = length (filter P xs)"
  by (induction xs arbitrary: i) (auto split: nat.splits simp: nth_Cons')

lemma count_list_filter: "count_list xs True = length (filter (\<lambda>x. x) xs)"
  by (induction xs) auto

lemma dtor_step_work:
  assumes "ac_step s evs s'" "ac_ok s" "dtor_at s \<noteq> None"
  shows "dtor_work s' < dtor_work s \<and> dtor_at s' \<noteq> None"
  using assms(1)
proof cases
  case (call now blank timeoutInMs cb ev)
  with assms(3) show ?thesis by simp
next
  case (answer i j ok response status ev)
  from answer(5) have s': "s' = s\<lparr>mpCqs := (mpCqs s)[i := (mpCqs s ! i)\<lparr>cq_calls :=
      take j (cq_calls (mpCqs s ! i)) @ drop (Suc j) (cq_calls (mpCqs s ! i))\<rparr>]\<rparr>"
    by (rule thread_passD) blast
  have "length (open_calls s) = Suc (length (open_calls s'))"
    using open_calls_answered [OF answer(5,2,4)] by (metis size_add_mset size_mset)
  moreover have "length (filter (\<lambda>q. \<not> cq_shut q) (mpCqs s')) = length (filter (\<lambda>q. \<not> cq_shut q) (mpCqs s))"
    unfolding s' using answer(2) by (simp add: filter_update_same)
  ultimately show ?thesis using assms(3) by (simp add: dtor_work_def s')
next
  case (ends i)
  then have "length (filter (\<lambda>x. x) ((thread_runs s)[i := False])) < length (filter (\<lambda>x. x) (thread_runs s))"
    using assms(2) by (intro filter_update_less) (simp_all add: ac_ok_def)
  then show ?thesis
    unfolding ends(2) dtor_work_def open_calls_other(2) using assms(3) by (simp add: thread_end_def count_list_filter)
next
  case dtor
  with assms(3) show ?thesis by simp
next
  case (shutdown i)
  have i: "i < length (mpCqs s)" using shutdown(4) assms(2) by (simp add: ac_ok_def)
  have "length (open_calls (dtor_shutdown i s)) = length (open_calls s)"
    using open_calls_other(1) [OF i] by (metis size_mset)
  moreover have "length (filter (\<lambda>q. \<not> cq_shut q) ((mpCqs s)[i := (mpCqs s ! i)\<lparr>cq_shut := True\<rparr>])) <
      length (filter (\<lambda>q. \<not> cq_shut q) (mpCqs s))"
    using i shutdown(5) by (intro filter_update_less) simp_all
  ultimately show ?thesis
    unfolding shutdown(2) dtor_work_def using assms(3) by (simp add: dtor_shutdown_def)
next
  case (joined i)
  then show ?thesis by (auto simp: dtor_work_def open_calls_def)
qed

lemma dtor_progress:
  assumes "ac_ok s" "dtor_at s = Some d" "d < nat (mThreadNum s)"
  shows "\<exists>evs s'. ac_step s evs s'"
proof (cases "cq_shut (mpCqs s ! d)")
  case False
  with assms(2,3) show ?thesis by (blast intro: ac_step.shutdown)
next
  case shut: True
  have d: "d < length (mpCqs s)" using assms(1,3) by (simp add: ac_ok_def)
  show ?thesis
  proof (cases "thread_runs s ! d")
    case False
    with shut assms(2,3) show ?thesis by (blast intro: ac_step.joined)
  next
    case run: True
    show ?thesis
    proof (cases "cq_calls (mpCqs s ! d)")
      case Nil
      with run shut d show ?thesis by (blast intro: ac_step.ends)
    next
      case (Cons c cs)
      then have "c \<in> set (open_calls s)" using d by (auto simp: open_calls_def intro!: bexI [of _ "mpCqs s ! d"])
      then obtain cb where "callback_fn c = Some cb" using assms(1) unfolding ac_ok_def by blast
      then obtain s' ev where "thread_pass d 0 True (mpResponse c) (mpStatus c) s = Inr (s', ev)"
        using Cons by (simp add: thread_pass_def Processed_def Let_def)
      with run d Cons show ?thesis by (intro exI) (rule ac_step.answer, auto)
    qed
  qed
qed




end
