(* ===== verification/Rtsp_Service.thy ===== *)
theory Rtsp_Service
  imports Rtp_Producer
begin

unbundle bit_operations_syntax

text \<open>
  \<open>RtspService\<close> (\<open>core/include/rtsp_service.h\<close>, \<open>core/src/rtsp_service.cpp\<close>): the connections, the
  proxy of each video (the clients that watch it, by how far they have come), the RTSP handlers,
  and the three callbacks a proxy registers with the producer.

  A client is the address of its \<open>EventRtspServer\<close>, a proxy the address of its \<open>ProxyInfo\<close>, and a
  callback of the producer is the proxy it is bound to. Addresses are given out once. A pointer
  is followed only if what it points to is still in the map that owns it; otherwise the
  behaviour is undefined. Replies, media and closed sockets are outputs. The RTSP parser is a
  parameter: what it makes of the bytes of a connection is a list of requests.
\<close>

section \<open>State\<close>

record proxy_info =
  px_addr :: nat
  beforeDescribeClients :: "nat list"
  waitingSdpClients :: "nat list"
  beforePlayClients :: "nat list"
  playingClients :: "nat list"
  px_registered :: bool
  sourceSdp :: string
  sendBuffer :: bytes

record rtsp_service =
  mEventLoopThreads :: nat
  mBev2RtspServer :: "(nat, nat) omap"
  mVideoRequest2ProxyInfo :: "(video_request, proxy_info) omap"
  mpRtpProducer :: "nat rtp_producer"
  next_addr :: nat

datatype svc_out =
    Reply_options nat int
  | Reply_describe nat int string
  | Reply_setup nat int "string option" "string option"
  | Reply_play nat int
  | Interleaved nat bytes
  | Close_socket nat
  | Producer "nat prod_out"

text \<open>What a handler returns: a number of its own, or that of the reply it ends with.\<close>

datatype handler_ret = Ret int | Ret_reply

type_synonym svc_res = "(rtsp_service \<times> svc_out list) res"

text \<open>A new proxy, with its send buffer of 1600 bytes; \<open>mem\<close> is what the memory held before.\<close>

definition fresh_buffer :: "(nat \<Rightarrow> byte) \<Rightarrow> bytes" where
  "fresh_buffer mem = map mem [0..<1600]"

definition ProxyInfo :: "nat \<Rightarrow> (nat \<Rightarrow> byte) \<Rightarrow> proxy_info" where
  "ProxyInfo a mem = \<lparr>px_addr = a, beforeDescribeClients = [], waitingSdpClients = [],
     beforePlayClients = [], playingClients = [], px_registered = False, sourceSdp = [],
     sendBuffer = fresh_buffer mem\<rparr>"

definition RtspService :: rtsp_service where
  "RtspService = \<lparr>mEventLoopThreads = 0, mBev2RtspServer = [], mVideoRequest2ProxyInfo = [],
     mpRtpProducer = RtpProducer, next_addr = 0\<rparr>"

record rtsp_config =
  rtsp_port :: int
  event_thread_num :: int

record rtsp_loop_syscalls =
  rl_event_base_new :: bool
  rl_listener_new :: bool

fun start_rtsp_loops :: "(nat \<Rightarrow> rtsp_loop_syscalls) \<Rightarrow> nat \<Rightarrow> rtsp_service \<Rightarrow> rtsp_service res" where
  "start_rtsp_loops sys 0 s = Inr s"
| "start_rtsp_loops sys (Suc n) s =
     (if \<not> rl_event_base_new (sys n) then Inl Fatal
      else if \<not> rl_listener_new (sys n) then Inl Fatal
      else start_rtsp_loops sys n (s\<lparr>mEventLoopThreads := mEventLoopThreads s + 1\<rparr>))"

definition RtspService_Init ::
  "int \<Rightarrow> (nat \<Rightarrow> rtsp_loop_syscalls) \<Rightarrow> nat \<Rightarrow> rtsp_config \<Rightarrow> nat rtp_producer \<Rightarrow> rtsp_service \<Rightarrow>
     rtsp_service res" where
  "RtspService_Init use_pthreads sys hardware_concurrency config rtpProducer s =
     (if use_pthreads \<noteq> 0 then Inl Fatal
      else
        let thread_num = (if event_thread_num config = -1 then int hardware_concurrency
                          else event_thread_num config)
        in start_rtsp_loops sys (nat thread_num) (s\<lparr>mpRtpProducer := rtpProducer\<rparr>))"

text \<open>\<open>Dispatch\<close> returns at once if there is no event loop, and otherwise never; then the destructor.\<close>

definition Dispatch_returns :: "rtsp_service \<Rightarrow> bool" where
  "Dispatch_returns s \<longleftrightarrow> mEventLoopThreads s = 0"

definition RtspService_dtor :: "rtsp_service \<Rightarrow> dtor_action list" where
  "RtspService_dtor s = concat (map (\<lambda>i. [Loopbreak i, Join i]) [0..<mEventLoopThreads s])"

section \<open>The callbacks of a proxy\<close>

definition es_alive :: "rtsp_service \<Rightarrow> nat \<Rightarrow> bool" where
  "es_alive s es \<longleftrightarrow> es \<in> set (map snd (mBev2RtspServer s))"

definition proxy_at :: "nat \<Rightarrow> rtsp_service \<Rightarrow> (video_request \<times> proxy_info) option" where
  "proxy_at a s = find (\<lambda>e. px_addr (snd e) = a) (mVideoRequest2ProxyInfo s)"

definition put_proxy :: "video_request \<Rightarrow> proxy_info \<Rightarrow> rtsp_service \<Rightarrow> rtsp_service" where
  "put_proxy video px s = s\<lparr>mVideoRequest2ProxyInfo :=
     omap_set VideoRequest_less video px (mVideoRequest2ProxyInfo s)\<rparr>"

definition processSdpFunction :: "nat \<Rightarrow> string \<Rightarrow> rtsp_service \<Rightarrow> svc_res" where
  "processSdpFunction proxy sdp s =
     (case proxy_at proxy s of
        None \<Rightarrow> Inl Undefined_behaviour
      | Some (video, px) \<Rightarrow>
          if list_all (es_alive s) (waitingSdpClients px) then
            Inr (put_proxy video
                   (px\<lparr>px_registered := True,
                       beforePlayClients := fold pset_insert (waitingSdpClients px) (beforePlayClients px),
                       waitingSdpClients := [], sourceSdp := sdp\<rparr>) s,
                 map (\<lambda>es. Reply_describe es 200 sdp) (waitingSdpClients px))
          else Inl Undefined_behaviour)"

text \<open>
  The frame of an interleaved packet (RFC 2326, 10.12), written into the proxy's send buffer of
  1600 bytes.
\<close>

definition interleaved_channel :: "bytes \<Rightarrow> byte" where
  "interleaved_channel pkt =
     (let payload_type = unat (pkt ! 1 AND 0x7F) in if 72 \<le> payload_type \<and> payload_type \<le> 76 then 1 else 0)"

definition interleaved_frame :: "bytes \<Rightarrow> bytes" where
  "interleaved_frame pkt =
     [0x24, interleaved_channel pkt, word_of_nat (length pkt div 256), word_of_nat (length pkt mod 256)] @ pkt"

definition consumePktFunction :: "nat \<Rightarrow> bytes \<Rightarrow> rtsp_service \<Rightarrow> svc_res" where
  "consumePktFunction proxy pkt s =
     (case proxy_at proxy s of
        None \<Rightarrow> Inl Undefined_behaviour
      | Some (video, px) \<Rightarrow>
          if length pkt < 2 \<or> length (sendBuffer px) < length pkt + 4 then Inl Undefined_behaviour
          else
            let buf = interleaved_frame pkt @ drop (length pkt + 4) (sendBuffer px) in
            if list_all (es_alive s) (playingClients px) then
              Inr (put_proxy video (px\<lparr>sendBuffer := buf\<rparr>) s,
                   map (\<lambda>es. Interleaved es (take (length pkt + 4) buf)) (playingClients px))
            else Inl Undefined_behaviour)"

definition processErrorFunction :: "nat \<Rightarrow> errc \<Rightarrow> rtsp_service \<Rightarrow> svc_res" where
  "processErrorFunction proxy ec s =
     (case proxy_at proxy s of
        None \<Rightarrow> Inl Undefined_behaviour
      | Some (video, px) \<Rightarrow>
          let clients = beforeDescribeClients px @ waitingSdpClients px @ beforePlayClients px @ playingClients px in
          if list_all (es_alive s) clients then Inr (s, map Close_socket clients)
          else Inl Undefined_behaviour)"

text \<open>The producer's outputs, in their order: its callbacks run, the rest is passed on.\<close>

fun callback :: "nat prod_out \<Rightarrow> rtsp_service \<Rightarrow> svc_res" where
  "callback (Sdp proxy sdp) s = processSdpFunction proxy sdp s"
| "callback (Pkt proxy pkt) s = consumePktFunction proxy pkt s"
| "callback (Err proxy ec) s = processErrorFunction proxy ec s"
| "callback out s = Inr (s, [Producer out])"

fun callbacks :: "nat prod_out list \<Rightarrow> rtsp_service \<Rightarrow> svc_res" where
  "callbacks [] s = Inr (s, [])"
| "callbacks (out # outs) s =
     res_bind (callback out s) (\<lambda>(s, replies).
     res_bind (callbacks outs s) (\<lambda>(s, replies').
     Inr (s, replies @ replies')))"

text \<open>A call of the producer from the service, or an event of the producer itself.\<close>

definition with_producer ::
  "(nat rtp_producer \<Rightarrow> (nat rtp_producer \<times> nat prod_out list) res) \<Rightarrow> rtsp_service \<Rightarrow> svc_res" where
  "with_producer f s =
     res_bind (f (mpRtpProducer s)) (\<lambda>(p, outs). callbacks outs (s\<lparr>mpRtpProducer := p\<rparr>))"


section \<open>The handlers\<close>

definition OnOptions :: "(nat \<Rightarrow> byte) \<Rightarrow> nat \<Rightarrow> string \<Rightarrow> rtsp_service \<Rightarrow> (handler_ret \<times> rtsp_service \<times> svc_out list) res" where
  "OnOptions mem es uri s =
     (let video = VideoRequest_url uri in
      case omap_find VideoRequest_less video (mVideoRequest2ProxyInfo s) of
        None \<Rightarrow>
          let px = (ProxyInfo (next_addr s) mem)\<lparr>beforeDescribeClients := [es]\<rparr>
          in Inr (Ret 0, (put_proxy video px s)\<lparr>next_addr := next_addr s + 1\<rparr>, [Reply_options es 200])
      | Some px \<Rightarrow>
          Inr (Ret 0, put_proxy video (px\<lparr>beforeDescribeClients := pset_insert es (beforeDescribeClients px)\<rparr>) s,
               [Reply_options es 200]))"

definition OnDescribe :: "mm_state \<Rightarrow> fmt_ptr \<times> fmt_ptr \<Rightarrow> nat \<Rightarrow> string \<Rightarrow> rtsp_service \<Rightarrow>
    (handler_ret \<times> rtsp_service \<times> svc_out list) res" where
  "OnDescribe mm mem es uri s =
     (let video = VideoRequest_url uri in
      case omap_find VideoRequest_less video (mVideoRequest2ProxyInfo s) of
        None \<Rightarrow> Inr (Ret (-1), s, [])
      | Some px0 \<Rightarrow>
          let px = px0\<lparr>beforeDescribeClients := pset_erase es (beforeDescribeClients px0)\<rparr> in
          if sourceSdp px = [] \<and> waitingSdpClients px = [] then
            res_bind (with_producer
              (RegisterVideo mm mem video (px_addr px) (px_addr px) (px_addr px))
              (put_proxy video (px\<lparr>waitingSdpClients := [es]\<rparr>) s)) (\<lambda>(s, outs).
            Inr (Ret 0, s, outs))
          else if sourceSdp px \<noteq> [] then
            Inr (Ret 0, put_proxy video (px\<lparr>beforePlayClients := pset_insert es (beforePlayClients px)\<rparr>) s,
                 [Reply_describe es 200 (sourceSdp px)])
          else Inr (Ret 0, put_proxy video px s, []))"

text \<open>The first transport of a SETUP: whether it is TCP, and its two channels.\<close>

record transport =
  transport_tcp :: bool
  interleaved1 :: int
  interleaved2 :: int

definition OnSetup :: "string \<Rightarrow> nat \<Rightarrow> string \<Rightarrow> string option \<Rightarrow> transport \<Rightarrow> rtsp_service \<Rightarrow>
    (handler_ret \<times> rtsp_service \<times> svc_out list) res" where
  "OnSetup rtsp_ptr es uri session tr s =
     (if transport_tcp tr then
        (case session of
           None \<Rightarrow> Inr (Ret_reply, s, [Reply_setup es 200 (Some rtsp_ptr)
             (Some (''RTP/AVP/TCP;interleaved='' @ fmt_int (interleaved1 tr) @ ''-'' @ fmt_int (interleaved2 tr)))])
         | Some _ \<Rightarrow> Inr (Ret_reply, s, [Reply_setup es 461 None None]))
      else Inr (Ret_reply, s, [Reply_setup es 461 None None]))"

definition OnPlay :: "nat \<Rightarrow> string \<Rightarrow> rtsp_service \<Rightarrow> (handler_ret \<times> rtsp_service \<times> svc_out list) res" where
  "OnPlay es uri s =
     (let video = VideoRequest_url uri in
      case omap_find VideoRequest_less video (mVideoRequest2ProxyInfo s) of
        None \<Rightarrow> Inr (Ret (-1), s, [])
      | Some px \<Rightarrow>
          if es \<notin> set (beforePlayClients px) then Inr (Ret_reply, s, [Reply_play es 454])
          else Inr (Ret_reply,
                 put_proxy video (px\<lparr>beforePlayClients := pset_erase es (beforePlayClients px),
                                     playingClients := pset_insert es (playingClients px)\<rparr>) s,
                 [Reply_play es 200]))"

text \<open>\<open>Close\<close>: the first proxy, in map order, that has the client in one of its sets.\<close>

definition drop_client :: "nat \<Rightarrow> proxy_info \<Rightarrow> proxy_info option" where
  "drop_client es px =
     (if es \<in> set (beforeDescribeClients px)
      then Some (px\<lparr>beforeDescribeClients := pset_erase es (beforeDescribeClients px)\<rparr>)
      else if es \<in> set (waitingSdpClients px)
      then Some (px\<lparr>waitingSdpClients := pset_erase es (waitingSdpClients px)\<rparr>)
      else if es \<in> set (beforePlayClients px)
      then Some (px\<lparr>beforePlayClients := pset_erase es (beforePlayClients px)\<rparr>)
      else if es \<in> set (playingClients px)
      then Some (px\<lparr>playingClients := pset_erase es (playingClients px)\<rparr>)
      else None)"

fun find_client :: "nat \<Rightarrow> (video_request, proxy_info) omap \<Rightarrow> (video_request \<times> proxy_info) option" where
  "find_client es [] = None"
| "find_client es ((video, px) # m) =
     (case drop_client es px of Some px' \<Rightarrow> Some (video, px') | None \<Rightarrow> find_client es m)"

definition Close :: "nat \<Rightarrow> rtsp_service \<Rightarrow> svc_res" where
  "Close es s =
     (case find_client es (mVideoRequest2ProxyInfo s) of
        None \<Rightarrow> Inr (s, [])
      | Some (video, px) \<Rightarrow>
          if waitingSdpClients px = [] \<and> beforePlayClients px = [] \<and> playingClients px = [] then
            res_bind (if px_registered px then with_producer (UnregisterVideo video) (put_proxy video px s)
                      else Inr (put_proxy video px s, [])) (\<lambda>(s, outs).
            Inr (s\<lparr>mVideoRequest2ProxyInfo := omap_erase VideoRequest_less video (mVideoRequest2ProxyInfo s)\<rparr>, outs))
          else Inr (put_proxy video px s, []))"

text \<open>
  A request as the parser gives it to the handlers. Six methods have handlers that only log and
  return 0: no reply is sent, and nothing of the service changes.
\<close>

datatype other_method = PAUSE | TEARDOWN | ANNOUNCE | RECORD | GET_PARAMETER | SET_PARAMETER

datatype request =
    OPTIONS string
  | DESCRIBE string
  | SETUP string "string option" transport
  | PLAY string
  | OTHER other_method string

definition OnPause :: "rtsp_service \<Rightarrow> (handler_ret \<times> rtsp_service \<times> svc_out list) res" where
  "OnPause s = Inr (Ret 0, s, [])"

definition OnTeardown :: "rtsp_service \<Rightarrow> (handler_ret \<times> rtsp_service \<times> svc_out list) res" where
  "OnTeardown s = Inr (Ret 0, s, [])"

definition OnAnnounce :: "rtsp_service \<Rightarrow> (handler_ret \<times> rtsp_service \<times> svc_out list) res" where
  "OnAnnounce s = Inr (Ret 0, s, [])"

definition OnRecord :: "rtsp_service \<Rightarrow> (handler_ret \<times> rtsp_service \<times> svc_out list) res" where
  "OnRecord s = Inr (Ret 0, s, [])"

definition OnGetParameter :: "rtsp_service \<Rightarrow> (handler_ret \<times> rtsp_service \<times> svc_out list) res" where
  "OnGetParameter s = Inr (Ret 0, s, [])"

definition OnSetParameter :: "rtsp_service \<Rightarrow> (handler_ret \<times> rtsp_service \<times> svc_out list) res" where
  "OnSetParameter s = Inr (Ret 0, s, [])"

text \<open>The entries of the handler table for them.\<close>

fun OnOther :: "other_method \<Rightarrow> rtsp_service \<Rightarrow> (handler_ret \<times> rtsp_service \<times> svc_out list) res" where
  "OnOther PAUSE s = OnPause s"
| "OnOther TEARDOWN s = OnTeardown s"
| "OnOther ANNOUNCE s = OnAnnounce s"
| "OnOther RECORD s = OnRecord s"
| "OnOther GET_PARAMETER s = OnGetParameter s"
| "OnOther SET_PARAMETER s = OnSetParameter s"

lemma OnOther_same: "OnOther m s = Inr (Ret 0, s, [])"
  by (cases m) (simp_all add: OnPause_def OnTeardown_def OnAnnounce_def OnRecord_def OnGetParameter_def OnSetParameter_def)

text \<open>The memory new objects are made in, and the text of a pointer.\<close>

record allocator =
  mem_proxy :: "nat \<Rightarrow> byte"
  mem_file :: "fmt_ptr \<times> fmt_ptr"
  ptr_text :: string

fun handle :: "mm_state \<Rightarrow> allocator \<Rightarrow> nat \<Rightarrow> request \<Rightarrow> rtsp_service \<Rightarrow>
    (handler_ret \<times> rtsp_service \<times> svc_out list) res" where
  "handle mm al es (OPTIONS uri) s = OnOptions (mem_proxy al) es uri s"
| "handle mm al es (DESCRIBE uri) s = OnDescribe mm (mem_file al) es uri s"
| "handle mm al es (SETUP uri session tr) s = OnSetup (ptr_text al) es uri session tr s"
| "handle mm al es (PLAY uri) s = OnPlay es uri s"
| "handle mm al es (OTHER m uri) s = OnOther m s"

fun handle_all :: "mm_state \<Rightarrow> allocator \<Rightarrow> nat \<Rightarrow> request list \<Rightarrow> rtsp_service \<Rightarrow> svc_res" where
  "handle_all mm al es [] s = Inr (s, [])"
| "handle_all mm al es (r # rs) s =
     res_bind (handle mm al es r s) (\<lambda>(_, s, outs).
     res_bind (handle_all mm al es rs s) (\<lambda>(s, outs').
     Inr (s, outs @ outs')))"

section \<open>Connections\<close>

text \<open>
  \<open>accept_conn_cb\<close>: \<open>bev\<close> is what \<open>bufferevent_socket_new\<close> returned. \<open>readcb\<close>: \<open>requests\<close> is what the
  parser finds in the bytes read, \<open>None\<close> if reading failed. \<open>errorcb\<close>: erasing the entry runs the
  destructor of the connection; \<open>calls_close\<close> says whether \<open>rtsp_server_destroy\<close> calls the handler
  \<open>close\<close>, as the service relies on.
\<close>

definition accept_conn_cb :: "int \<Rightarrow> nat option \<Rightarrow> rtsp_service \<Rightarrow> rtsp_service res" where
  "accept_conn_cb setsockopt_ret bev s =
     (if setsockopt_ret \<noteq> 0 then Inl Fatal
      else case bev of
             None \<Rightarrow> Inr s
           | Some b \<Rightarrow>
               if omap_find ptr_less b (mBev2RtspServer s) \<noteq> None then Inr s
               else Inr (s\<lparr>mBev2RtspServer := omap_set ptr_less b (next_addr s) (mBev2RtspServer s),
                           next_addr := next_addr s + 1\<rparr>))"

definition readcb :: "mm_state \<Rightarrow> allocator \<Rightarrow> nat \<Rightarrow> request list option \<Rightarrow> rtsp_service \<Rightarrow> svc_res" where
  "readcb mm al bev requests s =
     (case omap_find ptr_less bev (mBev2RtspServer s) of
        None \<Rightarrow> Inr (s, [])
      | Some es \<Rightarrow> case requests of None \<Rightarrow> Inr (s, []) | Some rs \<Rightarrow> handle_all mm al es rs s)"

definition EventRtspServer_dtor :: "bool \<Rightarrow> nat \<Rightarrow> rtsp_service \<Rightarrow> svc_res" where
  [simp]: "EventRtspServer_dtor calls_close es s = (if calls_close then Close es s else Inr (s, []))"

definition errorcb :: "bool \<Rightarrow> nat \<Rightarrow> rtsp_service \<Rightarrow> svc_res" where
  "errorcb calls_close bev s =
     (case omap_find ptr_less bev (mBev2RtspServer s) of
        None \<Rightarrow> Inr (s, [])
      | Some es \<Rightarrow>
          let s' = s\<lparr>mBev2RtspServer := omap_erase ptr_less bev (mBev2RtspServer s)\<rparr>
          in EventRtspServer_dtor calls_close es s')"


section \<open>Runs\<close>

text \<open>
  A client is polite if it asks for \<open>OPTIONS\<close> only while the service does not know it, and for
  \<open>DESCRIBE\<close> only of the video it last named in \<open>OPTIONS\<close>. \<open>phase\<close> names the four sets of a proxy.
\<close>

datatype phase = Before_describe | Waiting_sdp | Before_play | Playing

fun clients_in :: "phase \<Rightarrow> proxy_info \<Rightarrow> nat list" where
  "clients_in Before_describe px = beforeDescribeClients px"
| "clients_in Waiting_sdp px = waitingSdpClients px"
| "clients_in Before_play px = beforePlayClients px"
| "clients_in Playing px = playingClients px"

definition places :: "rtsp_service \<Rightarrow> nat \<Rightarrow> (video_request \<times> phase) set" where
  "places s es = {(k, ph) | k ph px. (k, px) \<in> set (mVideoRequest2ProxyInfo s) \<and> es \<in> set (clients_in ph px)}"

definition polite :: "rtsp_service \<Rightarrow> nat \<Rightarrow> request \<Rightarrow> bool" where
  "polite s es r = (case r of
     OPTIONS uri \<Rightarrow> places s es = {}
   | DESCRIBE uri \<Rightarrow> \<forall>(k, ph) \<in> places s es. ph = Before_describe \<and> same_key VideoRequest_less (VideoRequest_url uri) k
   | _ \<Rightarrow> True)"

fun polite_all :: "mm_state \<Rightarrow> allocator \<Rightarrow> nat \<Rightarrow> request list \<Rightarrow> rtsp_service \<Rightarrow> bool" where
  "polite_all mm al es [] s = True"
| "polite_all mm al es (r # rs) s =
     (polite s es r \<and> (case handle mm al es r s of Inl _ \<Rightarrow> True | Inr (_, s', _) \<Rightarrow> polite_all mm al es rs s'))"

text \<open>
  The steps of the service: connections come, speak and go, and the producer does any of its
  steps, whose callbacks run. With \<open>strict\<close>, every client is polite.
\<close>

inductive svc_step :: "mm_state \<Rightarrow> bool \<Rightarrow> rtsp_service \<Rightarrow> svc_out list \<Rightarrow> rtsp_service \<Rightarrow> bool"
  for mm strict where
  accept: "accept_conn_cb ret bev s = Inr s' \<Longrightarrow> svc_step mm strict s [] s'"
| read: "readcb mm al bev requests s = Inr (s', outs) \<Longrightarrow>
    (strict \<Longrightarrow> \<forall>es rs. omap_find ptr_less bev (mBev2RtspServer s) = Some es \<longrightarrow> requests = Some rs \<longrightarrow>
       polite_all mm al es rs s) \<Longrightarrow>
    svc_step mm strict s outs s'"
| error: "errorcb True bev s = Inr (s', outs) \<Longrightarrow> svc_step mm strict s outs s'"
| produce: "prod_step mm (mpRtpProducer s) pouts p' \<Longrightarrow> callbacks pouts (s\<lparr>mpRtpProducer := p'\<rparr>) = Inr (s', outs) \<Longrightarrow>
    svc_step mm strict s outs s'"

inductive svc_run :: "mm_state \<Rightarrow> bool \<Rightarrow> rtsp_service \<Rightarrow> svc_out list \<Rightarrow> rtsp_service \<Rightarrow> bool"
  for mm strict s0 where
  start: "svc_run mm strict s0 [] s0"
| step: "svc_run mm strict s0 tr s \<Longrightarrow> svc_step mm strict s outs s' \<Longrightarrow> svc_run mm strict s0 (tr @ outs) s'"

section \<open>Media only after DESCRIBE and PLAY\<close>

definition described :: "nat \<Rightarrow> svc_out list \<Rightarrow> bool" where
  "described es tr \<longleftrightarrow> (\<exists>sdp. Reply_describe es 200 sdp \<in> set tr)"

definition played :: "nat \<Rightarrow> svc_out list \<Rightarrow> bool" where
  "played es tr \<longleftrightarrow> (\<exists>xs ys. tr = xs @ Reply_play es 200 # ys \<and> described es xs)"

definition media_ok :: "svc_out list \<Rightarrow> bool" where
  "media_ok tr \<longleftrightarrow> (\<forall>xs es frm ys. tr = xs @ Interleaved es frm # ys \<longrightarrow> played es xs)"

definition tracks :: "svc_out list \<Rightarrow> rtsp_service \<Rightarrow> bool" where
  "tracks tr s \<longleftrightarrow> media_ok tr \<and> (\<forall>(k, px) \<in> set (mVideoRequest2ProxyInfo s).
     (\<forall>es \<in> set (beforePlayClients px). described es tr) \<and> (\<forall>es \<in> set (playingClients px). played es tr))"

lemma described_append: "described es tr \<Longrightarrow> described es (tr @ outs)"
  by (auto simp: described_def)

lemma played_append: "played es tr \<Longrightarrow> played es (tr @ outs)"
  unfolding played_def by (metis append_Cons append_assoc)

lemma media_ok_append:
  assumes "media_ok tr" "\<And>es frm. Interleaved es frm \<in> set outs \<Longrightarrow> played es tr"
  shows "media_ok (tr @ outs)"
  unfolding media_ok_def
proof (intro allI impI)
  fix xs es frm ys
  assume eq: "tr @ outs = xs @ Interleaved es frm # ys"
  then consider zs where "tr = xs @ Interleaved es frm # zs" | zs where "xs = tr @ zs" "outs = zs @ Interleaved es frm # ys"
    by (auto simp: append_eq_append_conv2 append_eq_Cons_conv)
  then show "played es xs"
  proof cases
    case 1
    with assms(1) show ?thesis by (auto simp: media_ok_def)
  next
    case 2
    with assms(2) [of es frm] show ?thesis by (auto intro: played_append)
  qed
qed

lemma tracks_append:
  assumes "tracks tr s" "mVideoRequest2ProxyInfo s' = mVideoRequest2ProxyInfo s"
    "\<And>es frm. Interleaved es frm \<in> set outs \<Longrightarrow> played es tr"
  shows "tracks (tr @ outs) s'"
  using assms by (fastforce simp: tracks_def intro: media_ok_append described_append played_append)

text \<open>
  A proxy replaced: the log may have grown, and the new sets must be tracked.
\<close>

lemma tracks_put:
  assumes "tracks tr s" "media_ok (tr @ outs)"
    "\<And>es. es \<in> set (beforePlayClients px) \<Longrightarrow> described es (tr @ outs)"
    "\<And>es. es \<in> set (playingClients px) \<Longrightarrow> played es (tr @ outs)"
  shows "tracks (tr @ outs) (put_proxy video px s)"
  unfolding tracks_def
proof (intro conjI ballI)
  fix e assume "e \<in> set (mVideoRequest2ProxyInfo (put_proxy video px s))"
  then have "e \<in> set (mVideoRequest2ProxyInfo s) \<or> snd e = px"
    unfolding put_proxy_def using vr.set_set by fastforce
  with assms show "case e of (k, px) \<Rightarrow>
      (\<forall>es \<in> set (beforePlayClients px). described es (tr @ outs)) \<and>
      (\<forall>es \<in> set (playingClients px). played es (tr @ outs))"
    unfolding tracks_def by (fastforce intro: described_append played_append)
qed (rule assms(2))

lemma tracks_found:
  assumes "tracks tr s" "omap_find VideoRequest_less video (mVideoRequest2ProxyInfo s) = Some px"
  shows "es \<in> set (beforePlayClients px) \<Longrightarrow> described es tr" "es \<in> set (playingClients px) \<Longrightarrow> played es tr"
proof -
  obtain k where "(k, px) \<in> set (mVideoRequest2ProxyInfo s)"
    using vr.split_present [OF assms(2)] by (metis in_set_conv_decomp)
  with assms(1) show "es \<in> set (beforePlayClients px) \<Longrightarrow> described es tr"
    "es \<in> set (playingClients px) \<Longrightarrow> played es tr"
    unfolding tracks_def by blast+
qed


lemma set_fold_pset_insert [simp]: "set (fold pset_insert ws xs) = set ws \<union> set xs"
  by (induction ws arbitrary: xs) auto

lemma pset_ok_fold_insert [simp]: "pset_ok xs \<Longrightarrow> pset_ok (fold pset_insert ws xs)"
  by (induction ws arbitrary: xs) auto

lemma proxy_at_SomeD:
  assumes "proxy_at a s = Some (video, px)"
  shows "(video, px) \<in> set (mVideoRequest2ProxyInfo s)" "px_addr px = a"
proof -
  from assms obtain i where "i < length (mVideoRequest2ProxyInfo s)"
    "px_addr (snd (mVideoRequest2ProxyInfo s ! i)) = a" "mVideoRequest2ProxyInfo s ! i = (video, px)"
    unfolding proxy_at_def find_Some_iff by metis
  then show "(video, px) \<in> set (mVideoRequest2ProxyInfo s)" "px_addr px = a"
    by (metis nth_mem, metis snd_conv)
qed

lemma tracks_at:
  assumes "tracks tr s" "proxy_at a s = Some (video, px)"
  shows "es \<in> set (beforePlayClients px) \<Longrightarrow> described es tr" "es \<in> set (playingClients px) \<Longrightarrow> played es tr"
  using assms(1) proxy_at_SomeD(1) [OF assms(2)] unfolding tracks_def by blast+

lemma tracks_media: "tracks tr s \<Longrightarrow> media_ok tr"
  by (simp add: tracks_def)

lemma processSdp_tracks:
  assumes "processSdpFunction a sdp s = Inr (s', outs)" "tracks tr s"
  shows "tracks (tr @ outs) s'"
proof -
  from assms(1) obtain video px where px: "proxy_at a s = Some (video, px)"
    and s': "s' = put_proxy video (px\<lparr>px_registered := True,
        beforePlayClients := fold pset_insert (waitingSdpClients px) (beforePlayClients px),
        waitingSdpClients := [], sourceSdp := sdp\<rparr>) s"
    and outs: "outs = map (\<lambda>es. Reply_describe es 200 sdp) (waitingSdpClients px)"
    by (auto simp: processSdpFunction_def split: option.splits if_splits)
  show ?thesis
    unfolding s'
  proof (rule tracks_put [OF assms(2)])
    show "media_ok (tr @ outs)"
      by (rule media_ok_append [OF tracks_media [OF assms(2)]]) (auto simp: outs)
    show "described es (tr @ outs)" if "es \<in> set (beforePlayClients (px\<lparr>px_registered := True,
        beforePlayClients := fold pset_insert (waitingSdpClients px) (beforePlayClients px),
        waitingSdpClients := [], sourceSdp := sdp\<rparr>))" for es
      using that tracks_at(1) [OF assms(2) px] by (auto simp: described_def outs)
  qed (use tracks_at(2) [OF assms(2) px] in \<open>auto intro: played_append\<close>)
qed

lemma consumePkt_tracks:
  assumes "consumePktFunction a pkt s = Inr (s', outs)" "tracks tr s"
  shows "tracks (tr @ outs) s'"
proof -
  from assms(1) obtain video px buf where px: "proxy_at a s = Some (video, px)"
    and s': "s' = put_proxy video (px\<lparr>sendBuffer := buf\<rparr>) s"
    and outs: "outs = map (\<lambda>es. Interleaved es (take (length pkt + 4) buf)) (playingClients px)"
    by (auto simp: consumePktFunction_def Let_def split: option.splits if_splits)
  show ?thesis
    unfolding s'
  proof (rule tracks_put [OF assms(2)])
    show "media_ok (tr @ outs)"
      by (rule media_ok_append [OF tracks_media [OF assms(2)]])
        (use tracks_at(2) [OF assms(2) px] in \<open>auto simp: outs\<close>)
  qed (use tracks_at [OF assms(2) px] in \<open>auto intro: described_append played_append\<close>)
qed

lemma processError_tracks:
  assumes "processErrorFunction a ec s = Inr (s', outs)" "tracks tr s"
  shows "tracks (tr @ outs) s'"
  using assms
  by (auto simp: processErrorFunction_def Let_def intro!: tracks_append split: option.splits if_splits)

lemma callback_tracks:
  assumes "callback out s = Inr (s', outs)" "tracks tr s"
  shows "tracks (tr @ outs) s'"
  using assms
  by (cases out) (auto intro: processSdp_tracks consumePkt_tracks processError_tracks tracks_append)

lemma callbacks_tracks:
  "callbacks pouts s = Inr (s', outs) \<Longrightarrow> tracks tr s \<Longrightarrow> tracks (tr @ outs) s'"
proof (induction pouts arbitrary: s tr outs)
  case (Cons out pouts)
  from Cons.prems(1) obtain s1 o1 o2 where 1: "callback out s = Inr (s1, o1)"
    "callbacks pouts s1 = Inr (s', o2)" "outs = o1 @ o2"
    by (auto simp: res_bind_Inr_iff)
  from Cons.IH [OF 1(2) callback_tracks [OF 1(1) Cons.prems(2)]] 1(3) show ?case by simp
qed simp

lemma tracks_producer [simp]: "tracks tr (s\<lparr>mpRtpProducer := p\<rparr>) = tracks tr s"
  by (simp add: tracks_def)

lemma tracks_next [simp]: "tracks tr (s\<lparr>next_addr := n\<rparr>) = tracks tr s"
  by (simp add: tracks_def)

lemma with_producer_tracks:
  assumes "with_producer f s = Inr (s', outs)" "tracks tr s"
  shows "tracks (tr @ outs) s'"
  using assms by (auto simp: with_producer_def res_bind_Inr_iff intro: callbacks_tracks)

lemma tracks_put_quiet:
  assumes "tracks tr s" "\<And>es frm. Interleaved es frm \<notin> set outs"
    "\<And>es. es \<in> set (beforePlayClients px) \<Longrightarrow> described es (tr @ outs)"
    "\<And>es. es \<in> set (playingClients px) \<Longrightarrow> played es (tr @ outs)"
  shows "tracks (tr @ outs) (put_proxy video px s)"
  using assms media_ok_append [OF tracks_media] by (blast intro: tracks_put)

lemma OnOptions_tracks:
  assumes "OnOptions mem es uri s = Inr (ret, s', outs)" "tracks tr s"
  shows "tracks (tr @ outs) s'"
  using assms tracks_found [OF assms(2)]
  by (auto simp: OnOptions_def ProxyInfo_def Let_def intro!: tracks_put_quiet
      intro: described_append played_append split: option.splits)

lemma OnDescribe_tracks:
  assumes "OnDescribe mm mem es uri s = Inr (ret, s', outs)" "tracks tr s"
  shows "tracks (tr @ outs) s'"
proof (cases "omap_find VideoRequest_less (VideoRequest_url uri) (mVideoRequest2ProxyInfo s)")
  case None
  with assms show ?thesis by (auto simp: OnDescribe_def)
next
  case (Some px)
  note found = tracks_found [OF assms(2) Some]
  let ?px = "px\<lparr>beforeDescribeClients := pset_erase es (beforeDescribeClients px)\<rparr>"
  have put: "tracks tr (put_proxy (VideoRequest_url uri) px' s)"
    if "beforePlayClients px' = beforePlayClients px" "playingClients px' = playingClients px" for px'
    using tracks_put_quiet [OF assms(2), of "[]" px'] found that by simp
  consider "with_producer (RegisterVideo mm mem (VideoRequest_url uri) (px_addr px) (px_addr px) (px_addr px))
      (put_proxy (VideoRequest_url uri) (?px\<lparr>waitingSdpClients := [es]\<rparr>) s) = Inr (s', outs)"
    | "s' = put_proxy (VideoRequest_url uri) (?px\<lparr>beforePlayClients := pset_insert es (beforePlayClients px)\<rparr>) s"
      "outs = [Reply_describe es 200 (sourceSdp px)]"
    | "s' = put_proxy (VideoRequest_url uri) ?px s" "outs = []"
    using assms(1) Some by (auto simp: OnDescribe_def Let_def res_bind_Inr_iff split: if_splits)
  then show ?thesis
  proof cases
    case 1
    then show ?thesis by (rule with_producer_tracks) (rule put, simp_all)
  next
    case 2
    have "described es (tr @ outs)" by (auto simp: 2 described_def)
    then show ?thesis
      unfolding 2(1) using found 2(2)
      by (intro tracks_put_quiet [OF assms(2)]) (auto intro: described_append played_append)
  next
    case 3
    then show ?thesis using put [of ?px] by simp
  qed
qed

lemma OnPlay_tracks:
  assumes "OnPlay es uri s = Inr (ret, s', outs)" "tracks tr s"
  shows "tracks (tr @ outs) s'"
proof (cases "omap_find VideoRequest_less (VideoRequest_url uri) (mVideoRequest2ProxyInfo s)")
  case None
  with assms show ?thesis by (auto simp: OnPlay_def)
next
  case (Some px)
  note found = tracks_found [OF assms(2) Some]
  show ?thesis
  proof (cases "es \<in> set (beforePlayClients px)")
    case True
    then have "played es (tr @ [Reply_play es 200])"
      using found(1) unfolding played_def by blast
    moreover have "described es' (tr @ [Reply_play es 200])" if "es' \<in> set (beforePlayClients px)" for es'
      using found(1) [OF that] by (rule described_append)
    moreover have "played es' (tr @ [Reply_play es 200])" if "es' \<in> set (playingClients px)" for es'
      using found(2) [OF that] by (rule played_append)
    ultimately show ?thesis
      using assms Some True by (auto simp: OnPlay_def intro!: tracks_put_quiet)
  next
    case False
    with assms Some show ?thesis by (auto simp: OnPlay_def intro: tracks_append)
  qed
qed


lemma find_client_SomeD:
  "find_client es m = Some (video, px') \<Longrightarrow> \<exists>px. (video, px) \<in> set m \<and> drop_client es px = Some px'"
  by (induction m) (auto split: option.splits)

lemma drop_client_subset:
  "drop_client es px = Some px' \<Longrightarrow> set (clients_in ph px') \<subseteq> set (clients_in ph px)"
  by (cases ph) (auto simp: drop_client_def split: if_splits)

lemma drop_client_other:
  "drop_client es px = Some px' \<Longrightarrow> px_addr px' = px_addr px \<and> px_registered px' = px_registered px \<and>
     sourceSdp px' = sourceSdp px \<and> sendBuffer px' = sendBuffer px"
  by (auto simp: drop_client_def split: if_splits)

lemma tracks_sub:
  assumes "tracks tr s" "set (mVideoRequest2ProxyInfo s') \<subseteq> set (mVideoRequest2ProxyInfo s)"
  shows "tracks tr s'"
  using assms unfolding tracks_def by blast

lemma Close_tracks:
  assumes "Close es s = Inr (s', outs)" "tracks tr s"
  shows "tracks (tr @ outs) s'"
proof (cases "find_client es (mVideoRequest2ProxyInfo s)")
  case None
  with assms show ?thesis by (simp add: Close_def)
next
  case (Some r)
  obtain video px' where r: "r = (video, px')" by force
  with Some obtain px where px: "(video, px) \<in> set (mVideoRequest2ProxyInfo s)" "drop_client es px = Some px'"
    using find_client_SomeD by blast
  have put: "tracks tr (put_proxy video px' s)"
    using tracks_put_quiet [OF assms(2), of "[]" px' video] assms(2) px(1)
      drop_client_subset [OF px(2), of Before_play] drop_client_subset [OF px(2), of Playing]
    by (fastforce simp: tracks_def)
  consider "s' = put_proxy video px' s" "outs = []"
    | s1 where "with_producer (UnregisterVideo video) (put_proxy video px' s) = Inr (s1, outs) \<or>
        s1 = put_proxy video px' s \<and> outs = []"
      "s' = s1\<lparr>mVideoRequest2ProxyInfo := omap_erase VideoRequest_less video (mVideoRequest2ProxyInfo s1)\<rparr>"
    using assms(1) Some r by (auto simp: Close_def res_bind_Inr_iff split: if_splits)
  then show ?thesis
  proof cases
    case 1
    with put show ?thesis by simp
  next
    case 2
    then have "tracks (tr @ outs) s1" using with_producer_tracks put by fastforce
    then show ?thesis
      by (rule tracks_sub) (use 2(2) vr.set_erase_subset in simp)
  qed
qed

lemma handle_tracks:
  assumes "handle mm al es r s = Inr (ret, s', outs)" "tracks tr s"
  shows "tracks (tr @ outs) s'"
  using assms
  by (cases r) (auto simp: OnOther_same OnSetup_def intro: OnOptions_tracks OnDescribe_tracks OnPlay_tracks tracks_append
      split: if_splits option.splits)

lemma handle_all_tracks:
  "handle_all mm al es rs s = Inr (s', outs) \<Longrightarrow> tracks tr s \<Longrightarrow> tracks (tr @ outs) s'"
proof (induction rs arbitrary: s tr outs)
  case (Cons r rs)
  from Cons.prems(1) obtain ret s1 o1 o2 where 1: "handle mm al es r s = Inr (ret, s1, o1)"
    "handle_all mm al es rs s1 = Inr (s', o2)" "outs = o1 @ o2"
    by (auto simp: res_bind_Inr_iff)
  from Cons.IH [OF 1(2) handle_tracks [OF 1(1) Cons.prems(2)]] 1(3) show ?case by simp
qed simp

lemma tracks_bev [simp]: "tracks tr (s\<lparr>mBev2RtspServer := b\<rparr>) = tracks tr s"
  by (simp add: tracks_def)

lemma svc_step_tracks:
  assumes "svc_step mm strict s outs s'" "tracks tr s"
  shows "tracks (tr @ outs) s'"
  using assms(1)
proof cases
  case (accept ret bev)
  then have "mVideoRequest2ProxyInfo s' = mVideoRequest2ProxyInfo s"
    by (auto simp: accept_conn_cb_def split: if_splits option.splits)
  with accept assms(2) show ?thesis by (simp add: tracks_def)
next
  case (read al bev requests)
  then show ?thesis
    using assms(2) by (auto simp: readcb_def intro: handle_all_tracks split: option.splits)
next
  case (error bev)
  then show ?thesis
    using assms(2) by (auto simp: errorcb_def Let_def intro: Close_tracks split: option.splits)
next
  case (produce pouts p')
  then show ?thesis using assms(2) by (auto intro: callbacks_tracks)
qed

lemma svc_run_tracks:
  "svc_run mm strict s0 tr s \<Longrightarrow> tracks [] s0 \<Longrightarrow> tracks tr s"
  by (induction rule: svc_run.induct) (auto intro: svc_step_tracks)

text \<open>
  C4: Whatever clients, cameras, files and the gateway do, in any order, a client that is sent
  media was answered a \<open>PLAY\<close> with 200 before, and before that a \<open>DESCRIBE\<close> with 200 and a
  description: no client gets a frame it did not set up.
\<close>

theorem media_after_play:
  assumes "mVideoRequest2ProxyInfo s0 = []" and "svc_run mm strict s0 (tr @ [Interleaved es frm] @ rest) s"
  shows "\<exists>xs ys zs sdp. tr = xs @ [Reply_describe es 200 sdp] @ ys @ [Reply_play es 200] @ zs"
proof -
  have "media_ok []" by (simp add: media_ok_def)
  then have "tracks [] s0" using assms(1) by (simp add: tracks_def)
  then have "media_ok (tr @ [Interleaved es frm] @ rest)"
    using svc_run_tracks [OF assms(2)] tracks_media by blast
  then have "played es tr" unfolding media_ok_def by simp
  then obtain us zs sdp where "tr = us @ Reply_play es 200 # zs" "Reply_describe es 200 sdp \<in> set us"
    unfolding played_def described_def by blast
  moreover then obtain xs ys where "us = xs @ Reply_describe es 200 sdp # ys"
    by (meson split_list)
  ultimately show ?thesis by auto
qed


subsection \<open>A session\<close>

text \<open>
  The session of the examples: a client connects, asks for a camera, gets its description when the
  gateway has answered, plays, and receives a packet.
\<close>

definition demo_url :: string where "demo_url = ''rtsp://10.0.0.2:8554/gb/demo1''"

definition demo_al :: allocator where
  "demo_al = \<lparr>mem_proxy = (\<lambda>_. 0), mem_file = (Null, Null), ptr_text = ''0x1''\<rparr>"

definition demo_px :: proxy_info where
  "demo_px = ProxyInfo 1 (\<lambda>_. 0)"

definition demo_svc :: rtsp_service where
  "demo_svc = RtspService\<lparr>mpRtpProducer := demo_producer\<rparr>"

definition demo_open :: rtsp_service where
  "demo_open = demo_svc\<lparr>mBev2RtspServer := [(5, 0)], next_addr := 1\<rparr>"

definition demo_known :: rtsp_service where
  "demo_known = demo_open\<lparr>mVideoRequest2ProxyInfo := [(demo_camera, demo_px\<lparr>beforeDescribeClients := [0]\<rparr>)],
     next_addr := 2\<rparr>"

definition demo_cam_ctx :: "nat rtp_ctx" where
  "demo_cam_ctx = projr (RtpVideoContext demo_mm 0 demo_camera 1 1 1)"

definition demo_waiting :: rtsp_service where
  "demo_waiting = demo_open\<lparr>mVideoRequest2ProxyInfo := [(demo_camera, demo_px\<lparr>waitingSdpClients := [0]\<rparr>)],
     mpRtpProducer := demo_producer\<lparr>mRtpVideoContextMap := [(demo_camera, demo_cam_ctx)], next_ctx := 1\<rparr>,
     next_addr := 2\<rparr>"

definition demo_sdp :: string where
  "demo_sdp = gb_sdp ''demo1'' (the (gbInviteResponse demo_reply))"

definition demo_ready :: rtsp_service where
  "demo_ready = demo_open\<lparr>mVideoRequest2ProxyInfo := [(demo_camera,
       demo_px\<lparr>beforePlayClients := [0], px_registered := True, sourceSdp := demo_sdp\<rparr>)],
     mpRtpProducer := demo_producer\<lparr>
       mRtpVideoContextMap := [(demo_camera, demo_cam_ctx\<lparr>packet := True, payloadBuf := Some 4194304,
         inviteId := ''inv1'', demuxer := True, payloadEncoder := True, rtp := True\<rparr>)],
       next_ctx := 1, mpNetworkServer := Some (reg_peer demo_mm ''10.0.0.9:5000'' 0 demo_ns)\<rparr>,
     next_addr := 2\<rparr>"

definition demo_playing :: rtsp_service where
  "demo_playing = demo_ready\<lparr>mVideoRequest2ProxyInfo := [(demo_camera,
       demo_px\<lparr>playingClients := [0], px_registered := True, sourceSdp := demo_sdp\<rparr>)]\<rparr>"

lemma demo_url_video: "VideoRequest_url demo_url = demo_camera"
  by (simp add: demo_url_def demo_camera_def VideoRequest_url_def parseUrl_def VideoRequest_def prefix_defs
      str_substr_def str_substr_n_def)

lemma demo_cam: "RtpVideoContext demo_mm 0 demo_camera (1 :: nat) 1 1 = Inr demo_cam_ctx"
proof -
  obtain c where "RtpVideoContext demo_mm 0 demo_camera (1 :: nat) 1 1 = Inr c"
    unfolding demo_mm_def by (metis RtpVideoContext_ready mm_up_instance)
  then show ?thesis by (simp only: demo_cam_ctx_def sum.sel)
qed

lemmas demo_cam_fields [simp] = RtpVideoContext_fields [OF demo_cam]

lemma demo_accept: "accept_conn_cb 0 (Some 5) demo_svc = Inr demo_open"
  by (simp add: accept_conn_cb_def demo_open_def demo_svc_def RtspService_def)

lemma fresh_buffer_zero: "fresh_buffer (\<lambda>_. 0) = replicate 1600 0"
  unfolding fresh_buffer_def map_replicate_const by (simp only: length_upt diff_zero)

lemmas demo_svc_defs = demo_open_def demo_svc_def RtspService_def demo_px_def demo_al_def ProxyInfo_def

lemmas own_key [simp] = vr.irrefl ptrs.irrefl

lemma demo_options:
  "readcb demo_mm demo_al 5 (Some [OPTIONS demo_url]) demo_open = Inr (demo_known, [Reply_options 0 200])"
  by (simp add: readcb_def OnOptions_def demo_url_video Let_def demo_known_def put_proxy_def demo_svc_defs)

lemma demo_register1:
  "RegisterVideo demo_mm (Null, Null) demo_camera 1 1 1 demo_producer =
     Inr (demo_producer\<lparr>mRtpVideoContextMap := [(demo_camera, demo_cam_ctx)], next_ctx := 1\<rparr>,
       [Rpc (InviteVideo 0 ''demo1'' ''10.0.0.2:8086'' UDP 3000)])"
  using demo_cam
  by (simp add: RegisterVideo_def demo_producer_def RtpProducer_def deref_def demo_config_def)
    (simp add: demo_camera_def VideoRequest_def)

lemma demo_describe:
  "readcb demo_mm demo_al 5 (Some [DESCRIBE demo_url]) demo_known =
     Inr (demo_waiting, [Producer (Rpc (InviteVideo 0 ''demo1'' ''10.0.0.2:8086'' UDP 3000))])"
  using demo_register1
  by (simp add: readcb_def OnDescribe_def demo_url_video Let_def demo_known_def demo_waiting_def put_proxy_def
      with_producer_def pset_erase_def demo_svc_defs)

lemma demo_invite:
  "on_invite_reply demo_mm lib_ok 0 True demo_reply (mpRtpProducer demo_waiting) =
     Inr (mpRtpProducer demo_ready, [Sdp 1 demo_sdp, Rpc (SendAck ''inv1'')])"
  by (simp add: on_invite_reply_def lock_ctx_def demo_waiting_def demo_reply_def deref_def int32_def in_int32_def
      lib_ok_def demo_reg demo_producer_def demo_config_def RtpProducer_def demo_ready_def put_ctx_def demo_sdp_def)
    (simp add: demo_camera_def VideoRequest_def)

lemma demo_sdp_step:
  "callbacks [Sdp 1 demo_sdp, Rpc (SendAck ''inv1'')] (demo_waiting\<lparr>mpRtpProducer := mpRtpProducer demo_ready\<rparr>) =
     Inr (demo_ready, [Reply_describe 0 200 demo_sdp, Producer (Rpc (SendAck ''inv1''))])"
  by (simp add: processSdpFunction_def proxy_at_def es_alive_def put_proxy_def demo_waiting_def demo_ready_def
      pset_insert_def insort_insert_key_def demo_svc_defs)

lemma demo_play:
  "readcb demo_mm demo_al 5 (Some [PLAY demo_url]) demo_ready = Inr (demo_playing, [Reply_play 0 200])"
  by (simp add: readcb_def OnPlay_def demo_url_video Let_def demo_ready_def demo_playing_def put_proxy_def
      pset_erase_def pset_insert_def insort_insert_key_def demo_svc_defs)

lemma demo_packet:
  "callbacks [Inc (pDemuxCounter demo_cam_ctx) 3, Inc (pRemuxCounter demo_cam_ctx) 2, Pkt 1 [128, 96, 7],
      Inc (pProducedCounter demo_cam_ctx) 3] (demo_playing\<lparr>mpRtpProducer := mpRtpProducer demo_playing\<rparr>) =
     Inr (demo_playing\<lparr>mVideoRequest2ProxyInfo := [(demo_camera, demo_px\<lparr>playingClients := [0],
         px_registered := True, sourceSdp := demo_sdp,
         sendBuffer := [0x24, 0, 0, 3, 128, 96, 7] @ replicate 1593 0\<rparr>)]\<rparr>,
       [Producer (Inc (pDemuxCounter demo_cam_ctx) 3), Producer (Inc (pRemuxCounter demo_cam_ctx) 2),
        Interleaved 0 [0x24, 0, 0, 3, 128, 96, 7], Producer (Inc (pProducedCounter demo_cam_ctx) 3)])"
  by (simp add: consumePktFunction_def proxy_at_def es_alive_def put_proxy_def demo_playing_def demo_ready_def
      interleaved_frame_def interleaved_channel_def drop_replicate demo_svc_defs fresh_buffer_zero)

lemma demo_media:
  "on_peer_packet (\<lambda>b. [(drop 1 b, 9)]) (\<lambda>b t. [[128, 96, 7]]) 0 [128, 65, 66] (mpRtpProducer demo_playing) =
     Inr [Inc (pDemuxCounter demo_cam_ctx) 3, Inc (pRemuxCounter demo_cam_ctx) 2, Pkt 1 [128, 96, 7],
          Inc (pProducedCounter demo_cam_ctx) 3]"
  by (simp add: on_peer_packet_def lock_ctx_def demo_playing_def demo_ready_def RtpOnPacket_def rtp_alloc_def rtp_packet_def)

lemma demo_polite:
  "polite_all demo_mm demo_al 0 [OPTIONS demo_url] demo_open"
  "polite_all demo_mm demo_al 0 [DESCRIBE demo_url] demo_known"
proof -
  show "polite_all demo_mm demo_al 0 [OPTIONS demo_url] demo_open"
    by (auto simp: polite_def places_def demo_svc_defs split: sum.splits)
  have "ph = Before_describe" if "0 \<in> set (clients_in ph (demo_px\<lparr>beforeDescribeClients := [0]\<rparr>))" for ph
    using that by (cases ph) (auto simp: demo_px_def ProxyInfo_def)
  then show "polite_all demo_mm demo_al 0 [DESCRIBE demo_url] demo_known"
    by (auto simp: polite_def places_def demo_known_def demo_url_video split: sum.splits)
qed

lemma demo_read:
  assumes "readcb demo_mm demo_al 5 (Some rs) s = Inr (s', outs)" "mBev2RtspServer s = [(5, 0)]"
    "polite_all demo_mm demo_al 0 rs s"
  shows "svc_step demo_mm True s outs s'"
  using assms(1) by (rule svc_step.read) (use assms(2,3) in auto)

lemma demo_session:
  "\<exists>s. svc_run demo_mm True demo_svc
     ([Reply_options 0 200, Producer (Rpc (InviteVideo 0 ''demo1'' ''10.0.0.2:8086'' UDP 3000)),
       Reply_describe 0 200 demo_sdp, Producer (Rpc (SendAck ''inv1'')), Reply_play 0 200,
       Producer (Inc (pDemuxCounter demo_cam_ctx) 3), Producer (Inc (pRemuxCounter demo_cam_ctx) 2)] @
      [Interleaved 0 [0x24, 0, 0, 3, 128, 96, 7]] @ [Producer (Inc (pProducedCounter demo_cam_ctx) 3)]) s"
proof -
  have bev: "mBev2RtspServer demo_open = [(5, 0)]" "mBev2RtspServer demo_known = [(5, 0)]"
    "mBev2RtspServer demo_ready = [(5, 0)]"
    by (simp_all add: demo_known_def demo_ready_def demo_open_def)
  note r1 = svc_run.step [OF svc_run.start svc_step.accept [OF demo_accept]]
  note r2 = svc_run.step [OF r1 demo_read [OF demo_options bev(1) demo_polite(1)]]
  note r3 = svc_run.step [OF r2 demo_read [OF demo_describe bev(2) demo_polite(2)]]
  note r4 = svc_run.step [OF r3 svc_step.produce [OF prod_step.invite [OF demo_invite] demo_sdp_step]]
  have p5: "polite_all demo_mm demo_al 0 [PLAY demo_url] demo_ready"
    by (auto simp: polite_def split: sum.splits)
  note r5 = svc_run.step [OF r4 demo_read [OF demo_play bev(3) p5]]
  note r6 = svc_run.step [OF r5 svc_step.produce [OF prod_step.packet [OF demo_media] demo_packet]]
  from r6 show ?thesis by auto
qed

theorem media_after_play_witness:
  "\<exists>tr. (\<exists>s rest. svc_run demo_mm True demo_svc (tr @ [Interleaved 0 [0x24, 0, 0, 3, 128, 96, 7]] @ rest) s) \<and>
     (\<exists>xs ys zs sdp. tr = xs @ [Reply_describe 0 200 sdp] @ ys @ [Reply_play 0 200] @ zs)"
proof -
  have empty: "mVideoRequest2ProxyInfo demo_svc = []" by (simp add: demo_svc_defs)
  from demo_session obtain s where run: "svc_run demo_mm True demo_svc
     ([Reply_options 0 200, Producer (Rpc (InviteVideo 0 ''demo1'' ''10.0.0.2:8086'' UDP 3000)),
       Reply_describe 0 200 demo_sdp, Producer (Rpc (SendAck ''inv1'')), Reply_play 0 200,
       Producer (Inc (pDemuxCounter demo_cam_ctx) 3), Producer (Inc (pRemuxCounter demo_cam_ctx) 2)] @
      [Interleaved 0 [0x24, 0, 0, 3, 128, 96, 7]] @ [Producer (Inc (pProducedCounter demo_cam_ctx) 3)]) s" ..
  from media_after_play [OF empty run] run show ?thesis by blast
qed

end
