(* ===== verification/Unit_Tests.thy ===== *)
theory Unit_Tests
  imports Gateway Async_Client Rtsp_Service
begin

text \<open>
  The unit tests of the repository as programs of the model: their fixtures, their bodies and what
  they expect. A test is a computation over the model's operations that returns what its
  \<open>EXPECT\<close> lines look at; the flags have their default values. What runs in other threads during
  a \<open>sleep_for\<close> is made explicit, as an argument or as a run.
\<close>

section \<open>\<open>core/unittest/network_server_ut.cpp\<close>\<close>

definition NetworkServerTest_SetUp :: "(nat \<Rightarrow> udp_syscalls) \<Rightarrow> nat \<Rightarrow> 'f network_server res" where
  "NetworkServerTest_SetUp sys hc =
     initUdpServer sys hc \<lparr>port = 8086, event_loop_num = 1, async_worker_num = 1\<rparr> NetworkServer"

text \<open>
  \<open>REGISTER\<close>: the callback is the value \<open>()\<close>; \<open>nc\<close> sends \<open>request\<close> from port 12345, and the task the
  receiver submits for it is run by the worker. The result is \<open>succReceive\<close>.
\<close>

definition REGISTER :: "mm_state \<Rightarrow> (nat \<Rightarrow> udp_syscalls) \<Rightarrow> nat \<Rightarrow> datagram \<Rightarrow> bool res" where
  "REGISTER mm sys hc request =
     res_bind (NetworkServerTest_SetUp sys hc) (\<lambda>s.
     res_bind (registerPeer mm (''127.0.0.1:'' @ fmt_nat 12345) () s) (\<lambda>s.
     res_bind (recv_packet request s) (\<lambda>(task, s).
     case process_packet task s of
       None \<Rightarrow> Inr False
     | Some outs \<Rightarrow> Inr (\<exists>out \<in> set outs. case out of Process _ _ \<Rightarrow> True | _ \<Rightarrow> False))))"

section \<open>\<open>core/unittest/rtp_producer_ut.cpp\<close>\<close>

text \<open>\<open>rpc_timeout_in_ms\<close> is not set: it is what the memory held.\<close>

definition test_config :: "int \<Rightarrow> prod_config" where
  "test_config mem =
     \<lparr>file_event_thread_num = 1, network_receive_host = ''127.0.0.1:'' @ fmt_nat 18086,
      sipper_host = ''127.0.0.1:'' @ fmt_nat 8899, rtp_jitter_in_ms = 200, max_bandwidth_in_mb = 4,
      rpc_timeout_in_ms = mem\<rparr>"

datatype test_cb = Got_sdp | Got_pkt | Got_error

definition RtpProducerTest_SetUp ::
  "(nat \<Rightarrow> udp_syscalls) \<Rightarrow> int \<Rightarrow> (nat \<Rightarrow> file_loop_syscalls) \<Rightarrow> nat \<Rightarrow> int \<Rightarrow> (test_cb rtp_producer \<times> greeter) res" where
  "RtpProducerTest_SetUp sys use_pthreads fsys hc mem =
     res_bind (initUdpServer sys hc \<lparr>port = 18086, event_loop_num = 1, async_worker_num = 1\<rparr> NetworkServer) (\<lambda>ns.
     res_bind (RtpProducer_Init use_pthreads fsys hc (test_config mem) ns RtpProducer) (\<lambda>p.
     Inr (p, VideoGreeterServiceImpl 12300)))"

text \<open>What the pusher sends: each packet goes where the network server has its address registered.\<close>

fun push_rtp :: "(bytes \<Rightarrow> (bytes \<times> nat) list) \<Rightarrow> (bytes \<Rightarrow> nat \<Rightarrow> bytes list) \<Rightarrow> string \<Rightarrow> bytes list \<Rightarrow>
    'cb rtp_producer \<Rightarrow> 'cb prod_out list res" where
  "push_rtp demux enc nm [] p = Inr []"
| "push_rtp demux enc nm (pkt # pkts) p =
     res_bind (case peer_of p nm of None \<Rightarrow> Inr [] | Some i \<Rightarrow> on_peer_packet demux enc i pkt p) (\<lambda>outs.
     res_bind (push_rtp demux enc nm pkts p) (\<lambda>outs'.
     Inr (outs @ outs')))"

definition got :: "test_cb \<Rightarrow> test_cb prod_out list \<Rightarrow> bool" where
  "got cb outs \<longleftrightarrow> (\<exists>out \<in> set outs. case out of Sdp c _ \<Rightarrow> c = cb | Pkt c _ \<Rightarrow> c = cb | Err c _ \<Rightarrow> c = cb | _ \<Rightarrow> False)"

text \<open>
  \<open>TEST_GB\<close>: in the ten seconds after \<open>RegisterVideo\<close> the invite is served and answered and \<open>pkts\<close> come
  from the process the acknowledgement starts; in the second after \<open>UnregisterVideo\<close>, \<open>pkts'\<close> do. The result is
  \<open>gotSdp\<close>, \<open>gotPkt\<close>, \<open>gotError\<close> and the second \<open>gotPkt\<close>.
\<close>

definition TEST_GB ::
  "mm_state \<Rightarrow> fmt_ptr \<times> fmt_ptr \<Rightarrow> rtp_lib \<Rightarrow> (bytes \<Rightarrow> (bytes \<times> nat) list) \<Rightarrow> (bytes \<Rightarrow> nat \<Rightarrow> bytes list) \<Rightarrow>
     bytes list \<Rightarrow> bytes list \<Rightarrow> test_cb rtp_producer \<Rightarrow> greeter \<Rightarrow> (bool \<times> bool \<times> bool \<times> bool) res" where
  "TEST_GB mm mem lib demux enc pkts pkts' p g =
     (let video = VideoRequest\<lparr>use_gb := True, gbid := ''237246''\<rparr>; i = next_ctx p in
      res_bind (RegisterVideo mm mem video Got_sdp Got_pkt Got_error p) (\<lambda>(p, outs1).
      let (resp, g) = greeter_InviteVideo g; nm = peerInfo (the (gbInviteResponse resp)) in
      res_bind (on_invite_reply mm lib i True resp p) (\<lambda>(p, outs2).
      res_bind (push_rtp demux enc nm pkts p) (\<lambda>outs3.
      res_bind (UnregisterVideo video p) (\<lambda>(p, outs4).
      res_bind (push_rtp demux enc nm pkts' p) (\<lambda>outs5.
      let outs = outs1 @ outs2 @ outs3 in
      Inr (got Got_sdp outs, got Got_pkt outs, got Got_error outs, got Got_pkt (outs4 @ outs5))))))))"

section \<open>\<open>core/unittest/rtsp_service_ut.cpp\<close>\<close>

text \<open>The pointer \<open>pMockRtpProducer\<close> is null; \<open>p\<close> stands for it, and no operation below follows it.\<close>

definition RtspServiceTest_SetUp ::
  "int \<Rightarrow> (nat \<Rightarrow> rtsp_loop_syscalls) \<Rightarrow> nat \<Rightarrow> nat rtp_producer \<Rightarrow> rtsp_service res" where
  "RtspServiceTest_SetUp use_pthreads sys hc p =
     RtspService_Init use_pthreads sys hc \<lparr>rtsp_port = 8554, event_thread_num = 1\<rparr> p RtspService"

text \<open>
  \<open>RTSP_PARSER_OPTIONS\<close>: \<open>nc\<close> connects, sends the text of the request and disconnects; \<open>requests\<close> is what
  the parser makes of the text, and \<open>calls_close\<close> whether it calls \<open>close\<close> when it is destroyed.
\<close>

definition RTSP_PARSER_OPTIONS ::
  "mm_state \<Rightarrow> allocator \<Rightarrow> bool \<Rightarrow> nat \<Rightarrow> request list option \<Rightarrow> rtsp_service \<Rightarrow> (rtsp_service \<times> svc_out list) res" where
  "RTSP_PARSER_OPTIONS mm al calls_close bev requests s =
     res_bind (accept_conn_cb 0 (Some bev) s) (\<lambda>s.
     res_bind (readcb mm al bev requests s) (\<lambda>(s, outs).
     res_bind (errorcb calls_close bev s) (\<lambda>(s, outs').
     Inr (s, outs @ outs'))))"

section \<open>\<open>common/grpc/unittest/async_client_ut.cpp\<close>\<close>

definition SayHello :: "string \<Rightarrow> string" where
  "SayHello nm = ''hello'' @ '' '' @ nm"

text \<open>What the callback of \<open>ASYNC_HELLO_GREET\<close> sets the promise to.\<close>

fun promise_value :: "string \<Rightarrow> grpc_status \<Rightarrow> string" where
  "promise_value message (Status code text) = (if code \<noteq> 0 then '''' else message)"

section \<open>\<open>common/thread_pool/unittest/thread_pool_ut.cpp\<close>\<close>

definition SUBMIT_TASK :: "nat thread_pool res" where
  "SUBMIT_TASK = foldl (\<lambda>r i. res_bind r (submit i)) (Inr (ThreadPool 10)) [0..<10]"

section \<open>\<open>common/metrics/prometheus/unittest/metrics_manager_ut.cpp\<close>\<close>

definition MMAddSummary :: "mm_state \<Rightarrow> string \<Rightarrow> labels \<Rightarrow> (real \<times> real) list \<Rightarrow> (metric \<times> labels) res" where
  "MMAddSummary s nm ls quantiles =
     res_bind (mm_GetInstance s) (\<lambda>m. Inr (AddSummary m nm ls quantiles 60000 5))"

definition MetricsManagerTest_SetUp :: "mm_state \<Rightarrow> mm_state" where
  "MetricsManagerTest_SetUp mm =
     mm_Init \<lparr>exposer_port = 23456, family_prefix = ''mm_test'', endpoint_uri = ''''\<rparr> mm"

text \<open>
  \<open>METRICS_COMMON\<close>: the counter, the summary and what is observed; \<open>clock\<close> gives the times at the
  start and the end of each of the twenty rounds.
\<close>

definition METRICS_COMMON :: "(nat \<Rightarrow> int \<times> int) \<Rightarrow> mm_state \<Rightarrow> (metric \<times> metric \<times> (metric \<times> int) list) res" where
  "METRICS_COMMON clock mm =
     (let labels = omap_set string_less ''wahaha'' ''yixixi'' [] in
      res_bind (MMAddCounter mm ''mm_test_counter'' labels) (\<lambda>(pCounter, labels).
      res_bind (MMAddSummary mm ''mm_test_latency'' labels [(0.5, 0.05), (0.9, 0.01), (0.95, 0.005), (0.99, 0.001)])
        (\<lambda>(pSummary, labels).
      Inr (pCounter, pSummary,
        map (\<lambda>i. LatencyMeasureMsScoped_dtor (LatencyMeasureMsScoped pSummary (fst (clock i))) (snd (clock i))) [0..<20]))))"

section \<open>Results\<close>

lemma no_metrics: "mm_GetInstance mm_state0 = Inl Undefined_behaviour"
  by (simp add: mm_GetInstance_def mm_state0_def)

lemma Peer_no_metrics: "Peer mm_state0 nm f = Inl Undefined_behaviour"
  by (simp add: Peer_def MMAddCounter_def no_metrics Let_def)

lemma RtpVideoContext_no_metrics: "RtpVideoContext mm_state0 i video a b c = Inl Undefined_behaviour"
  by (simp add: RtpVideoContext_def MMAddCounter_def no_metrics Let_def)

lemma start_loops_peers: "start_loops sys n s = Inr s' \<Longrightarrow> mRegisteredPeers s' = mRegisteredPeers s"
  by (induction sys n s rule: start_loops.induct)
     (auto simp: res_bind_Inr_iff startUdpEventLoop_def)

lemma initUdpServer_peers: "initUdpServer sys hc config NetworkServer = Inr s \<Longrightarrow> mRegisteredPeers s = []"
  by (auto simp: initUdpServer_def Let_def res_bind_Inr_iff NetworkServer_def split: option.splits if_splits
      dest!: start_loops_peers)

lemma SetUpD:
  assumes "RtpProducerTest_SetUp sys use_pthreads fsys hc mem = Inr (p, g)"
  obtains ns n where "mRegisteredPeers ns = []" "g = VideoGreeterServiceImpl 12300"
    "p = RtpProducer\<lparr>mpNetworkServer := Some ns, mConfig := Some (test_config mem), mFileIoBases := n,
      mpFileIoThreadPool := Some (ThreadPool n), mpGrpcClient := True\<rparr>"
proof -
  from assms obtain ns where "initUdpServer sys hc \<lparr>port = 18086, event_loop_num = 1, async_worker_num = 1\<rparr> NetworkServer = Inr ns"
    and init: "RtpProducer_Init use_pthreads fsys hc (test_config mem) ns RtpProducer = Inr p"
    and "g = VideoGreeterServiceImpl 12300"
    by (auto simp: RtpProducerTest_SetUp_def res_bind_Inr_iff)
  then show thesis
    using that initUdpServer_peers RtpProducer_Init_res [OF init] by blast
qed

lemma got_simps [simp]:
  "got cb [] = False" "got cb (xs @ ys) = (got cb xs \<or> got cb ys)"
  "got cb (Sdp c s # xs) = (c = cb \<or> got cb xs)" "got cb (Rpc r # xs) = got cb xs"
  by (auto simp: got_def)

lemma got_media: "list_all only_media outs \<Longrightarrow> got cb outs \<longleftrightarrow> cb \<in> fst ` set (pkts_of outs)"
  by (induction outs rule: pkts_of.induct) (auto simp: got_def)

lemma got_packets:
  assumes "list_all only_media outs" "pkts_of outs = map (Pair c) xs"
  shows "got cb outs \<longleftrightarrow> cb = c \<and> xs \<noteq> []"
  unfolding got_media [OF assms(1)] assms(2) by (cases xs) auto

lemma push_rtp_live:
  assumes "peer_of p nm = Some i" "lock_ctx i p = Some ctx" "demuxer ctx"
    and "\<forall>pkt \<in> set pkts. \<forall>u \<in> set (demux pkt). unit_ok enc ctx u"
  shows "\<exists>outs. push_rtp demux enc nm pkts p = Inr outs \<and> list_all only_media outs \<and>
    pkts_of outs = map (Pair (consumePktFunc ctx))
      (concat (map (\<lambda>pkt. concat (map (\<lambda>u. enc (framed ctx (fst u)) (snd u)) (demux pkt))) pkts))"
  using assms(4)
proof (induction pkts)
  case (Cons pkt pkts)
  then obtain outs where outs: "push_rtp demux enc nm pkts p = Inr outs" "list_all only_media outs"
    "pkts_of outs = map (Pair (consumePktFunc ctx))
      (concat (map (\<lambda>pkt. concat (map (\<lambda>u. enc (framed ctx (fst u)) (snd u)) (demux pkt))) pkts))"
    by auto
  obtain outs' where "demuxed_units enc ctx (demux pkt) = Inr outs'" "list_all only_media outs'"
    "pkts_of outs' = map (Pair (consumePktFunc ctx)) (concat (map (\<lambda>u. enc (framed ctx (fst u)) (snd u)) (demux pkt)))"
    using demuxed_units_cases [of "demux pkt" enc ctx] Cons.prems by auto
  then show ?case
    using outs assms(1-3) by (simp add: on_peer_packet_def)
qed simp

lemma push_rtp_dead:
  "(\<And>i. peer_of p nm = Some i \<Longrightarrow> lock_ctx i p = None) \<Longrightarrow> push_rtp demux enc nm pkts p = Inr []"
  by (induction pkts) (auto simp: on_peer_packet_def split: option.splits)

definition test_video :: video_request where
  "test_video = VideoRequest\<lparr>use_gb := True, gbid := ''237246''\<rparr>"

lemma test_video_simps [simp]: "use_gb test_video" "\<not> use_file test_video"
  by (simp_all add: test_video_def)

lemma TEST_GB_passes:
  assumes "RtpProducerTest_SetUp sys use_pthreads fsys hc mem = Inr (p, g)"
    and "spInstance mm = Some m" and "rtp_demuxer_create lib" and "rtp_payload_encode_create lib"
    and "\<forall>pkt \<in> set pkts. \<forall>u \<in> set (demux pkt). \<forall>q \<in> set (enc (fst u) (snd u)). length q \<le> 1600"
    and "\<exists>pkt \<in> set pkts. \<exists>u \<in> set (demux pkt). enc (fst u) (snd u) \<noteq> []"
  shows "TEST_GB mm mem' lib demux enc pkts pkts' p g = Inr (True, True, False, False)"
proof -
  obtain ns n where ns: "mRegisteredPeers ns = []" and g: "g = VideoGreeterServiceImpl 12300"
    and p: "p = RtpProducer\<lparr>mpNetworkServer := Some ns, mConfig := Some (test_config mem), mFileIoBases := n,
      mpFileIoThreadPool := Some (ThreadPool n), mpGrpcClient := True\<rparr>"
    using assms(1) by (rule SetUpD)
  obtain c where c: "RtpVideoContext mm 0 test_video Got_sdp Got_pkt Got_error = Inr c"
    using RtpVideoContext_ready [OF assms(2), of 0 test_video Got_sdp Got_pkt Got_error] by blast
  note cf = RtpVideoContext_fields [OF c]
  let ?p1 = "p\<lparr>mRtpVideoContextMap := [(test_video, c)], next_ctx := 1\<rparr>"
  have register: "\<exists>r. RegisterVideo mm mem' test_video Got_sdp Got_pkt Got_error p = Inr (?p1, [Rpc r])"
    using c by (simp add: RegisterVideo_def p RtpProducer_def deref_def)
  obtain resp g' where invite: "greeter_InviteVideo g = (resp, g')"
    by (cases "greeter_InviteVideo g")
  obtain gb where gb: "gbInviteResponse resp = Some gb" "encoding gb = ''MP2T''"
    using invite by (auto simp: greeter_InviteVideo_def Let_def)
  let ?c = "c\<lparr>packet := True, payloadBuf := None, inviteId := r_inviteId resp, demuxer := True,
    payloadEncoder := True, rtp := rtp_create lib\<rparr>"
  let ?p2 = "?p1\<lparr>mRtpVideoContextMap := [(test_video, ?c)], mpNetworkServer := Some (reg_peer mm (peerInfo gb) 0 ns)\<rparr>"
  have reply: "on_invite_reply mm lib 0 True resp ?p1 =
      Inr (?p2, [Sdp Got_sdp (gb_sdp (gbid test_video) gb), Rpc (SendAck (r_inviteId resp))])"
    using assms(3,4) gb cf
    by (simp add: registerPeer_ready [OF assms(2)] on_invite_reply_def lock_ctx_def put_ctx_def p deref_def Let_def test_config_def int32_def in_int32_def)
  have peer: "peer_of ?p2 (peerInfo gb) = Some 0"
    using Peer_ready [OF assms(2), of "peerInfo gb" "0 :: nat"]
    by (auto simp: peer_of_def reg_peer_def registerPeer_def peers_look_def ns strs.find_set strs.irrefl)
  have lock: "lock_ctx 0 ?p2 = Some ?c"
    using cf by (simp add: lock_ctx_def)
  have "\<exists>outs. push_rtp demux enc (peerInfo gb) pkts ?p2 = Inr outs \<and> got Got_pkt outs \<and> \<not> got Got_error outs"
  proof -
    have "\<forall>pkt \<in> set pkts. \<forall>u \<in> set (demux pkt). unit_ok enc ?c u"
      using assms(5) by (auto simp: unit_ok_def fits_def framed_def)
    then obtain outs where "push_rtp demux enc (peerInfo gb) pkts ?p2 = Inr outs" "list_all only_media outs"
      "pkts_of outs = map (Pair Got_pkt) (concat (map (\<lambda>pkt. concat (map (\<lambda>u. enc (fst u) (snd u)) (demux pkt))) pkts))"
      using push_rtp_live [OF peer lock, of pkts demux enc] cf by (auto simp: framed_def)
    moreover have "concat (map (\<lambda>pkt. concat (map (\<lambda>u. enc (fst u) (snd u)) (demux pkt))) pkts) \<noteq> []"
      using assms(6) by force
    ultimately show ?thesis
      using got_packets by blast
  qed
  then obtain outs where push: "push_rtp demux enc (peerInfo gb) pkts ?p2 = Inr outs" "got Got_pkt outs" "\<not> got Got_error outs"
    by blast
  have unregister: "UnregisterVideo test_video ?p2 = Inr (?p2\<lparr>mRtpVideoContextMap := []\<rparr>, [Rpc (TearDown (r_inviteId resp))])"
    using invite by (auto simp: UnregisterVideo_def vr.irrefl greeter_InviteVideo_def Let_def)
  have "push_rtp demux enc (peerInfo gb) pkts' (?p2\<lparr>mRtpVideoContextMap := []\<rparr>) = Inr []"
    by (rule push_rtp_dead) (simp add: lock_ctx_def)
  moreover have "next_ctx p = 0"
    by (simp add: p RtpProducer_def)
  ultimately show ?thesis
    using register reply push unregister gb
    by (auto simp: TEST_GB_def Let_def invite test_video_def [symmetric])
qed

text \<open>
  The test of the producer against the gateway. As it stands its first call is undefined, because
  nothing in the test program starts the metrics manager. With the manager started it passes: if
  the library works, the packets the pusher sends become RTP packets that fit and there is at least
  one, then the description and a packet are delivered, no error is, and after \<open>UnregisterVideo\<close> no
  packet any more, whatever is still being pushed.
\<close>

theorem test_gb:
  assumes "RtpProducerTest_SetUp sys use_pthreads fsys hc mem = Inr (p, g)"
  shows "TEST_GB mm_state0 mem' lib demux enc pkts pkts' p g = Inl Undefined_behaviour \<and>
    (spInstance mm = Some m \<longrightarrow> rtp_demuxer_create lib \<longrightarrow> rtp_payload_encode_create lib \<longrightarrow>
     (\<forall>pkt \<in> set pkts. \<forall>u \<in> set (demux pkt). \<forall>q \<in> set (enc (fst u) (snd u)). length q \<le> 1600) \<longrightarrow>
     (\<exists>pkt \<in> set pkts. \<exists>u \<in> set (demux pkt). enc (fst u) (snd u) \<noteq> []) \<longrightarrow>
     TEST_GB mm mem' lib demux enc pkts pkts' p g = Inr (True, True, False, False))"
proof -
  obtain ns n where p: "p = RtpProducer\<lparr>mpNetworkServer := Some ns, mConfig := Some (test_config mem), mFileIoBases := n,
      mpFileIoThreadPool := Some (ThreadPool n), mpGrpcClient := True\<rparr>"
    using assms by (rule SetUpD)
  have "TEST_GB mm_state0 mem' lib demux enc pkts pkts' p g = Inl Undefined_behaviour"
    by (simp add: TEST_GB_def RegisterVideo_def p RtpProducer_def RtpVideoContext_no_metrics Let_def)
  then show ?thesis
    using TEST_GB_passes [OF assms] by blast
qed

lemma demo_SetUp: "\<exists>p g. RtpProducerTest_SetUp (\<lambda>_. syscalls_ok) 0
    (\<lambda>_. \<lparr>fl_event_base_new = True, fl_event_new = True, fl_event_add = 0\<rparr>) 4 0 = Inr (p, g)"
  by (simp add: RtpProducerTest_SetUp_def initUdpServer_def RtpProducer_Init_def startUdpEventLoop_def
      UdpEventLoop_Init_def syscalls_ok_def NetworkServer_def test_config_def int32_def in_int32_def)

theorem test_gb_witness:
  "\<exists>p g. TEST_GB demo_mm (Null, Null) lib_ok (\<lambda>b. [(b, 7)]) (\<lambda>b t. [b]) [[1, 2, 3]] [[4, 5]] p g =
     Inr (True, True, False, False)"
proof -
  have m: "spInstance demo_mm = Some (MetricsManager 8844 ''ffvms'' '''')"
    unfolding demo_mm_def mm_up_instance by simp
  obtain p g where "RtpProducerTest_SetUp (\<lambda>_. syscalls_ok) 0
      (\<lambda>_. \<lparr>fl_event_base_new = True, fl_event_new = True, fl_event_add = 0\<rparr>) 4 0 = Inr (p, g)"
    using demo_SetUp by blast
  from test_gb [OF this, of "(Null, Null)" lib_ok "\<lambda>b. [(b, 7)]" "\<lambda>b t. [b]" "[[1, 2, 3]]" "[[4, 5]]" demo_mm] m
  show ?thesis
    by (auto simp: lib_ok_def)
qed

text \<open>The test of the network server has the same fault.\<close>

theorem register_test_undefined:
  "NetworkServerTest_SetUp sys hc = Inr (s :: unit network_server) \<Longrightarrow>
   REGISTER mm_state0 sys hc request = Inl Undefined_behaviour"
  using initUdpServer_peers [of sys hc _ s]
  by (simp add: REGISTER_def NetworkServerTest_SetUp_def registerPeer_def Peer_no_metrics)

lemma metric_name_less: "string_less ''metric_name'' ''wahaha''"
  by (simp add: string_less_def)

text \<open>The test of the metrics manager: the name of each metric is its own although both share their labels.\<close>

theorem metrics_test:
  "\<exists>cl sl obs. METRICS_COMMON clock (MetricsManagerTest_SetUp mm_state0) =
      Inr (Counter ''mm_test_counter'' cl,
        Summary ''mm_test_summary'' sl [(0.5, 0.05), (0.9, 0.01), (0.95, 0.005), (0.99, 0.001)] 60000 5, obs) \<and>
    omap_find string_less ''metric_name'' cl = Some ''mm_test_counter'' \<and>
    omap_find string_less ''metric_name'' sl = Some ''mm_test_latency'' \<and>
    omap_find string_less ''wahaha'' sl = Some ''yixixi'' \<and> length obs = 20 \<and>
    ((\<forall>i. fst (clock i) \<le> snd (clock i)) \<longrightarrow> (\<forall>ob \<in> set obs. 0 \<le> snd ob))"
proof -
  let ?mm = "MetricsManagerTest_SetUp mm_state0"
  have m: "spInstance ?mm = Some (MetricsManager 23456 ''mm_test'' '''')"
    by (simp add: MetricsManagerTest_SetUp_def mm_Init_def mm_state0_def)
  show ?thesis
    unfolding METRICS_COMMON_def Let_def MMAddCounter_ready [OF m] MMAddSummary_def mm_GetInstance_def m
    by (simp add: AddCounter_def AddSummary_def MetricsManager_def Let_def strs.find_set
        LatencyMeasureMsScoped_dtor_def LatencyMeasureMsScoped_def trunc_div_nonneg strs.irrefl
        metric_name_less pos_imp_zdiv_nonneg_iff)
qed

text \<open>
  The test of the pool only submits. All ten tasks are accepted, but the destructor of the fixture may
  come first: there is a run in which all workers are joined and no task was ever started.
\<close>

theorem submit_test_may_skip:
  "\<exists>p. SUBMIT_TASK = Inr p \<and> mTasks p = [0..<10] \<and>
     (\<exists>evs q. pool_run p evs q \<and> dtor_joined q \<and> started evs = [])"
proof -
  let ?quit = "\<lambda>k p. p\<lparr>mStop := True, mWorks := replicate k Exited @ replicate (10 - k) Waiting\<rparr>"
  let ?p = "\<lparr>mWorks = replicate 10 Waiting, mTasks = [0..<10], mStop = False\<rparr> :: nat thread_pool"
  have p: "SUBMIT_TASK = Inr ?p"
    by (simp add: SUBMIT_TASK_def ThreadPool_def submit_def upt_rec)
  have "\<exists>evs. pool_run ?p evs (?quit k ?p) \<and> started evs = []" if "k \<le> 10" for k
    using that
  proof (induction k)
    case 0
    have "pool_run ?p ([] @ [Stopped]) (dtor_stop ?p)"
      by (rule pool_run.more [OF pool_run.none pool_step.stop])
    then show ?case
      by (intro exI [of _ "[Stopped]"]) (simp add: dtor_stop_def)
  next
    case (Suc k)
    then obtain evs where evs: "pool_run ?p evs (?quit k ?p)" "started evs = []"
      by auto
    have "pool_step (?quit k ?p) (Quit k) (worker_wake k (?quit k ?p))"
      using Suc.prems by (intro pool_step.quit) (auto simp: wait_pred_def nth_append)
    moreover have "10 - k = Suc (9 - k)"
      using Suc.prems by simp
    then have "worker_wake k (?quit k ?p) = ?quit (Suc k) ?p"
      by (simp add: worker_wake_def list_update_append) (simp add: replicate_app_Cons_same)
    ultimately have "pool_run ?p (evs @ [Quit k]) (?quit (Suc k) ?p)"
      using pool_run.more [OF evs(1)] by simp
    then show ?case
      using evs(2) by (intro exI [of _ "evs @ [Quit k]"]) simp
  qed
  from this [of 10] p show ?thesis
    by (force simp: dtor_joined_def)
qed

lemma start_rtsp_loops_maps:
  "start_rtsp_loops sys n s = Inr s' \<Longrightarrow>
     mBev2RtspServer s' = mBev2RtspServer s \<and> mVideoRequest2ProxyInfo s' = mVideoRequest2ProxyInfo s"
  by (induction sys n s rule: start_rtsp_loops.induct) (auto split: if_splits)

text \<open>
  The test of the service. If the parser finds the request, whatever URL it names, the client is
  answered 200 and nothing of it is left when it has gone: no connection, no proxy, no call of
  the producer. If the parser finds nothing, nothing is answered; the test expects neither.
\<close>

theorem rtsp_options_test:
  assumes "RtspServiceTest_SetUp use_pthreads sys hc p = Inr s"
  shows "\<exists>s'. RTSP_PARSER_OPTIONS mm al True bev (Some [OPTIONS uri]) s = Inr (s', [Reply_options (next_addr s) 200]) \<and>
      mBev2RtspServer s' = [] \<and> mVideoRequest2ProxyInfo s' = []"
    "\<exists>s'. RTSP_PARSER_OPTIONS mm al True bev None s = Inr (s', []) \<and> mBev2RtspServer s' = [] \<and> mVideoRequest2ProxyInfo s' = []"
proof -
  have [simp]: "mBev2RtspServer s = []" "mVideoRequest2ProxyInfo s = []"
    using assms start_rtsp_loops_maps
    by (fastforce simp: RtspServiceTest_SetUp_def RtspService_Init_def RtspService_def Let_def split: if_splits)+
  show "\<exists>s'. RTSP_PARSER_OPTIONS mm al True bev (Some [OPTIONS uri]) s = Inr (s', [Reply_options (next_addr s) 200]) \<and>
      mBev2RtspServer s' = [] \<and> mVideoRequest2ProxyInfo s' = []"
    by (simp add: RTSP_PARSER_OPTIONS_def accept_conn_cb_def readcb_def errorcb_def OnOptions_def put_proxy_def Let_def
        Close_def drop_client_def ProxyInfo_def vr.irrefl ptrs.irrefl)
  show "\<exists>s'. RTSP_PARSER_OPTIONS mm al True bev None s = Inr (s', []) \<and> mBev2RtspServer s' = [] \<and> mVideoRequest2ProxyInfo s' = []"
    by (simp add: RTSP_PARSER_OPTIONS_def accept_conn_cb_def readcb_def errorcb_def Close_def ptrs.irrefl)
qed

lemma answered_calls_mem: "Call_answered a cb r st \<in> set evs \<Longrightarrow> (a, cb) \<in> set (answered_calls evs)"
  by (induction evs rule: answered_calls.induct) auto

text \<open>
  The test of the asynchronous client. In every run of a client with one thread in which the test's
  call is the only one, and whose server greets the name it is given, the promise is set at most
  once, by the test's own callback; to the expected greeting if the call succeeded and to the empty
  string otherwise. It has been set once the client is destroyed.
\<close>

theorem hello_greet:
  assumes "ac_run (AsyncClient mem 1) evs s" and "started_calls evs = [(a, cb)]"
    and "\<forall>a' cb' r t. Call_answered a' cb' r (Status 0 t) \<in> set evs \<longrightarrow> r = SayHello ''wahaha''"
  shows "length (answered_calls evs) \<le> 1 \<and>
    (\<forall>a' cb' r code t. Call_answered a' cb' r (Status code t) \<in> set evs \<longrightarrow>
       cb' = cb \<and> promise_value r (Status code t) = (if code = 0 then ''hello wahaha'' else '''')) \<and>
    (dtor_at s = Some 1 \<longrightarrow> answered_calls evs = [(a, cb)])"
proof -
  note once = answered_once [OF assms(1), unfolded assms(2)]
  have sub: "mset (answered_calls evs) \<subseteq># mset [(a, cb)]"
    unfolding conjunct1 [OF once] by (rule mset_subset_eq_add_left)
  have len: "length (answered_calls evs) \<le> 1"
    using size_mset_mono [OF sub] by simp
  have own: "x = (a, cb)" if "x \<in> set (answered_calls evs)" for x
    using set_mset_mono [OF sub] that by auto
  have "cb' = cb \<and> promise_value r (Status code t) = (if code = 0 then ''hello wahaha'' else '''')"
    if ev: "Call_answered a' cb' r (Status code t) \<in> set evs" for a' cb' r code t
  proof
    show "cb' = cb"
      using own [OF answered_calls_mem [OF ev]] by simp
    show "promise_value r (Status code t) = (if code = 0 then ''hello wahaha'' else '''')"
    proof (cases "code = 0")
      case True
      then have "r = SayHello ''wahaha''"
        using assms(3) ev by blast
      then show ?thesis
        by (simp add: True SayHello_def)
    qed simp
  qed
  moreover have "answered_calls evs = [(a, cb)]" if "dtor_at s = Some 1"
  proof -
    have "dtor_at s = Some (nat 1)"
      using that by simp
    then have "mset (answered_calls evs) = mset [(a, cb)]"
      using once by blast
    then show ?thesis
      by simp
  qed
  ultimately show ?thesis
    using len by blast
qed

lemmas hello_ac_defs = AsyncClient_def Call_def StartCall_def SetCallback_def GeneralAsyncClientCall_def
  cq_index_def thread_pass_def Processed_def

theorem hello_greet_witness:
  "\<exists>s. ac_run (AsyncClient 5 1 :: (nat, string) async_client)
     [Call_started 0 7 0, Call_answered 0 7 ''hello wahaha'' (Status 0 [])] s \<and>
     promise_value ''hello wahaha'' (Status 0 []) = ''hello wahaha''"
proof -
  let ?c = "AsyncClient 5 1 :: (nat, string) async_client"
  let ?evs = "[Call_started 0 7 0, Call_answered 0 7 ''hello wahaha'' (Status 0 [])] :: (nat, string) rpc_event list"
  obtain s1 where s1: "Call 0 [] 0 7 ?c = Inr (s1, Call_started 0 7 0)"
    by (simp add: hello_ac_defs Let_def)
  then have s1': "length (mpCqs s1) = 1" "thread_runs s1 ! 0" "length (cq_calls (mpCqs s1 ! 0)) = 1"
    by (auto simp: hello_ac_defs Let_def)
  obtain s2 where "thread_pass 0 0 True ''hello wahaha'' (Status 0 []) s1 =
      Inr (s2, Call_answered 0 7 ''hello wahaha'' (Status 0 []))"
    using s1 by (auto simp: hello_ac_defs Let_def)
  then have "ac_step s1 [Call_answered 0 7 ''hello wahaha'' (Status 0 [])] s2"
    using s1' by (intro ac_step.answer) auto
  moreover have "ac_step ?c [Call_started 0 7 0] s1"
    using s1 by (intro ac_step.call) (auto simp: AsyncClient_def)
  ultimately have run: "ac_run ?c ?evs s2"
    using ac_run.more [OF ac_run.more [OF ac_run.start]] by fastforce
  have "\<forall>a' cb' r t. Call_answered a' cb' r (Status 0 t) \<in> set ?evs \<longrightarrow> r = SayHello ''wahaha''"
    by (simp add: SayHello_def)
  from hello_greet [OF run _ this, of 0 7] run show ?thesis
    by auto
qed

end
