(* ===== verification/Rtsp_Clients.thy ===== *)
theory Rtsp_Clients
  imports Rtsp_Service
begin

text \<open>
  What the service keeps of its clients: the invariant of its maps and proxies, which every step
  preserves; that clients which follow the usual order of requests are each in exactly one
  place and are forgotten when they go; and how the service fails clients which do not, or
  which go at the wrong moment.
\<close>

section \<open>The invariant\<close>

definition proxy_ok :: "proxy_info \<Rightarrow> bool" where
  "proxy_ok px \<longleftrightarrow>
     pset_ok (beforeDescribeClients px) \<and> pset_ok (waitingSdpClients px) \<and>
     pset_ok (beforePlayClients px) \<and> pset_ok (playingClients px) \<and>
     (sourceSdp px \<noteq> [] \<longrightarrow> waitingSdpClients px = [] \<and> px_registered px) \<and>
     (beforePlayClients px \<noteq> [] \<or> playingClients px \<noteq> [] \<longrightarrow> px_registered px) \<and>
     length (sendBuffer px) = 1600"

definition svc_ok :: "rtsp_service \<Rightarrow> bool" where
  "svc_ok s \<longleftrightarrow>
     omap_ok ptr_less (mBev2RtspServer s) \<and> distinct (map snd (mBev2RtspServer s)) \<and>
     (\<forall>es \<in> set (map snd (mBev2RtspServer s)). es < next_addr s) \<and>
     omap_ok VideoRequest_less (mVideoRequest2ProxyInfo s) \<and>
     (\<forall>px \<in> set (map snd (mVideoRequest2ProxyInfo s)). proxy_ok px \<and> px_addr px < next_addr s) \<and>
     distinct (map (px_addr \<circ> snd) (mVideoRequest2ProxyInfo s)) \<and>
     prod_ok (mpRtpProducer s)"

lemma svc_okD:
  assumes "svc_ok s"
  shows "omap_ok VideoRequest_less (mVideoRequest2ProxyInfo s)" "prod_ok (mpRtpProducer s)"
    "omap_ok ptr_less (mBev2RtspServer s)" "distinct (map snd (mBev2RtspServer s))"
    "(k, px) \<in> set (mVideoRequest2ProxyInfo s) \<Longrightarrow> proxy_ok px"
  using assms unfolding svc_ok_def by auto

lemma svc_ok_find:
  assumes "svc_ok s" "omap_find VideoRequest_less video (mVideoRequest2ProxyInfo s) = Some px"
  shows "proxy_ok px"
  by (rule vr.split_present [OF assms(2)]) (use svc_okD(5) [OF assms(1)] in auto)

lemma svc_ok_entry:
  assumes "svc_ok s" "(k, px) \<in> set (mVideoRequest2ProxyInfo s)"
  shows "omap_find VideoRequest_less k (mVideoRequest2ProxyInfo s) = Some px"
  by (rule vr.find_mem [OF svc_okD(1) [OF assms(1)] assms(2)])

lemma svc_ok_put:
  assumes "svc_ok s" "omap_find VideoRequest_less video (mVideoRequest2ProxyInfo s) = Some px0"
    "proxy_ok px" "px_addr px = px_addr px0"
  shows "svc_ok (put_proxy video px s)"
proof -
  obtain m1 k0 m2 where m: "mVideoRequest2ProxyInfo s = m1 @ (k0, px0) # m2"
    and set: "omap_set VideoRequest_less video px (mVideoRequest2ProxyInfo s) = m1 @ (k0, px) # m2"
    using vr.split_present [OF assms(2)] by metis
  have ok: "omap_ok VideoRequest_less (m1 @ (k0, px) # m2)"
    using svc_okD(1) [OF assms(1)] vr.ok_set [of "mVideoRequest2ProxyInfo s" video px] unfolding set by blast
  show ?thesis
    using assms(1,3,4) ok unfolding svc_ok_def put_proxy_def set by (simp add: m)
qed

lemma svc_ok_new:
  assumes "svc_ok s" "proxy_ok px" "px_addr px = next_addr s"
  shows "svc_ok ((put_proxy video px s)\<lparr>next_addr := Suc (next_addr s)\<rparr>)"
proof -
  let ?m = "mVideoRequest2ProxyInfo s"
  have "px_addr px \<notin> set (map (px_addr \<circ> snd) ?m)"
    using assms(1,3) by (auto simp: svc_ok_def)
  then have "distinct (map (px_addr \<circ> snd) (omap_set VideoRequest_less video px ?m))"
    using assms(1) by (intro distinct_map_set) (simp_all add: svc_ok_def)
  moreover have "proxy_ok px' \<and> px_addr px' < Suc (next_addr s)"
    if "px' \<in> set (map snd (omap_set VideoRequest_less video px ?m))" for px'
  proof -
    have "px' \<in> set (map snd ?m) \<or> px' = px" using that vr.set_set by fastforce
    then show ?thesis using assms by (auto simp: svc_ok_def less_SucI)
  qed
  ultimately show ?thesis
    using assms(1) by (simp add: svc_ok_def put_proxy_def less_SucI)
qed

lemma svc_ok_erase:
  assumes "svc_ok s"
  shows "svc_ok (s\<lparr>mVideoRequest2ProxyInfo := omap_erase VideoRequest_less video (mVideoRequest2ProxyInfo s)\<rparr>)"
  using assms vr.set_erase_subset [of video "mVideoRequest2ProxyInfo s"]
  by (auto simp: svc_ok_def distinct_map_erase)

lemma svc_ok_producer: "svc_ok s \<Longrightarrow> prod_ok p \<Longrightarrow> svc_ok (s\<lparr>mpRtpProducer := p\<rparr>)"
  by (simp add: svc_ok_def)

lemma processSdp_ok:
  assumes "processSdpFunction a sdp s = Inr (s', outs)" "svc_ok s"
  shows "svc_ok s'"
proof -
  from assms(1) obtain video px where px: "proxy_at a s = Some (video, px)"
    and s': "s' = put_proxy video (px\<lparr>px_registered := True,
        beforePlayClients := fold pset_insert (waitingSdpClients px) (beforePlayClients px),
        waitingSdpClients := [], sourceSdp := sdp\<rparr>) s"
    by (auto simp: processSdpFunction_def split: option.splits if_splits)
  note find = svc_ok_entry [OF assms(2) proxy_at_SomeD(1) [OF px]]
  show ?thesis
    unfolding s' by (rule svc_ok_put [OF assms(2) find]) (use svc_ok_find [OF assms(2) find] in \<open>auto simp: proxy_ok_def\<close>)
qed

lemma length_fresh_buffer [simp]: "length (fresh_buffer mem) = 1600"
  unfolding fresh_buffer_def by (simp only: length_map length_upt diff_zero)

lemma consumePkt_ok:
  assumes "consumePktFunction a pkt s = Inr (s', outs)" "svc_ok s"
  shows "svc_ok s'"
proof -
  from assms(1) obtain video px buf where px: "proxy_at a s = Some (video, px)"
    and s': "s' = put_proxy video (px\<lparr>sendBuffer := buf\<rparr>) s" "length buf = length (sendBuffer px)"
    by (auto simp: consumePktFunction_def Let_def interleaved_frame_def split: option.splits if_splits)
  note find = svc_ok_entry [OF assms(2) proxy_at_SomeD(1) [OF px]]
  show ?thesis
    unfolding s'(1) by (rule svc_ok_put [OF assms(2) find]) (use svc_ok_find [OF assms(2) find] s'(2) in \<open>auto simp: proxy_ok_def\<close>)
qed

lemma processError_same:
  "processErrorFunction a ec s = Inr (s', outs) \<Longrightarrow> s' = s"
  by (auto simp: processErrorFunction_def Let_def split: option.splits if_splits)

lemma callback_ok:
  assumes "callback out s = Inr (s', outs)" "svc_ok s"
  shows "svc_ok s'"
  using assms by (cases out) (auto intro: processSdp_ok consumePkt_ok dest: processError_same)

lemma callbacks_ok: "callbacks pouts s = Inr (s', outs) \<Longrightarrow> svc_ok s \<Longrightarrow> svc_ok s'"
  by (induction pouts arbitrary: s outs) (auto simp: res_bind_Inr_iff intro: callback_ok)

lemma with_producer_ok:
  assumes "with_producer f s = Inr (s', outs)" "svc_ok s"
    "\<And>p' pouts. f (mpRtpProducer s) = Inr (p', pouts) \<Longrightarrow> prod_ok p'"
  shows "svc_ok s'"
proof -
  from assms(1) obtain p pouts where "f (mpRtpProducer s) = Inr (p, pouts)"
    "callbacks pouts (s\<lparr>mpRtpProducer := p\<rparr>) = Inr (s', outs)"
    by (auto simp: with_producer_def res_bind_Inr_iff)
  then show ?thesis using callbacks_ok svc_ok_producer assms(2,3) by blast
qed

lemma mpRtpProducer_put [simp]: "mpRtpProducer (put_proxy video px s) = mpRtpProducer s"
  by (simp add: put_proxy_def)

lemma pset_ok_single [simp]: "pset_ok [x]"
  by (simp add: pset_ok_def)

lemma OnOptions_ok:
  assumes "OnOptions mem es uri s = Inr (ret, s', outs)" "svc_ok s"
  shows "svc_ok s'"
proof (cases "omap_find VideoRequest_less (VideoRequest_url uri) (mVideoRequest2ProxyInfo s)")
  case None
  with assms show ?thesis
    by (auto simp: OnOptions_def Let_def intro!: svc_ok_new) (auto simp: ProxyInfo_def proxy_ok_def)
next
  case (Some px)
  with assms svc_ok_find [OF assms(2) Some] show ?thesis
    by (auto simp: OnOptions_def Let_def proxy_ok_def intro!: svc_ok_put)
qed

lemma OnDescribe_ok:
  assumes "OnDescribe mm mem es uri s = Inr (ret, s', outs)" "svc_ok s"
  shows "svc_ok s'"
proof (cases "omap_find VideoRequest_less (VideoRequest_url uri) (mVideoRequest2ProxyInfo s)")
  case None
  with assms show ?thesis by (auto simp: OnDescribe_def)
next
  case (Some px)
  note ok = svc_ok_find [OF assms(2) Some]
  let ?px = "px\<lparr>beforeDescribeClients := pset_erase es (beforeDescribeClients px)\<rparr>"
  consider "sourceSdp px = []"
      "with_producer (RegisterVideo mm mem (VideoRequest_url uri) (px_addr px) (px_addr px) (px_addr px))
      (put_proxy (VideoRequest_url uri) (?px\<lparr>waitingSdpClients := [es]\<rparr>) s) = Inr (s', outs)"
    | "sourceSdp px \<noteq> []"
      "s' = put_proxy (VideoRequest_url uri) (?px\<lparr>beforePlayClients := pset_insert es (beforePlayClients px)\<rparr>) s"
    | "s' = put_proxy (VideoRequest_url uri) ?px s"
    using assms(1) Some by (auto simp: OnDescribe_def Let_def res_bind_Inr_iff split: if_splits)
  then show ?thesis
  proof cases
    case 1
    have "svc_ok (put_proxy (VideoRequest_url uri) (?px\<lparr>waitingSdpClients := [es]\<rparr>) s)"
      by (rule svc_ok_put [OF assms(2) Some]) (use ok 1(1) in \<open>auto simp: proxy_ok_def\<close>)
    then show ?thesis
      using with_producer_ok [OF 1(2)] RegisterVideo_keeps svc_okD(2) by fastforce
  next
    case 2
    show ?thesis unfolding 2(2)
      by (rule svc_ok_put [OF assms(2) Some]) (use ok 2(1) in \<open>auto simp: proxy_ok_def\<close>)
  next
    case 3
    show ?thesis unfolding 3
      by (rule svc_ok_put [OF assms(2) Some]) (use ok in \<open>auto simp: proxy_ok_def\<close>)
  qed
qed

lemma OnPlay_ok:
  assumes "OnPlay es uri s = Inr (ret, s', outs)" "svc_ok s"
  shows "svc_ok s'"
proof (cases "omap_find VideoRequest_less (VideoRequest_url uri) (mVideoRequest2ProxyInfo s)")
  case None
  with assms show ?thesis by (auto simp: OnPlay_def)
next
  case (Some px)
  note ok = svc_ok_find [OF assms(2) Some]
  show ?thesis
  proof (cases "es \<in> set (beforePlayClients px)")
    case True
    then have "px_registered px" using ok by (auto simp: proxy_ok_def)
    with assms Some True ok show ?thesis
      by (auto simp: OnPlay_def proxy_ok_def intro!: svc_ok_put)
  next
    case False
    with assms Some show ?thesis by (auto simp: OnPlay_def)
  qed
qed

lemma drop_client_ok: "drop_client es px = Some px' \<Longrightarrow> proxy_ok px \<Longrightarrow> proxy_ok px'"
  by (auto simp: drop_client_def proxy_ok_def split: if_splits)

lemma Close_ok:
  assumes "Close es s = Inr (s', outs)" "svc_ok s"
  shows "svc_ok s'"
proof (cases "find_client es (mVideoRequest2ProxyInfo s)")
  case None
  with assms show ?thesis by (simp add: Close_def)
next
  case (Some r)
  obtain video px' where r: "r = (video, px')" by force
  with Some obtain px where px: "(video, px) \<in> set (mVideoRequest2ProxyInfo s)" "drop_client es px = Some px'"
    using find_client_SomeD by blast
  have put: "svc_ok (put_proxy video px' s)"
    using svc_ok_put [OF assms(2) svc_ok_entry [OF assms(2) px(1)]] drop_client_ok [OF px(2)]
      svc_okD(5) [OF assms(2) px(1)] drop_client_other [OF px(2)] by blast
  consider "s' = put_proxy video px' s"
    | s1 where "with_producer (UnregisterVideo video) (put_proxy video px' s) = Inr (s1, outs) \<or>
        s1 = put_proxy video px' s"
      "s' = s1\<lparr>mVideoRequest2ProxyInfo := omap_erase VideoRequest_less video (mVideoRequest2ProxyInfo s1)\<rparr>"
    using assms(1) Some r by (auto simp: Close_def res_bind_Inr_iff split: if_splits)
  then show ?thesis
  proof cases
    case 1
    with put show ?thesis by simp
  next
    case 2
    have "svc_ok s1"
      using 2(1) with_producer_ok [of "UnregisterVideo video", OF _ put]
        UnregisterVideo_keeps svc_okD(2) [OF put] put by blast
    then show ?thesis unfolding 2(2) by (rule svc_ok_erase)
  qed
qed

lemma handle_ok:
  assumes "handle mm al es r s = Inr (ret, s', outs)" "svc_ok s"
  shows "svc_ok s'"
  using assms
  by (cases r) (auto simp: OnOther_same OnSetup_def intro: OnOptions_ok OnDescribe_ok OnPlay_ok
      split: if_splits option.splits)

lemma handle_all_ok: "handle_all mm al es rs s = Inr (s', outs) \<Longrightarrow> svc_ok s \<Longrightarrow> svc_ok s'"
  by (induction rs arbitrary: s outs) (auto simp: res_bind_Inr_iff intro: handle_ok)

lemma accept_ok:
  assumes "accept_conn_cb ret bev s = Inr s'" "svc_ok s"
  shows "svc_ok s'"
proof (cases "s' = s")
  case False
  then obtain b where b: "omap_find ptr_less b (mBev2RtspServer s) = None"
    "s' = s\<lparr>mBev2RtspServer := omap_set ptr_less b (next_addr s) (mBev2RtspServer s), next_addr := Suc (next_addr s)\<rparr>"
    using assms(1) by (auto simp: accept_conn_cb_def split: if_splits option.splits)
  note set = ptrs.set_set_absent [OF b(1) svc_okD(3) [OF assms(2)], of "next_addr s"]
  have "distinct (map (id \<circ> snd) (omap_set ptr_less b (next_addr s) (mBev2RtspServer s)))"
    using assms(2) by (intro distinct_map_set) (auto simp: svc_ok_def)
  with assms(2) show ?thesis
    unfolding b(2) by (auto simp: svc_ok_def set less_SucI)
qed (use assms in simp)

lemma svc_ok_bev:
  assumes "svc_ok s"
  shows "svc_ok (s\<lparr>mBev2RtspServer := omap_erase ptr_less bev (mBev2RtspServer s)\<rparr>)"
  using assms ptrs.set_erase_subset [of bev "mBev2RtspServer s"]
  by (auto simp: svc_ok_def distinct_map_erase)

lemma svc_step_ok:
  assumes "svc_step mm strict s outs s'" "svc_ok s"
  shows "svc_ok s'"
  using assms(1)
proof cases
  case (accept ret bev)
  then show ?thesis using accept_ok assms(2) by blast
next
  case (read al bev requests)
  then show ?thesis
    using assms(2) by (auto simp: readcb_def intro: handle_all_ok split: option.splits)
next
  case (error bev)
  then show ?thesis
    using assms(2) by (auto simp: errorcb_def Let_def intro: Close_ok svc_ok_bev split: option.splits)
next
  case (produce pouts p')
  then show ?thesis
    using assms(2) prod_step_keeps [OF produce(1) svc_okD(2)] callbacks_ok svc_ok_producer by blast
qed

lemma svc_run_ok: "svc_run mm strict s0 tr s \<Longrightarrow> svc_ok s0 \<Longrightarrow> svc_ok s"
  by (induction rule: svc_run.induct) (auto intro: svc_step_ok)


section \<open>Polite clients\<close>

text \<open>
  A tidy service: a client is in one set of one proxy at most, and every client in a set is
  connected. \<open>px_disjoint\<close> is the first half for one proxy.
\<close>

definition tidy :: "rtsp_service \<Rightarrow> bool" where
  "tidy s \<longleftrightarrow> (\<forall>es. \<forall>a \<in> places s es. \<forall>b \<in> places s es. a = b) \<and>
     (\<forall>es. places s es \<noteq> {} \<longrightarrow> es_alive s es)"

definition px_members :: "proxy_info \<Rightarrow> nat set" where
  "px_members px = (\<Union>ph. set (clients_in ph px))"

definition px_disjoint :: "proxy_info \<Rightarrow> bool" where
  "px_disjoint px \<longleftrightarrow> (\<forall>es ph ph'. es \<in> set (clients_in ph px) \<longrightarrow> es \<in> set (clients_in ph' px) \<longrightarrow> ph = ph')"

lemma all_phase: "(\<forall>ph. P ph) \<longleftrightarrow> P Before_describe \<and> P Waiting_sdp \<and> P Before_play \<and> P Playing"
  by (metis phase.exhaust)

lemma ex_phase: "(\<exists>ph. P ph) \<longleftrightarrow> P Before_describe \<or> P Waiting_sdp \<or> P Before_play \<or> P Playing"
  by (metis phase.exhaust)

lemma px_members_eq:
  "px_members px = set (beforeDescribeClients px) \<union> set (waitingSdpClients px) \<union>
     set (beforePlayClients px) \<union> set (playingClients px)"
  by (simp add: px_members_def set_eq_iff ex_phase)

lemma px_disjoint_iff:
  "px_disjoint px \<longleftrightarrow>
     set (beforeDescribeClients px) \<inter> (set (waitingSdpClients px) \<union> set (beforePlayClients px) \<union> set (playingClients px)) = {} \<and>
     set (waitingSdpClients px) \<inter> (set (beforePlayClients px) \<union> set (playingClients px)) = {} \<and>
     set (beforePlayClients px) \<inter> set (playingClients px) = {}"
  unfolding px_disjoint_def all_phase by auto

lemma places_put:
  assumes "svc_ok s" "omap_find VideoRequest_less video (mVideoRequest2ProxyInfo s) = Some px0"
  obtains k0 where "same_key VideoRequest_less video k0" "(k0, px0) \<in> set (mVideoRequest2ProxyInfo s)"
    "\<And>px es. places (put_proxy video px s) es =
       {a \<in> places s es. fst a \<noteq> k0} \<union> {(k0, ph) | ph. es \<in> set (clients_in ph px)}"
proof -
  obtain m1 k0 m2 where m: "mVideoRequest2ProxyInfo s = m1 @ (k0, px0) # m2"
    and same: "same_key VideoRequest_less video k0"
    and set: "\<And>px. omap_set VideoRequest_less video px (mVideoRequest2ProxyInfo s) = m1 @ (k0, px) # m2"
    by (rule vr.split_present [OF assms(2)]) blast
  have "omap_ok VideoRequest_less (m1 @ (k0, px0) # m2)"
    using svc_okD(1) [OF assms(1)] m by simp
  then have no: "(k0, x) \<notin> set m1" "(k0, x) \<notin> set m2" for x
    using vr.irrefl by (auto simp: omap_ok_def sorted_wrt_append)
  have m': "mVideoRequest2ProxyInfo (put_proxy video px s) = m1 @ (k0, px) # m2" for px
    by (simp add: put_proxy_def set)
  have pl: "places (put_proxy video px s) es =
       {a \<in> places s es. fst a \<noteq> k0} \<union> {(k0, ph) | ph. es \<in> set (clients_in ph px)}" for px es
    unfolding places_def m' m using no by auto
  show thesis
    by (rule that [OF same _ pl]) (simp add: m)
qed

lemma tidy_px:
  assumes "tidy s" "(k, px) \<in> set (mVideoRequest2ProxyInfo s)"
  shows "px_disjoint px" "es \<in> px_members px \<Longrightarrow> es_alive s es"
proof -
  have "(k, ph) \<in> places s es" if "es \<in> set (clients_in ph px)" for es ph
    using that assms(2) by (auto simp: places_def)
  with assms(1) show "px_disjoint px" "es \<in> px_members px \<Longrightarrow> es_alive s es"
    unfolding tidy_def px_disjoint_def px_members_def by blast+
qed

lemma tidy_put:
  assumes "tidy s" "svc_ok s" "omap_find VideoRequest_less video (mVideoRequest2ProxyInfo s) = Some px0"
    "px_disjoint px" "\<And>es. es \<in> px_members px \<Longrightarrow> es \<in> px_members px0 \<or> es_alive s es \<and> places s es = {}"
  shows "tidy (put_proxy video px s)"
proof -
  obtain k0 where mem: "(k0, px0) \<in> set (mVideoRequest2ProxyInfo s)" and
    pl: "\<And>es. places (put_proxy video px s) es =
       {a \<in> places s es. fst a \<noteq> k0} \<union> {(k0, ph) | ph. es \<in> set (clients_in ph px)}"
    by (rule places_put [OF assms(2,3)]) blast
  have old: "\<exists>ph. (k0, ph) \<in> places s es" if "es \<in> px_members px0" for es
    using that mem unfolding px_members_def places_def by blast
  have alive: "es_alive (put_proxy video px s) es = es_alive s es" for es
    by (simp add: es_alive_def put_proxy_def)
  have one: "a = b" if "a \<in> places (put_proxy video px s) es" "b \<in> places (put_proxy video px s) es"
    "fst a = k0 \<longleftrightarrow> fst b = k0" for a b es
    using that assms(1,4) unfolding pl tidy_def px_disjoint_def by fastforce
  have no: False if "a \<in> places s es" "fst a \<noteq> k0" "es \<in> set (clients_in ph px)" for a es ph
  proof -
    have "es \<in> px_members px" using that(3) unfolding px_members_def by blast
    then have "es \<in> px_members px0" using assms(5) that(1) by blast
    then obtain ph' where "(k0, ph') \<in> places s es" using old by blast
    then have "a = (k0, ph')" using that(1) assms(1) unfolding tidy_def by blast
    with that(2) show False by simp
  qed
  have "a = b" if "a \<in> places (put_proxy video px s) es" "b \<in> places (put_proxy video px s) es" for a b es
  proof (cases "fst a = k0 \<longleftrightarrow> fst b = k0")
    case True
    then show ?thesis using one that by blast
  next
    case False
    then show ?thesis using that no unfolding pl by (auto, metis+)
  qed
  moreover have "es_alive s es" if "places (put_proxy video px s) es \<noteq> {}" for es
  proof -
    from that consider "places s es \<noteq> {}" | "es \<in> px_members px"
      unfolding pl px_members_def by blast
    then show ?thesis
      using assms(1,5) tidy_px(2) [OF assms(1) mem] unfolding tidy_def by cases blast+
  qed
  ultimately show ?thesis unfolding tidy_def alive by blast
qed


lemma tidy_new:
  assumes "tidy s" "svc_ok s" "omap_find VideoRequest_less video (mVideoRequest2ProxyInfo s) = None"
    "px_disjoint px" "\<And>es. es \<in> px_members px \<Longrightarrow> es_alive s es \<and> places s es = {}"
  shows "tidy (put_proxy video px s)"
proof -
  have pl: "places (put_proxy video px s) es = places s es \<union> {(video, ph) | ph. es \<in> set (clients_in ph px)}" for es
    unfolding places_def put_proxy_def using vr.set_set_absent [OF assms(3) svc_okD(1) [OF assms(2)], of px] by auto
  have alive: "es_alive (put_proxy video px s) es = es_alive s es" for es
    by (simp add: es_alive_def put_proxy_def)
  have "(\<forall>a \<in> places (put_proxy video px s) es. \<forall>b \<in> places (put_proxy video px s) es. a = b) \<and>
    (places (put_proxy video px s) es \<noteq> {} \<longrightarrow> es_alive s es)" for es
  proof (cases "es \<in> px_members px")
    case True
    with assms(4,5) show ?thesis unfolding pl px_disjoint_def by auto
  next
    case False
    then have "places (put_proxy video px s) es = places s es" unfolding pl px_members_def by auto
    moreover have "\<forall>a \<in> places s es. \<forall>b \<in> places s es. a = b" "places s es \<noteq> {} \<longrightarrow> es_alive s es"
      using assms(1) unfolding tidy_def by blast+
    ultimately show ?thesis by simp
  qed
  then show ?thesis unfolding tidy_def alive by simp
qed

lemma places_simps [simp]:
  "places (s\<lparr>mpRtpProducer := p\<rparr>) es = places s es" "places (s\<lparr>next_addr := n\<rparr>) es = places s es"
  "places (s\<lparr>mBev2RtspServer := b\<rparr>) es = places s es"
  by (simp_all add: places_def)

lemma tidy_simps [simp]:
  "tidy (s\<lparr>mpRtpProducer := p\<rparr>) = tidy s" "tidy (s\<lparr>next_addr := n\<rparr>) = tidy s"
  by (simp_all add: tidy_def es_alive_def)

lemma processSdp_tidy:
  assumes "processSdpFunction a sdp s = Inr (s', outs)" "tidy s" "svc_ok s"
  shows "tidy s'"
proof -
  from assms(1) obtain video px where px: "proxy_at a s = Some (video, px)"
    and s': "s' = put_proxy video (px\<lparr>px_registered := True,
        beforePlayClients := fold pset_insert (waitingSdpClients px) (beforePlayClients px),
        waitingSdpClients := [], sourceSdp := sdp\<rparr>) s"
    by (auto simp: processSdpFunction_def split: option.splits if_splits)
  note mem = proxy_at_SomeD(1) [OF px]
  show ?thesis
    unfolding s' by (rule tidy_put [OF assms(2,3) svc_ok_entry [OF assms(3) mem]])
      (use tidy_px(1) [OF assms(2) mem] in \<open>auto simp: px_disjoint_iff px_members_eq\<close>)
qed

lemma consumePkt_tidy:
  assumes "consumePktFunction a pkt s = Inr (s', outs)" "tidy s" "svc_ok s"
  shows "tidy s'"
proof -
  from assms(1) obtain video px buf where px: "proxy_at a s = Some (video, px)"
    and s': "s' = put_proxy video (px\<lparr>sendBuffer := buf\<rparr>) s"
    by (auto simp: consumePktFunction_def Let_def split: option.splits if_splits)
  note mem = proxy_at_SomeD(1) [OF px]
  show ?thesis
    unfolding s' by (rule tidy_put [OF assms(2,3) svc_ok_entry [OF assms(3) mem]])
      (use tidy_px(1) [OF assms(2) mem] in \<open>auto simp: px_disjoint_iff px_members_eq\<close>)
qed

lemma callback_tidy:
  assumes "callback out s = Inr (s', outs)" "tidy s" "svc_ok s"
  shows "tidy s'"
  using assms by (cases out) (auto intro: processSdp_tidy consumePkt_tidy dest: processError_same)

lemma callbacks_tidy: "callbacks pouts s = Inr (s', outs) \<Longrightarrow> tidy s \<Longrightarrow> svc_ok s \<Longrightarrow> tidy s'"
proof (induction pouts arbitrary: s outs)
  case (Cons out pouts)
  from Cons.prems(1) obtain s1 o1 o2 where 1: "callback out s = Inr (s1, o1)" "callbacks pouts s1 = Inr (s', o2)"
    by (auto simp: res_bind_Inr_iff)
  from Cons.IH [OF 1(2) callback_tidy [OF 1(1)] callback_ok [OF 1(1)]] Cons.prems(2,3) show ?case by blast
qed simp

lemma with_producer_tidy:
  assumes "with_producer f s = Inr (s', outs)" "tidy s" "svc_ok s"
    "\<And>p' pouts. f (mpRtpProducer s) = Inr (p', pouts) \<Longrightarrow> prod_ok p'"
  shows "tidy s'"
proof -
  from assms(1) obtain p pouts where "f (mpRtpProducer s) = Inr (p, pouts)"
    "callbacks pouts (s\<lparr>mpRtpProducer := p\<rparr>) = Inr (s', outs)"
    by (auto simp: with_producer_def res_bind_Inr_iff)
  then show ?thesis
    using callbacks_tidy [of pouts "s\<lparr>mpRtpProducer := p\<rparr>"] svc_ok_producer [OF assms(3)] assms(2,4) by simp
qed

lemma OnOptions_tidy:
  assumes "OnOptions mem es uri s = Inr (ret, s', outs)" "tidy s" "svc_ok s"
    "es_alive s es" "places s es = {}"
  shows "tidy s'"
proof (cases "omap_find VideoRequest_less (VideoRequest_url uri) (mVideoRequest2ProxyInfo s)")
  case None
  have "tidy (put_proxy (VideoRequest_url uri) ((ProxyInfo (next_addr s) mem)\<lparr>beforeDescribeClients := [es]\<rparr>) s)"
    by (rule tidy_new [OF assms(2,3) None])
      (use assms(4,5) in \<open>auto simp: px_disjoint_iff px_members_eq ProxyInfo_def\<close>)
  with assms(1) None show ?thesis by (auto simp: OnOptions_def Let_def)
next
  case (Some px)
  obtain k where k: "(k, px) \<in> set (mVideoRequest2ProxyInfo s)"
    by (rule vr.split_present [OF Some]) (auto simp: in_set_conv_decomp)
  have "es \<notin> set (clients_in ph px)" for ph
    using assms(5) k unfolding places_def by blast
  then have fresh: "es \<notin> px_members px" by (auto simp: px_members_def)
  have "tidy (put_proxy (VideoRequest_url uri) (px\<lparr>beforeDescribeClients := pset_insert es (beforeDescribeClients px)\<rparr>) s)"
    by (rule tidy_put [OF assms(2,3) Some])
      (use assms(4,5) fresh tidy_px(1) [OF assms(2) k] in \<open>auto simp: px_disjoint_iff px_members_eq\<close>)
  with assms(1) Some show ?thesis by (auto simp: OnOptions_def Let_def)
qed

text \<open>For a polite client, what it has in the proxy it describes is all it has.\<close>

lemma polite_describe:
  assumes "svc_ok s" "omap_find VideoRequest_less video (mVideoRequest2ProxyInfo s) = Some px"
    "\<forall>(k, ph) \<in> places s es. ph = Before_describe \<and> same_key VideoRequest_less video k"
  shows "es \<notin> set (waitingSdpClients px) \<union> set (beforePlayClients px) \<union> set (playingClients px)"
    "es \<notin> set (beforeDescribeClients px) \<Longrightarrow> places s es = {}"
proof -
  obtain m1 k m2 where "mVideoRequest2ProxyInfo s = m1 @ (k, px) # m2" and same: "same_key VideoRequest_less video k"
    by (rule vr.split_present [OF assms(2)]) blast
  then have k: "(k, px) \<in> set (mVideoRequest2ProxyInfo s)" by simp
  have "ph = Before_describe" if "es \<in> set (clients_in ph px)" for ph
    using assms(3) k that unfolding places_def by blast
  from this [of Waiting_sdp] this [of Before_play] this [of Playing]
  show "es \<notin> set (waitingSdpClients px) \<union> set (beforePlayClients px) \<union> set (playingClients px)" by auto
  show "places s es = {}" if "es \<notin> set (beforeDescribeClients px)"
  proof (rule ccontr)
    assume "places s es \<noteq> {}"
    then obtain k' ph px' where p: "(k', px') \<in> set (mVideoRequest2ProxyInfo s)" "es \<in> set (clients_in ph px')"
      "(k', ph) \<in> places s es" by (auto simp: places_def)
    then have "ph = Before_describe" "same_key VideoRequest_less video k'" using assms(3) by auto
    moreover from this(2) have "same_key VideoRequest_less k' k"
      using same by (blast intro: vr.same_trans vr.same_sym)
    then have "(k', px') = (k, px)" using vr.entry_unique [OF svc_okD(1) [OF assms(1)] p(1) k] by simp
    ultimately show False using p(2) that by simp
  qed
qed


lemma OnDescribe_tidy:
  assumes "OnDescribe mm mem es uri s = Inr (ret, s', outs)" "tidy s" "svc_ok s" "es_alive s es"
    "\<forall>(k, ph) \<in> places s es. ph = Before_describe \<and> same_key VideoRequest_less (VideoRequest_url uri) k"
  shows "tidy s'"
proof (cases "omap_find VideoRequest_less (VideoRequest_url uri) (mVideoRequest2ProxyInfo s)")
  case None
  with assms(1,2) show ?thesis by (auto simp: OnDescribe_def)
next
  case (Some px)
  note ok = svc_ok_find [OF assms(3) Some]
  obtain k where k: "(k, px) \<in> set (mVideoRequest2ProxyInfo s)"
    by (rule vr.split_present [OF Some]) (auto simp: in_set_conv_decomp)
  note polite = polite_describe [OF assms(3) Some assms(5)]
  note put = tidy_put [OF assms(2,3) Some]
  note facts = tidy_px(1) [OF assms(2) k] polite assms(4)
  let ?px = "px\<lparr>beforeDescribeClients := pset_erase es (beforeDescribeClients px)\<rparr>"
  consider "sourceSdp px = []"
      "with_producer (RegisterVideo mm mem (VideoRequest_url uri) (px_addr px) (px_addr px) (px_addr px))
      (put_proxy (VideoRequest_url uri) (?px\<lparr>waitingSdpClients := [es]\<rparr>) s) = Inr (s', outs)"
    | "s' = put_proxy (VideoRequest_url uri) (?px\<lparr>beforePlayClients := pset_insert es (beforePlayClients px)\<rparr>) s"
    | "s' = put_proxy (VideoRequest_url uri) ?px s"
    using assms(1) Some by (auto simp: OnDescribe_def Let_def res_bind_Inr_iff split: if_splits)
  then show ?thesis
  proof cases
    case 1
    have ok1: "svc_ok (put_proxy (VideoRequest_url uri) (?px\<lparr>waitingSdpClients := [es]\<rparr>) s)"
      by (rule svc_ok_put [OF assms(3) Some]) (use ok 1(1) in \<open>auto simp: proxy_ok_def\<close>)
    have "tidy (put_proxy (VideoRequest_url uri) (?px\<lparr>waitingSdpClients := [es]\<rparr>) s)"
      by (rule put) (use facts in \<open>auto simp: px_disjoint_iff px_members_eq\<close>)
    then show ?thesis
      using with_producer_tidy [OF 1(2) _ ok1] RegisterVideo_keeps svc_okD(2) [OF ok1] by fastforce
  next
    case 2
    show ?thesis unfolding 2
      by (rule put) (use facts in \<open>auto simp: px_disjoint_iff px_members_eq\<close>)
  next
    case 3
    show ?thesis unfolding 3
      by (rule put) (use facts in \<open>auto simp: px_disjoint_iff px_members_eq\<close>)
  qed
qed

lemma OnPlay_tidy:
  assumes "OnPlay es uri s = Inr (ret, s', outs)" "tidy s" "svc_ok s"
  shows "tidy s'"
proof (cases "omap_find VideoRequest_less (VideoRequest_url uri) (mVideoRequest2ProxyInfo s)")
  case None
  with assms show ?thesis by (auto simp: OnPlay_def)
next
  case (Some px)
  obtain k where k: "(k, px) \<in> set (mVideoRequest2ProxyInfo s)"
    by (rule vr.split_present [OF Some]) (auto simp: in_set_conv_decomp)
  consider "s' = s" | "es \<in> set (beforePlayClients px)"
      "s' = put_proxy (VideoRequest_url uri) (px\<lparr>beforePlayClients := pset_erase es (beforePlayClients px),
         playingClients := pset_insert es (playingClients px)\<rparr>) s"
    using assms(1) Some by (auto simp: OnPlay_def split: if_splits)
  then show ?thesis
  proof cases
    case 2
    show ?thesis unfolding 2(2)
      by (rule tidy_put [OF assms(2,3) Some])
        (use 2(1) tidy_px(1) [OF assms(2) k] in \<open>auto simp: px_disjoint_iff px_members_eq\<close>)
  qed (use assms(2) in simp)
qed

text \<open>Only \<open>accept_conn_cb\<close> and \<open>errorcb\<close> touch the connections.\<close>

lemma put_proxy_bev [simp]: "mBev2RtspServer (put_proxy video px s) = mBev2RtspServer s"
  by (simp add: put_proxy_def)

lemma callback_bev: "callback out s = Inr (s', outs) \<Longrightarrow> mBev2RtspServer s' = mBev2RtspServer s"
  by (cases out) (auto simp: processSdpFunction_def consumePktFunction_def processErrorFunction_def Let_def
      split: option.splits if_splits)

lemma callbacks_bev: "callbacks pouts s = Inr (s', outs) \<Longrightarrow> mBev2RtspServer s' = mBev2RtspServer s"
proof (induction pouts arbitrary: s outs)
  case (Cons out pouts)
  from Cons.prems obtain s1 o1 o2 where "callback out s = Inr (s1, o1)" "callbacks pouts s1 = Inr (s', o2)"
    by (auto simp: res_bind_Inr_iff)
  with Cons.IH callback_bev show ?case by fastforce
qed simp

lemma with_producer_bev: "with_producer f s = Inr (s', outs) \<Longrightarrow> mBev2RtspServer s' = mBev2RtspServer s"
  by (auto simp: with_producer_def res_bind_Inr_iff dest: callbacks_bev)

lemma handle_bev: "handle mm al es r s = Inr (ret, s', outs) \<Longrightarrow> mBev2RtspServer s' = mBev2RtspServer s"
  by (cases r) (auto simp: OnOptions_def OnDescribe_def OnSetup_def OnPlay_def OnOther_same Let_def res_bind_Inr_iff
      dest!: with_producer_bev split: option.splits if_splits)

lemma handle_tidy:
  assumes "handle mm al es r s = Inr (ret, s', outs)" "tidy s" "svc_ok s" "es_alive s es" "polite s es r"
  shows "tidy s'"
proof (cases r)
  case (OPTIONS uri)
  with assms show ?thesis by (auto simp: polite_def intro: OnOptions_tidy)
next
  case (DESCRIBE uri)
  with assms show ?thesis by (auto simp: polite_def intro: OnDescribe_tidy)
next
  case (SETUP uri session tr)
  with assms show ?thesis by (auto simp: OnSetup_def split: if_splits option.splits)
next
  case (PLAY uri)
  with assms show ?thesis by (auto intro: OnPlay_tidy)
next
  case (OTHER m uri)
  with assms show ?thesis by (auto simp: OnOther_same)
qed

lemma handle_all_tidy:
  "handle_all mm al es rs s = Inr (s', outs) \<Longrightarrow> polite_all mm al es rs s \<Longrightarrow> tidy s \<Longrightarrow> svc_ok s \<Longrightarrow>
   es_alive s es \<Longrightarrow> tidy s'"
proof (induction rs arbitrary: s outs)
  case (Cons r rs)
  from Cons.prems(1) obtain ret s1 o1 o2 where 1: "handle mm al es r s = Inr (ret, s1, o1)"
    "handle_all mm al es rs s1 = Inr (s', o2)"
    by (auto simp: res_bind_Inr_iff)
  have p: "polite s es r" "polite_all mm al es rs s1" using Cons.prems(2) 1(1) by simp_all
  have "es_alive s1 es" using Cons.prems(5) handle_bev [OF 1(1)] by (simp add: es_alive_def)
  then show ?case
    using Cons.IH [OF 1(2) p(2)] handle_tidy [OF 1(1) Cons.prems(3,4,5) p(1)] handle_ok [OF 1(1) Cons.prems(4)] by blast
qed simp

lemma accept_tidy:
  assumes "accept_conn_cb ret bev s = Inr s'" "tidy s" "svc_ok s"
  shows "tidy s'"
proof (cases "s' = s")
  case False
  then obtain b where b: "omap_find ptr_less b (mBev2RtspServer s) = None"
    "s' = s\<lparr>mBev2RtspServer := omap_set ptr_less b (next_addr s) (mBev2RtspServer s), next_addr := Suc (next_addr s)\<rparr>"
    using assms(1) by (auto simp: accept_conn_cb_def split: if_splits option.splits)
  note set = ptrs.set_set_absent [OF b(1) svc_okD(3) [OF assms(3)], of "next_addr s"]
  show ?thesis
    using assms(2) unfolding b(2) tidy_def by (auto simp: es_alive_def set)
qed (use assms in simp)


lemma drop_client_disjoint:
  assumes "drop_client es px = Some px'" "px_disjoint px"
  shows "px_disjoint px'" "px_members px' = px_members px - {es}"
  using assms by (auto simp: drop_client_def px_disjoint_iff px_members_eq split: if_splits)

lemma drop_client_None: "drop_client es px = None \<Longrightarrow> es \<notin> set (clients_in ph px)"
  by (cases ph) (auto simp: drop_client_def split: if_splits)

lemma find_client_None: "find_client es m = None \<Longrightarrow> (k, px) \<in> set m \<Longrightarrow> es \<notin> set (clients_in ph px)"
  by (induction m) (auto simp: drop_client_None split: option.splits)

text \<open>A connection goes after its client has been taken out of the proxies.\<close>

lemma tidy_gone:
  assumes "tidy s" "places s es = {}" "svc_ok s" "omap_find ptr_less bev (mBev2RtspServer s) = Some es"
  shows "tidy (s\<lparr>mBev2RtspServer := omap_erase ptr_less bev (mBev2RtspServer s)\<rparr>)"
proof -
  let ?s = "s\<lparr>mBev2RtspServer := omap_erase ptr_less bev (mBev2RtspServer s)\<rparr>"
  obtain m1 b m2 where "mBev2RtspServer s = m1 @ (b, es) # m2"
    "omap_erase ptr_less bev (mBev2RtspServer s) = m1 @ m2"
    by (rule ptrs.split_present [OF assms(4)]) blast
  then have "es_alive ?s e" if "es_alive s e" "e \<noteq> es" for e
    using that by (simp add: es_alive_def)
  moreover have "e \<noteq> es" if "places s e \<noteq> {}" for e using that assms(2) by auto
  ultimately show ?thesis using assms(1) unfolding tidy_def places_simps by blast
qed

lemma tidy_erase:
  assumes "tidy s"
  shows "tidy (s\<lparr>mVideoRequest2ProxyInfo := omap_erase VideoRequest_less video (mVideoRequest2ProxyInfo s)\<rparr>)"
proof -
  let ?s = "s\<lparr>mVideoRequest2ProxyInfo := omap_erase VideoRequest_less video (mVideoRequest2ProxyInfo s)\<rparr>"
  have sub: "places ?s es \<subseteq> places s es" for es
    using vr.set_erase_subset [of video "mVideoRequest2ProxyInfo s"] unfolding places_def by auto
  have alive: "es_alive ?s es = es_alive s es" for es by (simp add: es_alive_def)
  have "(\<forall>a \<in> places ?s es. \<forall>b \<in> places ?s es. a = b) \<and> (places ?s es \<noteq> {} \<longrightarrow> es_alive s es)" for es
    using sub [of es] assms unfolding tidy_def by blast
  then show ?thesis unfolding tidy_def alive by blast
qed

lemma put_proxy_swap:
  "put_proxy video px (s\<lparr>mBev2RtspServer := b\<rparr>) = (put_proxy video px s)\<lparr>mBev2RtspServer := b\<rparr>"
  by (simp add: put_proxy_def)

lemma dropped_tidy:
  assumes "tidy s" "svc_ok s" "(video, px) \<in> set (mVideoRequest2ProxyInfo s)" "drop_client es px = Some px'"
  shows "tidy (put_proxy video px' s)" "places (put_proxy video px' s) es = {}"
proof -
  note find = svc_ok_entry [OF assms(2,3)]
  note drop = drop_client_disjoint [OF assms(4) tidy_px(1) [OF assms(1,3)]]
  show "tidy (put_proxy video px' s)"
    by (rule tidy_put [OF assms(1,2) find drop(1)]) (simp add: drop(2))
  obtain k0 where k0: "same_key VideoRequest_less video k0" "(k0, px) \<in> set (mVideoRequest2ProxyInfo s)"
    and pl: "places (put_proxy video px' s) es =
       {a \<in> places s es. fst a \<noteq> k0} \<union> {(k0, ph) | ph. es \<in> set (clients_in ph px')}"
    by (rule places_put [OF assms(2) find]) blast
  have "es \<in> px_members px" using assms(4) by (auto simp: drop_client_def px_members_eq split: if_splits)
  then obtain ph where "(k0, ph) \<in> places s es" using k0(2) by (auto simp: px_members_def places_def)
  then have "a = (k0, ph)" if "a \<in> places s es" for a using that assms(1) unfolding tidy_def by blast
  then have "{a \<in> places s es. fst a \<noteq> k0} = {}" by auto
  moreover have "{(k0, ph) | ph. es \<in> set (clients_in ph px')} = {}" using drop(2) by (auto simp: px_members_def)
  ultimately show "places (put_proxy video px' s) es = {}" unfolding pl by simp
qed

text \<open>The connection erased and the client taken out of its proxy.\<close>

lemma closed_tidy:
  assumes "tidy s" "svc_ok s" "omap_find ptr_less bev (mBev2RtspServer s) = Some es"
    "find_client es (mVideoRequest2ProxyInfo s) = Some (video, px')"
  shows "tidy (put_proxy video px' (s\<lparr>mBev2RtspServer := omap_erase ptr_less bev (mBev2RtspServer s)\<rparr>))"
    "svc_ok (put_proxy video px' (s\<lparr>mBev2RtspServer := omap_erase ptr_less bev (mBev2RtspServer s)\<rparr>))"
proof -
  obtain px where px: "(video, px) \<in> set (mVideoRequest2ProxyInfo s)" "drop_client es px = Some px'"
    using find_client_SomeD [OF assms(4)] by blast
  have ok: "svc_ok (put_proxy video px' s)"
    using svc_ok_put [OF assms(2) svc_ok_entry [OF assms(2) px(1)]] drop_client_ok [OF px(2)]
      svc_okD(5) [OF assms(2) px(1)] drop_client_other [OF px(2)] by blast
  then show "tidy (put_proxy video px' (s\<lparr>mBev2RtspServer := omap_erase ptr_less bev (mBev2RtspServer s)\<rparr>))"
    "svc_ok (put_proxy video px' (s\<lparr>mBev2RtspServer := omap_erase ptr_less bev (mBev2RtspServer s)\<rparr>))"
    using tidy_gone [OF dropped_tidy [OF assms(1,2) px] ok, of bev] svc_ok_bev [OF ok, of bev] assms(3)
    unfolding put_proxy_swap by simp_all
qed

lemma errorcb_tidy:
  assumes "errorcb True bev s = Inr (s', outs)" "tidy s" "svc_ok s"
  shows "tidy s'"
proof (cases "omap_find ptr_less bev (mBev2RtspServer s)")
  case None
  with assms show ?thesis by (simp add: errorcb_def)
next
  case (Some es)
  let ?s = "s\<lparr>mBev2RtspServer := omap_erase ptr_less bev (mBev2RtspServer s)\<rparr>"
  have close: "Close es ?s = Inr (s', outs)" using assms(1) Some by (simp add: errorcb_def)
  show ?thesis
  proof (cases "find_client es (mVideoRequest2ProxyInfo s)")
    case None
    then have "places s es = {}" using find_client_None [OF None] unfolding places_def by simp
    moreover have "s' = ?s" using None close by (simp add: Close_def)
    ultimately show ?thesis using tidy_gone [OF assms(2) _ assms(3) Some] by simp
  next
    case found: (Some r)
    obtain video px' where r: "r = (video, px')" by force
    note put = closed_tidy [OF assms(2,3) Some found [unfolded r]]
    consider "s' = put_proxy video px' ?s"
      | s1 where "with_producer (UnregisterVideo video) (put_proxy video px' ?s) = Inr (s1, outs) \<or>
          s1 = put_proxy video px' ?s"
        "s' = s1\<lparr>mVideoRequest2ProxyInfo := omap_erase VideoRequest_less video (mVideoRequest2ProxyInfo s1)\<rparr>"
      using close found r by (auto simp: Close_def res_bind_Inr_iff split: if_splits)
    then show ?thesis
    proof cases
      case 2
      have "tidy s1" if "with_producer (UnregisterVideo video) (put_proxy video px' ?s) = Inr (s1, outs)"
        by (rule with_producer_tidy [OF that put]) (use UnregisterVideo_keeps svc_okD(2) [OF put(2)] in blast)
      with 2(1) put(1) have "tidy s1" by blast
      then show ?thesis unfolding 2(2) by (rule tidy_erase)
    qed (use put(1) in simp)
  qed
qed

lemma svc_step_tidy:
  assumes "svc_step mm True s outs s'" "tidy s" "svc_ok s"
  shows "tidy s'"
  using assms(1)
proof cases
  case (accept ret bev)
  then show ?thesis using accept_tidy assms(2,3) by blast
next
  case (read al bev requests)
  show ?thesis
  proof (cases "omap_find ptr_less bev (mBev2RtspServer s)")
    case None
    with read assms(2) show ?thesis by (simp add: readcb_def)
  next
    case (Some es)
    then have "es_alive s es" by (rule ptrs.split_present) (simp add: es_alive_def)
    with Some read assms(2,3) show ?thesis
      by (auto simp: readcb_def intro: handle_all_tidy split: option.splits)
  qed
next
  case (error bev)
  then show ?thesis using errorcb_tidy assms(2,3) by blast
next
  case (produce pouts p')
  show ?thesis
    using callbacks_tidy [OF produce(2)] prod_step_keeps [OF produce(1) svc_okD(2) [OF assms(3)]]
      svc_ok_producer [OF assms(3)] assms(2) by simp
qed

lemma svc_run_tidy:
  "svc_run mm True s0 tr s \<Longrightarrow> tidy s0 \<Longrightarrow> svc_ok s0 \<Longrightarrow> tidy s"
proof (induction rule: svc_run.induct)
  case (step tr s outs s')
  then show ?case using svc_step_tidy svc_run_ok by blast
qed simp


section \<open>What every run keeps\<close>

lemma start_rtsp_loops_res:
  "start_rtsp_loops sys n s = Inr s' \<Longrightarrow> s' = s\<lparr>mEventLoopThreads := mEventLoopThreads s + n\<rparr>"
proof (induction n arbitrary: s)
  case (Suc n)
  then have "start_rtsp_loops sys n (s\<lparr>mEventLoopThreads := mEventLoopThreads s + 1\<rparr>) = Inr s'"
    by (simp split: if_splits)
  from Suc.IH [OF this] show ?case by simp
qed simp

lemma RtspService_Init_res:
  assumes "RtspService_Init up sys hc config p RtspService = Inr s0"
  shows "\<exists>n. s0 = RtspService\<lparr>mpRtpProducer := p, mEventLoopThreads := n\<rparr>"
  using assms by (auto simp: RtspService_Init_def Let_def RtspService_def dest: start_rtsp_loops_res split: if_splits)

lemma svc_ok_Init:
  assumes "RtspService_Init up sys hc config p RtspService = Inr s0" "prod_ok p"
  shows "svc_ok s0" "tidy s0"
  using RtspService_Init_res [OF assms(1)] assms(2)
  by (auto simp: RtspService_def svc_ok_def tidy_def places_def omap_ok_def)

lemma proxy_at_entry:
  assumes "svc_ok s" "(k, px) \<in> set (mVideoRequest2ProxyInfo s)"
  shows "proxy_at (px_addr px) s = Some (k, px)"
proof -
  obtain r where r: "proxy_at (px_addr px) s = Some r"
    using assms(2) unfolding proxy_at_def by (cases "find (\<lambda>e. px_addr (snd e) = px_addr px) (mVideoRequest2ProxyInfo s)")
      (auto simp: find_None_iff)
  obtain k' px' where r': "r = (k', px')" by force
  note at = proxy_at_SomeD [OF r [unfolded r']]
  have "distinct (map (px_addr \<circ> snd) (mVideoRequest2ProxyInfo s))" using assms(1) by (simp add: svc_ok_def)
  then have "inj_on (px_addr \<circ> snd) (set (mVideoRequest2ProxyInfo s))" by (simp add: distinct_map)
  from inj_onD [OF this _ at(1) assms(2)] at(2) have "(k', px') = (k, px)" by simp
  with r r' show ?thesis by simp
qed

lemma tidy_callbacks_defined:
  assumes "tidy s" "svc_ok s" "(k, px) \<in> set (mVideoRequest2ProxyInfo s)"
  shows "\<exists>r. processSdpFunction (px_addr px) sdp s = Inr r" "\<exists>r. processErrorFunction (px_addr px) ec s = Inr r"
    "2 \<le> length pkt \<Longrightarrow> length pkt \<le> 1596 \<Longrightarrow> \<exists>r. consumePktFunction (px_addr px) pkt s = Inr r"
proof -
  note at = proxy_at_entry [OF assms(2,3)]
  have alive: "es_alive s es" if "es \<in> px_members px" for es
    using tidy_px(2) [OF assms(1,3)] that .
  have len: "length (sendBuffer px) = 1600" using svc_okD(5) [OF assms(2,3)] by (simp add: proxy_ok_def)
  show "\<exists>r. processSdpFunction (px_addr px) sdp s = Inr r"
    using alive by (simp add: processSdpFunction_def at list_all_iff px_members_eq)
  show "\<exists>r. processErrorFunction (px_addr px) ec s = Inr r"
    using alive by (auto simp: processErrorFunction_def at list_all_iff px_members_eq Let_def)
  show "\<exists>r. consumePktFunction (px_addr px) pkt s = Inr r" if "2 \<le> length pkt" "length pkt \<le> 1596"
    using alive that len by (simp add: consumePktFunction_def at list_all_iff px_members_eq Let_def)
qed

text \<open>
  C8: In every state an initialised service reaches, whatever the clients, the gateway, the cameras
  and the files do: both maps are ordered with one entry per key, no address is used twice, the
  client sets are sets, no client waits for a description that is there, only registered proxies
  have clients past \<open>DESCRIBE\<close>, every send buffer has its 1600 bytes, and the producer keeps its
  own invariant.
\<close>

theorem service_invariant:
  assumes "RtspService_Init up sys hc config p RtspService = Inr s0" "prod_ok p" "svc_run mm strict s0 tr s"
  shows "svc_ok s"
  using svc_run_ok [OF assms(3) svc_ok_Init(1) [OF assms(1,2)]] .

lemma demo_producer_ok: "prod_ok demo_producer"
  by (rule prod_ok_Init [OF demo_Init])

lemma demo_svc_Init:
  "RtspService_Init 0 (\<lambda>_. \<lparr>rl_event_base_new = True, rl_listener_new = True\<rparr>) 4
     \<lparr>rtsp_port = 8554, event_thread_num = 0\<rparr> demo_producer RtspService = Inr demo_svc"
  by (simp add: RtspService_Init_def demo_svc_def)

lemma demo_media_run:
  "\<exists>tr s. svc_run demo_mm True demo_svc tr s \<and> Interleaved 0 [0x24, 0, 0, 3, 128, 96, 7] \<in> set tr"
proof -
  have "x \<in> set (xs @ [x] @ ys)" for x :: svc_out and xs ys by simp
  with demo_session show ?thesis by blast
qed

theorem service_invariant_witness:
  "\<exists>tr s. svc_run demo_mm True demo_svc tr s \<and> Interleaved 0 [0x24, 0, 0, 3, 128, 96, 7] \<in> set tr \<and> svc_ok s"
proof -
  from demo_media_run obtain tr s where "svc_run demo_mm True demo_svc tr s"
    "Interleaved 0 [0x24, 0, 0, 3, 128, 96, 7] \<in> set tr" by blast
  with service_invariant [OF demo_svc_Init demo_producer_ok] show ?thesis by blast
qed

text \<open>
  C9: As long as clients ask for \<open>OPTIONS\<close> once and then for \<open>DESCRIBE\<close> of that video, every client is
  in one set of one proxy at most, and whoever is in a set is connected. So the callbacks of a
  proxy that exists never follow a dangling client: they return, for every description, error
  and packet of 2 to 1596 bytes.
\<close>

theorem polite_clients_tracked:
  assumes "RtspService_Init up sys hc config p RtspService = Inr s0" "prod_ok p" "svc_run mm True s0 tr s"
  shows "(\<forall>es. \<forall>a \<in> places s es. \<forall>b \<in> places s es. a = b) \<and> (\<forall>es. places s es \<noteq> {} \<longrightarrow> es_alive s es) \<and>
    (\<forall>(k, px) \<in> set (mVideoRequest2ProxyInfo s).
       (\<forall>sdp. \<exists>r. processSdpFunction (px_addr px) sdp s = Inr r) \<and>
       (\<forall>ec. \<exists>r. processErrorFunction (px_addr px) ec s = Inr r) \<and>
       (\<forall>pkt. 2 \<le> length pkt \<longrightarrow> length pkt \<le> 1596 \<longrightarrow> (\<exists>r. consumePktFunction (px_addr px) pkt s = Inr r)))"
proof -
  note ok = svc_run_ok [OF assms(3) svc_ok_Init(1) [OF assms(1,2)]]
  have t: "tidy s" by (rule svc_run_tidy [OF assms(3) svc_ok_Init(2,1) [OF assms(1,2)]])
  have "(\<forall>es. \<forall>a \<in> places s es. \<forall>b \<in> places s es. a = b) \<and> (\<forall>es. places s es \<noteq> {} \<longrightarrow> es_alive s es)"
    using t unfolding tidy_def .
  moreover have "(\<forall>sdp. \<exists>r. processSdpFunction (px_addr px) sdp s = Inr r) \<and>
      (\<forall>ec. \<exists>r. processErrorFunction (px_addr px) ec s = Inr r) \<and>
      (\<forall>pkt. 2 \<le> length pkt \<longrightarrow> length pkt \<le> 1596 \<longrightarrow> (\<exists>r. consumePktFunction (px_addr px) pkt s = Inr r))"
    if "(k, px) \<in> set (mVideoRequest2ProxyInfo s)" for k px
    using tidy_callbacks_defined [OF t ok that] by (intro conjI allI impI)
  ultimately show ?thesis by (intro conjI) blast+
qed

theorem polite_clients_tracked_witness:
  "\<exists>tr s. svc_run demo_mm True demo_svc tr s \<and> Interleaved 0 [0x24, 0, 0, 3, 128, 96, 7] \<in> set tr \<and>
     (\<forall>es. \<forall>a \<in> places s es. \<forall>b \<in> places s es. a = b)"
proof -
  from demo_media_run obtain tr s where "svc_run demo_mm True demo_svc tr s"
    "Interleaved 0 [0x24, 0, 0, 3, 128, 96, 7] \<in> set tr" by blast
  with polite_clients_tracked [OF demo_svc_Init demo_producer_ok] show ?thesis by blast
qed

end
