(* ===== verification/Rtsp_Delivery.thy ===== *)
theory Rtsp_Delivery
  imports Rtsp_Clients
begin

unbundle bit_operations_syntax

text \<open>
  What the service does for its clients when all goes well: who is answered when a description
  arrives, what the bytes a playing client receives mean to it, from the camera's packet on, and
  when a video is given back to the producer.
\<close>

section \<open>The description\<close>

lemma find_put_same:
  assumes "svc_ok s" "(k, px0) \<in> set (mVideoRequest2ProxyInfo s)"
  shows "omap_find VideoRequest_less k (mVideoRequest2ProxyInfo (put_proxy k px s)) = Some px"
  using svc_okD(1) [OF assms(1)] by (simp add: put_proxy_def vr.find_set)


text \<open>
  C14: When a description arrives, every client that waits for it, and no other, is answered with
  it once, and all of them may play. If it is not empty, a client that asks later is answered at
  once, and may play too.
\<close>

theorem sdp_answers_waiting:
  assumes "svc_ok s" "(k, px) \<in> set (mVideoRequest2ProxyInfo s)"
    "\<forall>es \<in> set (waitingSdpClients px). es_alive s es"
  shows "\<exists>s' px'. processSdpFunction (px_addr px) sdp s =
      Inr (s', map (\<lambda>es. Reply_describe es 200 sdp) (waitingSdpClients px)) \<and> distinct (waitingSdpClients px) \<and>
    omap_find VideoRequest_less k (mVideoRequest2ProxyInfo s') = Some px' \<and> waitingSdpClients px' = [] \<and>
    set (beforePlayClients px') = set (beforePlayClients px) \<union> set (waitingSdpClients px) \<and> px_registered px' \<and>
    (sdp \<noteq> [] \<longrightarrow> (\<forall>es uri. same_key VideoRequest_less k (VideoRequest_url uri) \<longrightarrow>
       (\<exists>s2 s3. OnDescribe mm mem es uri s' = Inr (Ret 0, s2, [Reply_describe es 200 sdp]) \<and>
          OnPlay es uri s2 = Inr (Ret_reply, s3, [Reply_play es 200]))))"
proof -
  let ?px = "px\<lparr>px_registered := True,
    beforePlayClients := fold pset_insert (waitingSdpClients px) (beforePlayClients px),
    waitingSdpClients := [], sourceSdp := sdp\<rparr>"
  have "processSdpFunction (px_addr px) sdp s =
      Inr (put_proxy k ?px s, map (\<lambda>es. Reply_describe es 200 sdp) (waitingSdpClients px))"
    using assms(3) by (simp add: processSdpFunction_def proxy_at_entry [OF assms(1,2)] list_all_iff)
  moreover have "distinct (waitingSdpClients px)"
    using svc_okD(5) [OF assms(1,2)] by (simp add: proxy_ok_def pset_ok_def strict_sorted_iff)
  moreover have "omap_find VideoRequest_less k (mVideoRequest2ProxyInfo (put_proxy k ?px s)) = Some ?px"
    by (rule find_put_same [OF assms(1,2)])
  moreover have "\<exists>s2 s3. OnDescribe mm mem es uri (put_proxy k ?px s) = Inr (Ret 0, s2, [Reply_describe es 200 sdp]) \<and>
      OnPlay es uri s2 = Inr (Ret_reply, s3, [Reply_play es 200])"
    if "sdp \<noteq> []" "same_key VideoRequest_less k (VideoRequest_url uri)" for es uri
    using that by (simp add: OnDescribe_def OnPlay_def Let_def put_proxy_def vr.find_set)
  ultimately show ?thesis
    by (intro exI [of _ "put_proxy k ?px s"] exI [of _ ?px]) (simp add: Un_commute)
qed

lemma demo_run_waiting:
  "svc_run demo_mm True demo_svc
     [Reply_options 0 200, Producer (Rpc (InviteVideo 0 ''demo1'' ''10.0.0.2:8086'' UDP 3000))] demo_waiting"
proof -
  note r1 = svc_run.step [OF svc_run.start svc_step.accept [OF demo_accept]]
  have bev: "mBev2RtspServer demo_open = [(5, 0)]" "mBev2RtspServer demo_known = [(5, 0)]"
    by (simp_all add: demo_known_def demo_open_def)
  note r2 = svc_run.step [OF r1 demo_read [OF demo_options bev(1) demo_polite(1)]]
  note r3 = svc_run.step [OF r2 demo_read [OF demo_describe bev(2) demo_polite(2)]]
  from r3 show ?thesis by simp
qed

lemma demo_run_playing: "\<exists>tr. svc_run demo_mm True demo_svc tr demo_playing"
proof -
  note r4 = svc_run.step [OF demo_run_waiting svc_step.produce [OF prod_step.invite [OF demo_invite] demo_sdp_step]]
  have bev: "mBev2RtspServer demo_ready = [(5, 0)]" by (simp add: demo_ready_def demo_open_def)
  have p5: "polite_all demo_mm demo_al 0 [PLAY demo_url] demo_ready"
    by (auto simp: polite_def split: sum.splits)
  from svc_run.step [OF r4 demo_read [OF demo_play bev p5]] show ?thesis by blast
qed

lemma demo_waiting_ok: "svc_ok demo_waiting" "tidy demo_waiting"
  using svc_run_ok [OF demo_run_waiting] svc_run_tidy [OF demo_run_waiting]
    svc_ok_Init [OF demo_svc_Init demo_producer_ok] by blast+

lemma demo_playing_ok: "svc_ok demo_playing" "tidy demo_playing"
  using demo_run_playing svc_run_ok svc_run_tidy svc_ok_Init [OF demo_svc_Init demo_producer_ok] by blast+

theorem sdp_answers_waiting_witness:
  "\<exists>s'. processSdpFunction 1 ''v=0'' demo_waiting = Inr (s', [Reply_describe 0 200 ''v=0'']) \<and>
    (\<exists>s2 s3. OnDescribe demo_mm (Null, Null) 7 demo_url s' = Inr (Ret 0, s2, [Reply_describe 7 200 ''v=0'']) \<and>
       OnPlay 7 demo_url s2 = Inr (Ret_reply, s3, [Reply_play 7 200]))"
proof -
  let ?px = "demo_px\<lparr>waitingSdpClients := [0]\<rparr>"
  have mem: "(demo_camera, ?px) \<in> set (mVideoRequest2ProxyInfo demo_waiting)"
    and alive: "\<forall>es \<in> set (waitingSdpClients ?px). es_alive demo_waiting es"
    by (simp_all add: demo_waiting_def demo_open_def es_alive_def)
  have px: "px_addr ?px = 1" "waitingSdpClients ?px = [0]" by (simp_all add: demo_px_def ProxyInfo_def)
  have key: "same_key VideoRequest_less demo_camera (VideoRequest_url demo_url)"
    by (simp add: demo_url_video)
  from sdp_answers_waiting [OF demo_waiting_ok(1) mem alive, of "''v=0''" demo_mm "(Null, Null)", unfolded px]
  obtain s' where "processSdpFunction 1 ''v=0'' demo_waiting = Inr (s', [Reply_describe 0 200 ''v=0''])"
    "\<forall>es uri. same_key VideoRequest_less demo_camera (VideoRequest_url uri) \<longrightarrow>
       (\<exists>s2 s3. OnDescribe demo_mm (Null, Null) es uri s' = Inr (Ret 0, s2, [Reply_describe es 200 ''v=0'']) \<and>
          OnPlay es uri s2 = Inr (Ret_reply, s3, [Reply_play es 200]))"
    by auto
  with key show ?thesis by blast
qed

section \<open>The bytes of a client\<close>

text \<open>
  What a client is sent, as one string of bytes, and how it takes it apart (RFC 2326, 10.12): a
  dollar sign, the channel, two bytes of length, the packet.
\<close>

fun client_bytes :: "nat \<Rightarrow> svc_out list \<Rightarrow> bytes" where
  "client_bytes es [] = []"
| "client_bytes es (Interleaved c frm # outs) = (if c = es then frm else []) @ client_bytes es outs"
| "client_bytes es (_ # outs) = client_bytes es outs"

fun deframe :: "bytes \<Rightarrow> (byte \<times> bytes) list option" where
  "deframe [] = Some []"
| "deframe (m # ch # hi # lo # rest) =
     (let n = unat hi * 256 + unat lo in
      if m \<noteq> 0x24 \<or> length rest < n then None
      else map_option ((#) (ch, take n rest)) (deframe (drop n rest)))"
| "deframe _ = None"

lemma client_bytes_append: "client_bytes es (xs @ ys) = client_bytes es xs @ client_bytes es ys"
  by (induction xs rule: client_bytes.induct) auto

lemma client_bytes_once:
  "distinct cs \<Longrightarrow> client_bytes es (map (\<lambda>c. Interleaved c frm) cs) = (if es \<in> set cs then frm else [])"
  by (induction cs) auto

lemma deframe_frame:
  assumes "length pkt < 65536"
  shows "deframe (interleaved_frame pkt @ rest) = map_option ((#) (interleaved_channel pkt, pkt)) (deframe rest)"
proof -
  have "unat (word_of_nat (length pkt div 256) :: byte) = length pkt div 256"
    "unat (word_of_nat (length pkt mod 256) :: byte) = length pkt mod 256"
    using assms by (simp_all add: unat_of_nat)
  then show ?thesis by (simp add: interleaved_frame_def Let_def)
qed


lemma entry_put:
  assumes "svc_ok s" "(k, px0) \<in> set (mVideoRequest2ProxyInfo s)"
  shows "(k, px) \<in> set (mVideoRequest2ProxyInfo (put_proxy k px s))"
proof -
  obtain m1 k0 m2 where m: "mVideoRequest2ProxyInfo s = m1 @ (k0, px0) # m2" "same_key VideoRequest_less k k0"
    "\<And>v. omap_set VideoRequest_less k v (mVideoRequest2ProxyInfo s) = m1 @ (k0, v) # m2"
    by (rule vr.split_present [OF svc_ok_entry [OF assms]]) blast
  have "(k, px0) = (k0, px0)"
    by (rule vr.entry_unique [OF svc_okD(1) [OF assms(1)] assms(2)]) (use m(1,2) in simp_all)
  then show ?thesis using m(3) by (simp add: put_proxy_def)
qed

lemma length_interleaved_frame: "length (interleaved_frame pkt) = length pkt + 4"
  by (simp add: interleaved_frame_def)

lemma consumePkt_sends:
  assumes "tidy s" "svc_ok s" "(k, px) \<in> set (mVideoRequest2ProxyInfo s)" "2 \<le> length pkt" "length pkt \<le> 1596"
  shows "\<exists>buf. consumePktFunction (px_addr px) pkt s =
    Inr (put_proxy k (px\<lparr>sendBuffer := buf\<rparr>) s, map (\<lambda>es. Interleaved es (interleaved_frame pkt)) (playingClients px))"
proof -
  have "length (sendBuffer px) = 1600" using svc_okD(5) [OF assms(2,3)] by (simp add: proxy_ok_def)
  moreover have "list_all (es_alive s) (playingClients px)"
    using tidy_px(2) [OF assms(1,3)] by (simp add: list_all_iff px_members_eq)
  moreover have "take (length pkt + 4) (interleaved_frame pkt @ rest) = interleaved_frame pkt" for rest
    by (simp flip: length_interleaved_frame)
  ultimately show ?thesis
    using assms(4,5) by (auto simp: consumePktFunction_def proxy_at_entry [OF assms(2,3)] Let_def)
qed

text \<open>
  The packets of one producer event, all for one proxy: what a client of it can make of its bytes.
\<close>

lemma callbacks_stream:
  "tidy s \<Longrightarrow> svc_ok s \<Longrightarrow> (k, px) \<in> set (mVideoRequest2ProxyInfo s) \<Longrightarrow> list_all only_media pouts \<Longrightarrow>
   \<forall>(cb, pkt) \<in> set (pkts_of pouts). cb = px_addr px \<and> 2 \<le> length pkt \<and> length pkt \<le> 1596 \<Longrightarrow>
   \<exists>s' outs. callbacks pouts s = Inr (s', outs) \<and>
     (\<forall>es. if es \<in> set (playingClients px)
           then deframe (client_bytes es outs) = Some (map (\<lambda>(_, pkt). (interleaved_channel pkt, pkt)) (pkts_of pouts))
           else client_bytes es outs = []) \<and>
     mpRtpProducer s' = mpRtpProducer s \<and> (\<exists>buf. (k, px\<lparr>sendBuffer := buf\<rparr>) \<in> set (mVideoRequest2ProxyInfo s'))"
proof (induction pouts arbitrary: s px)
  case Nil
  then have "\<exists>buf. (k, px\<lparr>sendBuffer := buf\<rparr>) \<in> set (mVideoRequest2ProxyInfo s)"
    by (intro exI [of _ "sendBuffer px"]) simp
  then show ?case by simp
next
  case (Cons out pouts)
  show ?case
  proof (cases "\<exists>cb pkt. out = Pkt cb pkt")
    case True
    then obtain cb pkt where out: "out = Pkt cb pkt" by blast
    with Cons.prems(5) have pkt: "cb = px_addr px" "2 \<le> length pkt" "length pkt \<le> 1596" by auto
    from consumePkt_sends [OF Cons.prems(1,2,3) pkt(2,3)] obtain buf where
      c: "consumePktFunction (px_addr px) pkt s = Inr (put_proxy k (px\<lparr>sendBuffer := buf\<rparr>) s,
        map (\<lambda>es. Interleaved es (interleaved_frame pkt)) (playingClients px))" by blast
    obtain s' outs buf' where r: "callbacks pouts (put_proxy k (px\<lparr>sendBuffer := buf\<rparr>) s) = Inr (s', outs)"
      "\<forall>es. if es \<in> set (playingClients px)
           then deframe (client_bytes es outs) = Some (map (\<lambda>(_, pkt). (interleaved_channel pkt, pkt)) (pkts_of pouts))
           else client_bytes es outs = []"
      "mpRtpProducer s' = mpRtpProducer s" "(k, px\<lparr>sendBuffer := buf'\<rparr>) \<in> set (mVideoRequest2ProxyInfo s')"
      using Cons.IH [OF consumePkt_tidy [OF c Cons.prems(1,2)] consumePkt_ok [OF c Cons.prems(2)]
          entry_put [OF Cons.prems(2,3)]] Cons.prems(4,5) out by auto
    have "distinct (playingClients px)"
      using svc_okD(5) [OF Cons.prems(2,3)] by (simp add: proxy_ok_def pset_ok_def strict_sorted_iff)
    with r(1-3) show ?thesis
      using pkt(3) r(4) by (auto simp: out pkt(1) c client_bytes_append client_bytes_once deframe_frame)
  next
    case False
    then obtain c n where out: "out = Inc c n" using Cons.prems(4) by (cases out) auto
    from Cons.IH [OF Cons.prems(1-3)] Cons.prems(4,5) show ?thesis by (auto simp: out)
  qed
qed

text \<open>The encoder's packets for a datagram, and that they all fit.\<close>

definition encoded :: "(bytes \<Rightarrow> (bytes \<times> nat) list) \<Rightarrow> (bytes \<Rightarrow> nat \<Rightarrow> bytes list) \<Rightarrow> nat rtp_ctx \<Rightarrow> bytes \<Rightarrow> bytes list" where
  "encoded demux enc ctx dgram = concat (map (\<lambda>(unit, ts). enc (framed ctx unit) ts) (demux dgram))"

definition all_fit :: "(bytes \<Rightarrow> (bytes \<times> nat) list) \<Rightarrow> (bytes \<Rightarrow> nat \<Rightarrow> bytes list) \<Rightarrow> nat rtp_ctx \<Rightarrow> bytes \<Rightarrow> bool" where
  "all_fit demux enc ctx dgram \<longleftrightarrow> (\<forall>(unit, ts) \<in> set (demux dgram). fits ctx unit \<and>
     (\<forall>pkt \<in> set (enc (framed ctx unit) ts). 2 \<le> length pkt \<and> length pkt \<le> 1596))"

lemma datagram_stream:
  assumes "tidy s" "svc_ok s" "(k, px) \<in> set (mVideoRequest2ProxyInfo s)"
    "lock_ctx i (mpRtpProducer s) = Some ctx" "demuxer ctx" "consumePktFunc ctx = px_addr px"
    "all_fit demux enc ctx dgram"
  shows "\<exists>pouts s' outs. on_peer_packet demux enc i dgram (mpRtpProducer s) = Inr pouts \<and>
    callbacks pouts s = Inr (s', outs) \<and>
    (\<forall>es. if es \<in> set (playingClients px)
          then deframe (client_bytes es outs) = Some (map (\<lambda>pkt. (interleaved_channel pkt, pkt)) (encoded demux enc ctx dgram))
          else client_bytes es outs = []) \<and>
    mpRtpProducer s' = mpRtpProducer s \<and> (\<exists>buf. (k, px\<lparr>sendBuffer := buf\<rparr>) \<in> set (mVideoRequest2ProxyInfo s'))"
proof -
  let ?pkts = "concat (map (\<lambda>u. enc (framed ctx (fst u)) (snd u)) (demux dgram))"
  have "\<forall>u \<in> set (demux dgram). unit_ok enc ctx u"
    using assms(7) by (fastforce simp: unit_ok_def all_fit_def)
  then obtain outs where outs: "demuxed_units enc ctx (demux dgram) = Inr outs" "list_all only_media outs"
    "pkts_of outs = map (Pair (consumePktFunc ctx)) ?pkts"
    using demuxed_units_cases [of "demux dgram" enc ctx] by auto
  let ?pouts = "Inc (pDemuxCounter ctx) (length dgram) # outs"
  have "on_peer_packet demux enc i dgram (mpRtpProducer s) = Inr ?pouts"
    using outs(1) assms(4,5) by (simp add: on_peer_packet_def)
  moreover have small: "\<forall>(cb, pkt) \<in> set (pkts_of ?pouts). cb = px_addr px \<and> 2 \<le> length pkt \<and> length pkt \<le> 1596"
    using assms(6,7) outs(3) by (fastforce simp: all_fit_def)
  have media: "list_all only_media ?pouts" using outs(2) by simp
  have same: "map (\<lambda>(_, pkt). (interleaved_channel pkt, pkt)) (pkts_of ?pouts) =
      map (\<lambda>pkt. (interleaved_channel pkt, pkt)) (encoded demux enc ctx dgram)"
    by (simp add: outs(3) case_prod_unfold encoded_def)
  from callbacks_stream [OF assms(1-3) media small, unfolded same] show ?thesis
    using calculation by blast
qed

text \<open>
  A packet of a camera, on its way through the service. If the depacketizer's payloads fit the
  buffer and the encoder's packets have 2 to 1596 bytes, every client that plays the camera can
  take the bytes it is sent apart into exactly the encoder's packets, in order, each on its
  channel, and a client that does not play it is sent nothing.
\<close>

theorem camera_to_client:
  assumes "tidy s" "svc_ok s" "(k, px) \<in> set (mVideoRequest2ProxyInfo s)"
    "lock_ctx i (mpRtpProducer s) = Some ctx" "demuxer ctx" "consumePktFunc ctx = px_addr px"
    "\<forall>(unit, ts) \<in> set (demux dgram). fits ctx unit \<and>
       (\<forall>pkt \<in> set (enc (framed ctx unit) ts). 2 \<le> length pkt \<and> length pkt \<le> 1596)"
  shows "\<exists>pouts s' outs. on_peer_packet demux enc i dgram (mpRtpProducer s) = Inr pouts \<and>
    callbacks pouts s = Inr (s', outs) \<and>
    (\<forall>es. if es \<in> set (playingClients px)
          then deframe (client_bytes es outs) = Some (map (\<lambda>pkt. (interleaved_channel pkt, pkt))
                 (concat (map (\<lambda>(unit, ts). enc (framed ctx unit) ts) (demux dgram))))
          else client_bytes es outs = [])"
  using datagram_stream [OF assms(1-6), of demux enc dgram] assms(7)
  unfolding all_fit_def encoded_def by blast

theorem camera_to_client_witness:
  "\<exists>pouts s' outs. on_peer_packet (\<lambda>b. [(drop 1 b, 9)]) (\<lambda>b t. [take 3 b, drop 3 b]) 0 [128, 65, 66]
      (mpRtpProducer demo_playing) = Inr pouts \<and> callbacks pouts demo_playing = Inr (s', outs) \<and>
    deframe (client_bytes 0 outs) = Some [(0, [0, 0, 1]), (0, [65, 66])] \<and> client_bytes 8 outs = []"
proof -
  let ?px = "demo_px\<lparr>playingClients := [0], px_registered := True, sourceSdp := demo_sdp\<rparr>"
  let ?ctx = "demo_cam_ctx\<lparr>packet := True, payloadBuf := Some 4194304, inviteId := ''inv1'', demuxer := True,
    payloadEncoder := True, rtp := True\<rparr>"
  have px: "(demo_camera, ?px) \<in> set (mVideoRequest2ProxyInfo demo_playing)"
    and ctx: "lock_ctx 0 (mpRtpProducer demo_playing) = Some ?ctx"
    by (simp_all add: demo_playing_def demo_ready_def lock_ctx_def)
  have rest: "demuxer ?ctx" "consumePktFunc ?ctx = px_addr ?px"
    "\<forall>(unit, ts) \<in> set ((\<lambda>b. [(drop 1 b, 9 :: nat)]) [128, 65, 66]). fits ?ctx unit \<and>
       (\<forall>pkt \<in> set ((\<lambda>b t. [take 3 b, drop 3 b]) (framed ?ctx unit) ts). 2 \<le> length pkt \<and> length pkt \<le> 1596)"
    by (simp_all add: demo_px_def ProxyInfo_def fits_def framed_def)
  from camera_to_client [OF demo_playing_ok(2,1) px ctx rest(1,2), of "\<lambda>b. [(drop 1 b, 9)]" "[128, 65, 66]"
      "\<lambda>b t. [take 3 b, drop 3 b]", OF rest(3)] obtain pouts s' outs where
    "on_peer_packet (\<lambda>b. [(drop 1 b, 9)]) (\<lambda>b t. [take 3 b, drop 3 b]) 0 [128, 65, 66] (mpRtpProducer demo_playing) = Inr pouts"
    "callbacks pouts demo_playing = Inr (s', outs)"
    "\<forall>es. if es \<in> {0}
          then deframe (client_bytes es outs) = Some [(interleaved_channel [0, 0, 1], [0, 0, 1]), (interleaved_channel [65, 66], [65, 66])]
          else client_bytes es outs = []"
    by (auto simp: framed_def)
  moreover have "interleaved_channel [0, 0, 1] = 0" "interleaved_channel [65, 66] = 0"
    by (simp_all add: interleaved_channel_def)
  ultimately show ?thesis by (auto split: if_splits)
qed

section \<open>A client that leaves\<close>

text \<open>The clients that keep a proxy.\<close>

definition watchers :: "proxy_info \<Rightarrow> nat set" where
  "watchers px = set (waitingSdpClients px) \<union> set (beforePlayClients px) \<union> set (playingClients px)"

lemma find_client_tidy:
  assumes "tidy s" "svc_ok s" "(k, px) \<in> set (mVideoRequest2ProxyInfo s)" "es \<in> px_members px"
  shows "\<exists>px'. find_client es (mVideoRequest2ProxyInfo s) = Some (k, px') \<and> drop_client es px = Some px'"
proof (cases "find_client es (mVideoRequest2ProxyInfo s)")
  case None
  from find_client_None [OF this assms(3)] assms(4) show ?thesis by (auto simp: px_members_def)
next
  case (Some r)
  obtain k' px' where r: "r = (k', px')" by force
  with Some obtain px1 where px1: "(k', px1) \<in> set (mVideoRequest2ProxyInfo s)" "drop_client es px1 = Some px'"
    using find_client_SomeD by blast
  have "es \<in> px_members px1" using px1(2) by (auto simp: drop_client_def px_members_eq split: if_splits)
  then obtain ph ph' where "(k, ph) \<in> places s es" "(k', ph') \<in> places s es"
    using assms(3,4) px1(1) by (auto simp: px_members_def places_def)
  with assms(1) have "k' = k" unfolding tidy_def by blast
  then have "px1 = px"
    using svc_ok_entry [OF assms(2,3)] svc_ok_entry [OF assms(2) px1(1)] by simp
  with Some r px1(2) \<open>k' = k\<close> show ?thesis by simp
qed

lemma drop_client_watchers:
  assumes "drop_client es px = Some px'" "px_disjoint px"
  shows "watchers px' = watchers px - {es}"
  using assms by (auto simp: drop_client_def watchers_def px_disjoint_iff split: if_splits)

lemma UnregisterVideo_outs:
  assumes "UnregisterVideo video p = Inr (p', pouts)"
  shows "callbacks pouts s = Inr (s, map Producer pouts)"
  using assms by (auto simp: UnregisterVideo_def res_bind_Inr_iff split: if_splits option.splits)




end
