(* ===== verification/Rtsp_Session.thy ===== *)
theory Rtsp_Session
  imports Rtsp_Delivery
begin

text \<open>
  What the service promises one client, as an automaton of that client alone: connected, known for
  one video in one of four phases, gone for good; with the replies and frames it may get in each.
  The service, with all its clients, proxies, callbacks and the producer behind them, is shown to
  implement that automaton for every client at once, as long as clients are polite.
\<close>

section \<open>Runs and refinement\<close>

inductive run_of :: "('s \<Rightarrow> 'e list \<Rightarrow> 's \<Rightarrow> bool) \<Rightarrow> 's \<Rightarrow> 'e list \<Rightarrow> 's \<Rightarrow> bool" for step where
  halt: "run_of step s [] s"
| go: "run_of step s tr s' \<Longrightarrow> step s' es s'' \<Longrightarrow> run_of step s (tr @ es) s''"

lemma run_of_trans: "run_of step t tr' u \<Longrightarrow> run_of step s tr t \<Longrightarrow> run_of step s (tr @ tr') u"
proof (induction rule: run_of.induct)
  case (go t tr' t' es t'')
  show ?case
    using run_of.go [OF go.IH [OF go.prems] go.hyps(2)] by simp
qed simp

lemma run_of_one: "step s es s' \<Longrightarrow> run_of step s es s'"
  using run_of.go [OF run_of.halt] by fastforce

text \<open>
  A machine refines an abstract one if each of its steps, from a state with the invariant, keeps the
  invariant and is a run of the abstract machine between the abstracted states, with the part of
  its outputs that the abstract machine is about.
\<close>

locale trace_refinement =
  fixes cstep :: "'c \<Rightarrow> 'e list \<Rightarrow> 'c \<Rightarrow> bool" and inv :: "'c \<Rightarrow> bool" and abst :: "'c \<Rightarrow> 'a"
    and astep :: "'a \<Rightarrow> 'e list \<Rightarrow> 'a \<Rightarrow> bool" and view :: "'e list \<Rightarrow> 'e list"
  assumes keeps: "inv s \<Longrightarrow> cstep s es s' \<Longrightarrow> inv s'"
    and simulates: "inv s \<Longrightarrow> cstep s es s' \<Longrightarrow> run_of astep (abst s) (view es) (abst s')"
    and view_Nil: "view [] = []"
    and view_append: "view (xs @ ys) = view xs @ view ys"
begin

lemma run_keeps: "run_of cstep s tr s' \<Longrightarrow> inv s \<Longrightarrow> inv s'"
  by (induction rule: run_of.induct) (auto intro: keeps)

lemma run_simulates: "run_of cstep s tr s' \<Longrightarrow> inv s \<Longrightarrow> run_of astep (abst s) (view tr) (abst s')"
proof (induction rule: run_of.induct)
  case (halt s)
  show ?case
    by (simp add: view_Nil run_of.halt)
next
  case (go s tr s' es s'')
  show ?case
    unfolding view_append
    by (rule run_of_trans [OF simulates [OF run_keeps [OF go.hyps(1) go.prems] go.hyps(2)] go.IH [OF go.prems]])
qed

end

section \<open>The session of one client\<close>

text \<open>
  \<open>At source phase\<close>: in one set of the proxy of one video. \<open>Connected\<close>: connected and in no set.
  Addresses are given out once, so \<open>Gone\<close> is final; an address may also go to a proxy.
\<close>

datatype session = Unconnected | Connected | At string phase | Gone

inductive session_step :: "nat \<Rightarrow> session \<Rightarrow> svc_out list \<Rightarrow> session \<Rightarrow> bool" for es where
  connect: "session_step es Unconnected [] Connected"
| taken: "session_step es Unconnected [] Gone"
| options: "session_step es Connected [Reply_options es 200] (At v Before_describe)"
| describe: "x \<in> {Connected, At v Before_describe} \<Longrightarrow> session_step es x [] (At v Waiting_sdp)"
| describe_known: "x \<in> {Connected, At v Before_describe} \<Longrightarrow> session_step es x [Reply_describe es 200 sdp] (At v Before_play)"
| described: "session_step es (At v Waiting_sdp) [Reply_describe es 200 sdp] (At v Before_play)"
| lost: "session_step es (At v Before_describe) [] Connected"
| set_up: "x \<in> insert Connected (range (case_prod At)) \<Longrightarrow> session_step es x [Reply_setup es code sess trn] x"
| play: "session_step es (At v Before_play) [Reply_play es 200] (At v Playing)"
| refuse: "x \<in> insert Connected (range (case_prod At)) \<Longrightarrow> session_step es x [Reply_play es 454] x"
| media: "session_step es (At v Playing) [Interleaved es frm] (At v Playing)"
| failed: "session_step es (At v ph) [Close_socket es] (At v ph)"
| leave: "x \<in> insert Connected (range (case_prod At)) \<Longrightarrow> session_step es x [] Gone"

text \<open>The client an output is for.\<close>

fun addressee :: "svc_out \<Rightarrow> nat option" where
  "addressee (Reply_options es n) = Some es"
| "addressee (Reply_describe es n sdp) = Some es"
| "addressee (Reply_setup es n sess trn) = Some es"
| "addressee (Reply_play es n) = Some es"
| "addressee (Interleaved es frm) = Some es"
| "addressee (Close_socket es) = Some es"
| "addressee (Producer out) = None"

definition for_client :: "nat \<Rightarrow> svc_out list \<Rightarrow> svc_out list" where
  "for_client es outs = filter (\<lambda>out. addressee out = Some es) outs"

text \<open>The session of a client in a state of the service.\<close>

definition phase_in :: "nat \<Rightarrow> proxy_info \<Rightarrow> phase option" where
  "phase_in es px = find (\<lambda>ph. es \<in> set (clients_in ph px)) [Before_describe, Waiting_sdp, Before_play, Playing]"

fun located :: "nat \<Rightarrow> (video_request, proxy_info) omap \<Rightarrow> session" where
  "located es [] = Connected"
| "located es ((k, px) # m) = (case phase_in es px of Some ph \<Rightarrow> At (cmpStr k) ph | None \<Rightarrow> located es m)"

definition session :: "nat \<Rightarrow> rtsp_service \<Rightarrow> session" where
  "session es s =
     (if es_alive s es then located es (mVideoRequest2ProxyInfo s)
      else if es < next_addr s then Gone else Unconnected)"

definition follows :: "rtsp_service \<Rightarrow> svc_out list \<Rightarrow> rtsp_service \<Rightarrow> bool" where
  "follows s outs s' \<longleftrightarrow> (\<forall>es. run_of (session_step es) (session es s) (for_client es outs) (session es s'))"

lemma for_client_simps [simp]:
  "for_client es [] = []" "for_client es (xs @ ys) = for_client es xs @ for_client es ys"
  "for_client es (out # outs) = (if addressee out = Some es then out # for_client es outs else for_client es outs)"
  "for_client es (map Producer pouts) = []"
  by (simp_all add: for_client_def filter_empty_conv)

lemma for_client_each:
  assumes "\<And>c. addressee (f c) = Some c" "distinct cs"
  shows "for_client es (map f cs) = (if es \<in> set cs then [f es] else [])"
  using assms(2) by (induction cs) (auto simp: assms(1))

lemma follows_refl: "(\<And>es. session es s' = session es s) \<Longrightarrow> follows s [] s'"
  by (simp add: follows_def run_of.halt)

lemma follows_trans: "follows s outs s1 \<Longrightarrow> follows s1 outs' s' \<Longrightarrow> follows s (outs @ outs') s'"
  unfolding follows_def for_client_simps by (blast intro: run_of_trans)

lemma followsI:
  assumes "\<And>es. session_step es (session es s) (for_client es outs) (session es s') \<or>
    session es s' = session es s \<and> for_client es outs = []"
  shows "follows s outs s'"
  unfolding follows_def by (metis assms run_of_one run_of.halt)

section \<open>Sessions and the client sets\<close>

lemma phase_in_SomeD: "phase_in es px = Some ph \<Longrightarrow> es \<in> set (clients_in ph px)"
  by (auto simp: phase_in_def split: if_splits)

lemma phase_in_NoneD: "phase_in es px = None \<Longrightarrow> es \<notin> set (clients_in ph px)"
  by (cases ph) (auto simp: phase_in_def split: if_splits)

lemma located_cases:
  "(located es m = Connected \<and> (\<forall>(k, px) \<in> set m. \<forall>ph. es \<notin> set (clients_in ph px))) \<or>
   (\<exists>k px ph. (k, px) \<in> set m \<and> es \<in> set (clients_in ph px) \<and> located es m = At (cmpStr k) ph)"
proof (induction m)
  case (Cons e m)
  obtain k px where e: "e = (k, px)" by force
  show ?case
  proof (cases "phase_in es px")
    case None
    with Cons phase_in_NoneD [OF None] show ?thesis by (auto simp: e)
  next
    case (Some ph)
    with phase_in_SomeD [OF Some] show ?thesis by (fastforce simp: e)
  qed
qed simp

lemma session_nowhere:
  "places s es = {} \<Longrightarrow>
     session es s = (if es_alive s es then Connected else if es < next_addr s then Gone else Unconnected)"
  using located_cases [of es "mVideoRequest2ProxyInfo s"] by (auto simp: session_def places_def)

lemma session_place:
  assumes "tidy s" "(k, ph) \<in> places s es"
  shows "session es s = At (cmpStr k) ph"
proof -
  have "es_alive s es" using assms unfolding tidy_def by blast
  moreover obtain k' ph' where "(k', ph') \<in> places s es" "located es (mVideoRequest2ProxyInfo s) = At (cmpStr k') ph'"
    using located_cases [of es "mVideoRequest2ProxyInfo s"] assms(2) unfolding places_def by blast
  moreover from this(1) assms have "(k', ph') = (k, ph)" unfolding tidy_def by blast
  ultimately show ?thesis by (simp add: session_def)
qed

lemma session_eq:
  assumes "tidy s" "tidy s'" "places s' es = places s es" "es_alive s' es = es_alive s es"
    "es < next_addr s' \<longleftrightarrow> es < next_addr s"
  shows "session es s' = session es s"
proof (cases "places s es = {}")
  case True
  with assms show ?thesis by (simp add: session_nowhere)
next
  case False
  then obtain k ph where "(k, ph) \<in> places s es" by force
  with assms(1-3) show ?thesis by (simp add: session_place)
qed

lemma session_entry:
  assumes "tidy s" "(k, px) \<in> set (mVideoRequest2ProxyInfo s)" "es \<in> set (clients_in ph px)"
  shows "session es s = At (cmpStr k) ph"
  by (rule session_place [OF assms(1)]) (use assms(2,3) in \<open>auto simp: places_def\<close>)

lemma es_alive_put [simp]: "es_alive (put_proxy video px s) es = es_alive s es"
  by (simp add: es_alive_def)

lemma next_addr_put [simp]: "next_addr (put_proxy video px s) = next_addr s"
  by (simp add: put_proxy_def)

text \<open>When one proxy changes: its members have their place there, who was dropped is connected only.\<close>

lemma session_put:
  assumes "tidy s" "svc_ok s" "omap_find VideoRequest_less video (mVideoRequest2ProxyInfo s) = Some px0"
    "tidy (put_proxy video px s)"
  shows "es \<in> set (clients_in ph px) \<Longrightarrow> session es (put_proxy video px s) = At (cmpStr video) ph"
    "es \<in> set (clients_in ph px0) \<Longrightarrow> session es s = At (cmpStr video) ph"
    "es \<notin> px_members px \<Longrightarrow> es \<in> px_members px0 \<Longrightarrow> session es (put_proxy video px s) = Connected"
    "(\<And>ph. es \<in> set (clients_in ph px) \<longleftrightarrow> es \<in> set (clients_in ph px0)) \<Longrightarrow>
       session es (put_proxy video px s) = session es s"
proof -
  obtain k0 where k0: "same_key VideoRequest_less video k0" "(k0, px0) \<in> set (mVideoRequest2ProxyInfo s)"
    and pl: "\<And>es. places (put_proxy video px s) es =
       {a \<in> places s es. fst a \<noteq> k0} \<union> {(k0, ph) | ph. es \<in> set (clients_in ph px)}"
    by (rule places_put [OF assms(2,3)]) blast
  have key: "cmpStr k0 = cmpStr video" using k0(1) by (simp add: same_key_cmpStr)
  show "session es (put_proxy video px s) = At (cmpStr video) ph" if "es \<in> set (clients_in ph px)"
    using session_place [OF assms(4), of k0 ph es] that by (simp add: pl key)
  show "session es s = At (cmpStr video) ph" if "es \<in> set (clients_in ph px0)"
    using session_entry [OF assms(1) k0(2) that] by (simp add: key)
  show "session es (put_proxy video px s) = Connected"
    if out: "es \<notin> px_members px" and was: "es \<in> px_members px0"
  proof -
    obtain ph where "(k0, ph) \<in> places s es" using was k0(2) by (auto simp: px_members_def places_def)
    then have "a = (k0, ph)" if "a \<in> places s es" for a using that assms(1) unfolding tidy_def by blast
    then have "{a \<in> places s es. fst a \<noteq> k0} = {}" by auto
    moreover have "{(k0, ph) | ph. es \<in> set (clients_in ph px)} = {}" using out unfolding px_members_def by blast
    ultimately have "places (put_proxy video px s) es = {}" unfolding pl by simp
    then show ?thesis
      using tidy_px(2) [OF assms(1) k0(2) was] by (simp add: session_nowhere)
  qed
  show "session es (put_proxy video px s) = session es s"
    if same: "\<And>ph. es \<in> set (clients_in ph px) \<longleftrightarrow> es \<in> set (clients_in ph px0)"
  proof (rule session_eq [OF assms(1,4)])
    have "px' = px0" if "(k0, px') \<in> set (mVideoRequest2ProxyInfo s)" for px'
      using svc_ok_entry [OF assms(2) that] svc_ok_entry [OF assms(2) k0(2)] by simp
    then have mem: "(k0, ph) \<in> places s es \<longleftrightarrow> es \<in> set (clients_in ph px0)" for ph
      using k0(2) unfolding places_def by blast
    then show "places (put_proxy video px s) es = places s es"
      unfolding pl same mem [symmetric] by auto
  qed simp_all
qed

section \<open>The callbacks\<close>

lemma pset_distinct: "pset_ok xs \<Longrightarrow> distinct xs"
  by (simp add: pset_ok_def)

lemma processSdp_follows:
  assumes "processSdpFunction a sdp s = Inr (s', outs)" "tidy s" "svc_ok s"
  shows "follows s outs s'"
proof -
  from assms(1) obtain video px where px: "proxy_at a s = Some (video, px)"
    and s': "s' = put_proxy video (px\<lparr>px_registered := True,
        beforePlayClients := fold pset_insert (waitingSdpClients px) (beforePlayClients px),
        waitingSdpClients := [], sourceSdp := sdp\<rparr>) s" (is "_ = put_proxy _ ?px _")
    and outs: "outs = map (\<lambda>es. Reply_describe es 200 sdp) (waitingSdpClients px)"
    by (auto simp: processSdpFunction_def split: option.splits if_splits)
  note mem = proxy_at_SomeD(1) [OF px]
  note put = session_put [OF assms(2,3) svc_ok_entry [OF assms(3) mem],
      OF processSdp_tidy [OF assms, unfolded s'], folded s']
  have "distinct (waitingSdpClients px)"
    using svc_okD(5) [OF assms(3) mem] by (simp add: proxy_ok_def pset_distinct)
  then have for_es: "for_client es outs = (if es \<in> set (waitingSdpClients px) then [Reply_describe es 200 sdp] else [])" for es
    unfolding outs by (intro for_client_each) simp_all
  show ?thesis
  proof (rule followsI)
    fix es
    show "session_step es (session es s) (for_client es outs) (session es s') \<or>
      session es s' = session es s \<and> for_client es outs = []"
    proof (cases "es \<in> set (waitingSdpClients px)")
      case True
      then have "session es s = At (cmpStr video) Waiting_sdp" "session es s' = At (cmpStr video) Before_play"
        using put(2) [of es Waiting_sdp] put(1) [of es Before_play] by simp_all
      then show ?thesis by (simp add: for_es True session_step.described)
    next
      case False
      then have "es \<in> set (clients_in ph ?px) \<longleftrightarrow> es \<in> set (clients_in ph px)" for ph by (cases ph) auto
      then show ?thesis using put(4) [of es] False by (simp add: for_es)
    qed
  qed
qed

lemma consumePkt_follows:
  assumes "consumePktFunction a pkt s = Inr (s', outs)" "tidy s" "svc_ok s"
  shows "follows s outs s'"
proof -
  let ?buf = "\<lambda>px. interleaved_frame pkt @ drop (length pkt + 4) (sendBuffer px)"
  from assms(1) obtain video px where px: "proxy_at a s = Some (video, px)"
    and s': "s' = put_proxy video (px\<lparr>sendBuffer := ?buf px\<rparr>) s"
    and outs: "outs = map (\<lambda>es. Interleaved es (take (length pkt + 4) (?buf px))) (playingClients px)"
    by (auto simp: consumePktFunction_def Let_def simp del: take_append split: option.splits if_splits)
  define frm where "frm = take (length pkt + 4) (?buf px)"
  note mem = proxy_at_SomeD(1) [OF px]
  have same: "es \<in> set (clients_in ph (px\<lparr>sendBuffer := ?buf px\<rparr>)) \<longleftrightarrow> es \<in> set (clients_in ph px)" for es ph
    by (cases ph) simp_all
  have eq: "session es s' = session es s" for es
    unfolding s' by (rule session_put(4) [OF assms(2,3) svc_ok_entry [OF assms(3) mem] consumePkt_tidy [OF assms, unfolded s']])
      (rule same)
  have "distinct (playingClients px)"
    using svc_okD(5) [OF assms(3) mem] by (simp add: proxy_ok_def pset_distinct)
  then have for_es: "for_client es outs = (if es \<in> set (playingClients px) then [Interleaved es frm] else [])" for es
    unfolding outs frm_def [symmetric] by (intro for_client_each) simp_all
  show ?thesis
    by (rule followsI) (use session_entry [OF assms(2) mem, of _ Playing] in \<open>auto simp: for_es eq intro: session_step.media\<close>)
qed

lemma processError_follows:
  assumes "processErrorFunction a ec s = Inr (s', outs)" "tidy s" "svc_ok s"
  shows "follows s outs s'"
proof -
  from assms(1) obtain video px where px: "proxy_at a s = Some (video, px)" and s': "s' = s"
    and outs: "outs = map Close_socket
      (beforeDescribeClients px @ waitingSdpClients px @ beforePlayClients px @ playingClients px)" (is "_ = map _ ?cs")
    by (auto simp: processErrorFunction_def Let_def split: option.splits if_splits)
  note mem = proxy_at_SomeD(1) [OF px]
  have "distinct ?cs"
    using svc_okD(5) [OF assms(3) mem] tidy_px(1) [OF assms(2) mem]
    by (auto simp: proxy_ok_def px_disjoint_iff pset_distinct)
  then have for_es: "for_client es outs = (if es \<in> set ?cs then [Close_socket es] else [])" for es
    unfolding outs by (intro for_client_each) simp_all
  have "\<exists>ph. es \<in> set (clients_in ph px)" if "es \<in> set ?cs" for es
    using that by (auto simp: ex_phase)
  then have at: "\<exists>ph. session es s = At (cmpStr video) ph" if "es \<in> set ?cs" for es
    using that session_entry [OF assms(2) mem] by blast
  show ?thesis
    unfolding s'
  proof (rule followsI)
    show "session_step es (session es s) (for_client es outs) (session es s) \<or>
      session es s = session es s \<and> for_client es outs = []" for es
      using at [of es] session_step.failed [of es] unfolding for_es by auto
  qed
qed

lemma callback_follows:
  assumes "callback out s = Inr (s', outs)" "tidy s" "svc_ok s"
  shows "follows s outs s'"
  using assms by (cases out) (auto intro: processSdp_follows consumePkt_follows processError_follows followsI)

lemma callbacks_follow: "callbacks pouts s = Inr (s', outs) \<Longrightarrow> tidy s \<Longrightarrow> svc_ok s \<Longrightarrow> follows s outs s'"
proof (induction pouts arbitrary: s outs)
  case (Cons out pouts)
  from Cons.prems(1) obtain s1 o1 o2 where 1: "callback out s = Inr (s1, o1)" "callbacks pouts s1 = Inr (s', o2)"
    and outs: "outs = o1 @ o2"
    by (auto simp: res_bind_Inr_iff)
  show ?case
    unfolding outs using callback_follows [OF 1(1) Cons.prems(2,3)] Cons.IH [OF 1(2)]
      callback_tidy [OF 1(1) Cons.prems(2,3)] callback_ok [OF 1(1) Cons.prems(3)] by (blast intro: follows_trans)
qed (simp add: follows_refl)

lemma session_producer [simp]: "session es (s\<lparr>mpRtpProducer := p\<rparr>) = session es s"
  by (simp add: session_def es_alive_def)

lemma follows_producer [simp]: "follows (s\<lparr>mpRtpProducer := p\<rparr>) outs s' = follows s outs s'"
  by (simp add: follows_def)

lemma with_producer_follows:
  assumes "with_producer f s = Inr (s', outs)" "tidy s" "svc_ok s"
    "\<And>p' pouts. f (mpRtpProducer s) = Inr (p', pouts) \<Longrightarrow> prod_ok p'"
  shows "follows s outs s'"
proof -
  from assms(1) obtain p pouts where "f (mpRtpProducer s) = Inr (p, pouts)"
    "callbacks pouts (s\<lparr>mpRtpProducer := p\<rparr>) = Inr (s', outs)"
    by (auto simp: with_producer_def res_bind_Inr_iff)
  then show ?thesis
    using callbacks_follow [of pouts "s\<lparr>mpRtpProducer := p\<rparr>"] svc_ok_producer [OF assms(3)] assms(2,4) by simp
qed

section \<open>The handlers\<close>

lemma follows_next: "follows s [] (s\<lparr>next_addr := Suc (next_addr s)\<rparr>)"
proof (rule followsI)
  fix es
  show "session_step es (session es s) (for_client es []) (session es (s\<lparr>next_addr := Suc (next_addr s)\<rparr>)) \<or>
    session es (s\<lparr>next_addr := Suc (next_addr s)\<rparr>) = session es s \<and> for_client es [] = []"
    by (cases "es_alive s es"; cases "es = next_addr s")
      (auto simp: session_def es_alive_def intro: session_step.taken)
qed

lemma OnOptions_follows:
  assumes "OnOptions mem es uri s = Inr (ret, s', outs)" "tidy s" "svc_ok s"
    "es_alive s es" "places s es = {}"
  shows "follows s outs s'"
proof (cases "omap_find VideoRequest_less (VideoRequest_url uri) (mVideoRequest2ProxyInfo s)")
  case None
  let ?video = "VideoRequest_url uri" and ?px = "(ProxyInfo (next_addr s) mem)\<lparr>beforeDescribeClients := [es]\<rparr>"
  let ?s = "put_proxy ?video ?px s"
  have s': "s' = ?s\<lparr>next_addr := Suc (next_addr ?s)\<rparr>" "outs = [Reply_options es 200] @ []"
    using assms(1) None by (auto simp: OnOptions_def Let_def)
  have t: "tidy ?s"
    using OnOptions_tidy [OF assms] unfolding s' by simp
  note set = vr.set_set_absent [OF None svc_okD(1) [OF assms(3)], of ?px]
  have "session es ?s = At (cmpStr ?video) Before_describe"
    by (rule session_entry [OF t, of _ ?px]) (simp_all add: put_proxy_def set)
  moreover have "session e ?s = session e s" if "e \<noteq> es" for e
  proof (rule session_eq [OF assms(2) t])
    have "e \<notin> set (clients_in ph ?px)" for ph using that by (cases ph) (simp_all add: ProxyInfo_def)
    then show "places ?s e = places s e" by (auto simp: places_def put_proxy_def set)
  qed simp_all
  moreover have "session es s = Connected" using assms(4,5) by (simp add: session_nowhere)
  ultimately have "follows s [Reply_options es 200] ?s"
    by (intro followsI) (auto intro: session_step.options)
  then show ?thesis
    unfolding s' by (rule follows_trans) (rule follows_next)
next
  case (Some px)
  let ?px = "px\<lparr>beforeDescribeClients := pset_insert es (beforeDescribeClients px)\<rparr>"
  have s': "s' = put_proxy (VideoRequest_url uri) ?px s" "outs = [Reply_options es 200]"
    using assms(1) Some by (auto simp: OnOptions_def Let_def)
  note put = session_put [OF assms(2,3) Some, OF OnOptions_tidy [OF assms, unfolded s'], folded s'(1)]
  have "session es s' = At (cmpStr (VideoRequest_url uri)) Before_describe"
    by (rule put(1)) simp
  moreover have "session e s' = session e s" if "e \<noteq> es" for e
  proof (rule put(4))
    show "e \<in> set (clients_in ph ?px) \<longleftrightarrow> e \<in> set (clients_in ph px)" for ph using that by (cases ph) auto
  qed
  moreover have "session es s = Connected" using assms(4,5) by (simp add: session_nowhere)
  ultimately show ?thesis
    unfolding s'(2) by (intro followsI) (auto intro: session_step.options)
qed


lemma polite_session:
  assumes "tidy s" "es_alive s es"
    "\<forall>(k, ph) \<in> places s es. ph = Before_describe \<and> same_key VideoRequest_less video k"
  shows "session es s \<in> {Connected, At (cmpStr video) Before_describe}"
proof (cases "places s es = {}")
  case True
  with assms(2) show ?thesis by (simp add: session_nowhere)
next
  case False
  then obtain k ph where "(k, ph) \<in> places s es" by force
  with assms(3) session_place [OF assms(1) this] show ?thesis by (auto simp: same_key_cmpStr)
qed

lemma OnDescribe_follows:
  assumes "OnDescribe mm mem es uri s = Inr (ret, s', outs)" "tidy s" "svc_ok s" "es_alive s es"
    "\<forall>(k, ph) \<in> places s es. ph = Before_describe \<and> same_key VideoRequest_less (VideoRequest_url uri) k"
  shows "follows s outs s'"
proof (cases "omap_find VideoRequest_less (VideoRequest_url uri) (mVideoRequest2ProxyInfo s)")
  case None
  with assms(1) show ?thesis by (auto simp: OnDescribe_def intro: follows_refl)
next
  case (Some px)
  let ?v = "VideoRequest_url uri"
  obtain k where k: "(k, px) \<in> set (mVideoRequest2ProxyInfo s)"
    by (rule vr.split_present [OF Some]) (auto simp: in_set_conv_decomp)
  note polite = polite_describe [OF assms(3) Some assms(5)]
  note facts = tidy_px(1) [OF assms(2) k] polite assms(4)
  note at = polite_session [OF assms(2,4,5)]
  note put = session_put [OF assms(2,3) Some]
  let ?px = "px\<lparr>beforeDescribeClients := pset_erase es (beforeDescribeClients px)\<rparr>"
  let ?wait = "?px\<lparr>waitingSdpClients := [es]\<rparr>" and ?play = "?px\<lparr>beforePlayClients := pset_insert es (beforePlayClients px)\<rparr>"
  have t: "tidy (put_proxy ?v ?px s)" "tidy (put_proxy ?v ?play s)" "waitingSdpClients px = [] \<Longrightarrow> tidy (put_proxy ?v ?wait s)"
    by (rule tidy_put [OF assms(2,3) Some], use facts in \<open>auto simp: px_disjoint_iff px_members_eq\<close>)+
  have other: "e \<in> set (clients_in ph ?px) \<longleftrightarrow> e \<in> set (clients_in ph px)"
    "e \<in> set (clients_in ph ?play) \<longleftrightarrow> e \<in> set (clients_in ph px)"
    "waitingSdpClients px = [] \<Longrightarrow> e \<in> set (clients_in ph ?wait) \<longleftrightarrow> e \<in> set (clients_in ph px)" if "e \<noteq> es" for e ph
    using that by (cases ph; simp)+
  consider "sourceSdp px = []" "waitingSdpClients px = []"
      "with_producer (RegisterVideo mm mem ?v (px_addr px) (px_addr px) (px_addr px)) (put_proxy ?v ?wait s) = Inr (s', outs)"
    | "s' = put_proxy ?v ?play s" "outs = [Reply_describe es 200 (sourceSdp px)]"
    | "s' = put_proxy ?v ?px s" "outs = []"
    using assms(1) Some by (auto simp: OnDescribe_def Let_def res_bind_Inr_iff split: if_splits)
  then show ?thesis
  proof cases
    case 1
    have ok: "svc_ok (put_proxy ?v ?wait s)"
      by (rule svc_ok_put [OF assms(3) Some]) (use svc_ok_find [OF assms(3) Some] 1(1) in \<open>auto simp: proxy_ok_def\<close>)
    have "session es (put_proxy ?v ?wait s) = At (cmpStr ?v) Waiting_sdp"
      by (rule put(1) [OF t(3) [OF 1(2)]]) simp
    moreover have "session e (put_proxy ?v ?wait s) = session e s" if "e \<noteq> es" for e
      by (rule put(4) [OF t(3) [OF 1(2)]]) (rule other(3) [OF that 1(2)])
    ultimately have "follows s [] (put_proxy ?v ?wait s)"
      using session_step.describe [OF at] by (intro followsI) (metis for_client_simps(1))
    moreover have "follows (put_proxy ?v ?wait s) outs s'"
      using with_producer_follows [OF 1(3) t(3) [OF 1(2)] ok] RegisterVideo_keeps svc_okD(2) [OF ok] by fastforce
    ultimately show ?thesis using follows_trans by fastforce
  next
    case 2
    have "session es s' = At (cmpStr ?v) Before_play"
      unfolding 2 by (rule put(1) [OF t(2)]) simp
    moreover have "session e s' = session e s" if "e \<noteq> es" for e
      unfolding 2 by (rule put(4) [OF t(2)]) (rule other(2) [OF that])
    ultimately show ?thesis
      unfolding 2(2) using session_step.describe_known [OF at] by (intro followsI) auto
  next
    case 3
    have "session e s' = session e s" if "e \<noteq> es" for e
      unfolding 3 by (rule put(4) [OF t(1)]) (rule other(1) [OF that])
    moreover have "session es s' = session es s \<or> session_step es (session es s) [] (session es s')"
    proof (cases "es \<in> set (beforeDescribeClients px)")
      case True
      have "session es s' = Connected"
        unfolding 3 by (rule put(3) [OF t(1)]) (use polite(1) True in \<open>auto simp: px_members_eq\<close>)
      then show ?thesis
        using put(2) [OF t(1), of es Before_describe] True session_step.lost by simp
    next
      case False
      then have "es \<in> set (clients_in ph ?px) \<longleftrightarrow> es \<in> set (clients_in ph px)" for ph by (cases ph) simp_all
      then show ?thesis unfolding 3 using put(4) [OF t(1)] by blast
    qed
    ultimately show ?thesis unfolding 3(2) by (intro followsI) (metis for_client_simps(1))
  qed
qed

lemma alive_session:
  assumes "es_alive s es"
  shows "session es s \<in> insert Connected (range (case_prod At))"
proof -
  have "At v ph \<in> range (case_prod At)" for v ph using rangeI [of "case_prod At" "(v, ph)"] by simp
  then show ?thesis using located_cases [of es "mVideoRequest2ProxyInfo s"] assms by (auto simp: session_def)
qed

lemma OnPlay_follows:
  assumes "OnPlay es uri s = Inr (ret, s', outs)" "tidy s" "svc_ok s" "es_alive s es"
  shows "follows s outs s'"
proof (cases "omap_find VideoRequest_less (VideoRequest_url uri) (mVideoRequest2ProxyInfo s)")
  case None
  with assms show ?thesis by (auto simp: OnPlay_def intro: follows_refl)
next
  case (Some px)
  let ?v = "VideoRequest_url uri"
  let ?px = "px\<lparr>beforePlayClients := pset_erase es (beforePlayClients px), playingClients := pset_insert es (playingClients px)\<rparr>"
  consider "s' = s" "outs = [Reply_play es 454]" | "es \<in> set (beforePlayClients px)" "s' = put_proxy ?v ?px s" "outs = [Reply_play es 200]"
    using assms(1) Some by (auto simp: OnPlay_def split: if_splits)
  then show ?thesis
  proof cases
    case 1
    show ?thesis unfolding 1 by (rule followsI) (use session_step.refuse [OF alive_session [OF assms(4)]] in auto)
  next
    case 2
    note put = session_put [OF assms(2,3) Some, OF OnPlay_tidy [OF assms(1-3), unfolded 2(2)], folded 2(2)]
    have "session es s = At (cmpStr ?v) Before_play" "session es s' = At (cmpStr ?v) Playing"
      using put(2) [of es Before_play] put(1) [of es Playing] 2(1) by simp_all
    moreover have "session e s' = session e s" if "e \<noteq> es" for e
    proof (rule put(4))
      show "e \<in> set (clients_in ph ?px) \<longleftrightarrow> e \<in> set (clients_in ph px)" for ph using that by (cases ph) auto
    qed
    ultimately show ?thesis unfolding 2(3) by (intro followsI) (auto intro: session_step.play)
  qed
qed

lemma handle_follows:
  assumes "handle mm al es r s = Inr (ret, s', outs)" "tidy s" "svc_ok s" "es_alive s es" "polite s es r"
  shows "follows s outs s'"
proof (cases r)
  case (OPTIONS uri)
  with assms show ?thesis by (auto simp: polite_def intro: OnOptions_follows)
next
  case (DESCRIBE uri)
  with assms show ?thesis by (auto simp: polite_def intro: OnDescribe_follows)
next
  case (SETUP uri sess tr)
  then obtain code p q where s': "s' = s" "outs = [Reply_setup es code p q]"
    using assms(1) by (auto simp: OnSetup_def split: if_splits option.splits)
  show ?thesis unfolding s' by (rule followsI) (use session_step.set_up [OF alive_session [OF assms(4)]] in auto)
next
  case (PLAY uri)
  with assms show ?thesis by (auto intro: OnPlay_follows)
next
  case (OTHER m uri)
  with assms show ?thesis by (auto simp: OnOther_same intro: follows_refl)
qed

lemma handle_all_follow:
  "handle_all mm al es rs s = Inr (s', outs) \<Longrightarrow> polite_all mm al es rs s \<Longrightarrow> tidy s \<Longrightarrow> svc_ok s \<Longrightarrow>
   es_alive s es \<Longrightarrow> follows s outs s'"
proof (induction rs arbitrary: s outs)
  case (Cons r rs)
  from Cons.prems(1) obtain ret s1 o1 o2 where 1: "handle mm al es r s = Inr (ret, s1, o1)"
    "handle_all mm al es rs s1 = Inr (s', o2)" and outs: "outs = o1 @ o2"
    by (auto simp: res_bind_Inr_iff)
  have p: "polite s es r" "polite_all mm al es rs s1" using Cons.prems(2) 1(1) by simp_all
  have "es_alive s1 es" using Cons.prems(5) handle_bev [OF 1(1)] by (simp add: es_alive_def)
  with Cons.IH [OF 1(2) p(2)] handle_tidy [OF 1(1) Cons.prems(3-5) p(1)] handle_ok [OF 1(1) Cons.prems(4)]
  have "follows s1 o2 s'" by blast
  then show ?case unfolding outs by (rule follows_trans [OF handle_follows [OF 1(1) Cons.prems(3-5) p(1)]])
qed (simp add: follows_refl)


section \<open>Connections that come and go\<close>

lemma accept_follows:
  assumes "accept_conn_cb ret bev s = Inr s'" "tidy s" "svc_ok s"
  shows "follows s [] s'"
proof (cases "s' = s")
  case True
  then show ?thesis by (simp add: follows_refl)
next
  case False
  then obtain b where b: "omap_find ptr_less b (mBev2RtspServer s) = None"
    "s' = s\<lparr>mBev2RtspServer := omap_set ptr_less b (next_addr s) (mBev2RtspServer s), next_addr := Suc (next_addr s)\<rparr>"
    using assms(1) by (auto simp: accept_conn_cb_def split: if_splits option.splits)
  have alive: "es_alive s' es \<longleftrightarrow> es = next_addr s \<or> es_alive s es" for es
    by (auto simp: b(2) es_alive_def ptrs.set_set_absent [OF b(1) svc_okD(3) [OF assms(3)]])
  have new: "\<not> es_alive s (next_addr s)"
    using assms(3) by (auto simp: svc_ok_def es_alive_def)
  then have "places s (next_addr s) = {}" using assms(2) unfolding tidy_def by blast
  moreover from this have "places s' (next_addr s) = {}" by (simp add: b(2))
  ultimately have "session (next_addr s) s = Unconnected" "session (next_addr s) s' = Connected"
    using new by (simp_all add: session_nowhere alive)
  moreover have "session es s' = session es s" if "es \<noteq> next_addr s" for es
    using that by (simp add: session_def alive) (auto simp: b(2))
  ultimately show ?thesis by (intro followsI) (metis for_client_simps(1) session_step.connect)
qed

text \<open>A proxy nobody waits for or plays is deleted: its clients were between OPTIONS and DESCRIBE.\<close>

lemma erase_follows:
  assumes "tidy s" "svc_ok s" "omap_find VideoRequest_less video (mVideoRequest2ProxyInfo s) = Some px" "watchers px = {}"
  shows "follows s [] (s\<lparr>mVideoRequest2ProxyInfo := omap_erase VideoRequest_less video (mVideoRequest2ProxyInfo s)\<rparr>)"
    (is "follows s [] ?s")
proof -
  obtain m1 k m2 where m: "mVideoRequest2ProxyInfo s = m1 @ (k, px) # m2" "omap_erase VideoRequest_less video (mVideoRequest2ProxyInfo s) = m1 @ m2"
    by (rule vr.split_present [OF assms(3)]) blast
  note m = m(1) m(2) [unfolded m(1)]
  have "session es ?s = session es s \<or> session_step es (session es s) [] (session es ?s)" for es
  proof (cases "phase_in es px")
    case None
    have "located es (m1 @ (k, px) # m2) = located es (m1 @ m2)"
      by (induction m1) (auto simp: None split: option.splits)
    then show ?thesis using m by (simp add: session_def es_alive_def)
  next
    case (Some ph)
    note in_ph = phase_in_SomeD [OF Some]
    then have ph: "ph = Before_describe" using assms(4) by (cases ph) (auto simp: watchers_def)
    have at: "session es s = At (cmpStr k) ph" by (rule session_entry [OF assms(1) _ in_ph]) (simp add: m)
    have kph: "(k, ph) \<in> places s es" using in_ph m(1) by (auto simp: places_def)
    have "omap_ok VideoRequest_less (m1 @ (k, px) # m2)" using svc_okD(1) [OF assms(2)] m by simp
    then have "(k, x) \<notin> set m1" "(k, x) \<notin> set m2" for x
      using vr.irrefl by (auto simp: omap_ok_def sorted_wrt_append)
    then have "(k, ph) \<notin> places ?s es" by (simp add: places_def m)
    moreover have "places ?s es \<subseteq> places s es" unfolding places_def by (simp add: m) blast
    moreover have "places s es = {(k, ph)}" using kph assms(1) unfolding tidy_def by blast
    ultimately have "places ?s es = {}" by auto
    moreover have "es_alive s es" using kph assms(1) unfolding tidy_def by blast
    then have "es_alive ?s es" by (simp add: es_alive_def)
    ultimately have "session es ?s = Connected" by (simp add: session_nowhere)
    then show ?thesis using at session_step.lost by (simp add: ph)
  qed
  then show ?thesis by (intro followsI) (metis for_client_simps(1))
qed

lemma erased_alive:
  assumes "svc_ok s" "omap_find ptr_less bev (mBev2RtspServer s) = Some es"
  shows "es_alive (s\<lparr>mBev2RtspServer := omap_erase ptr_less bev (mBev2RtspServer s)\<rparr>) e \<longleftrightarrow> e \<noteq> es \<and> es_alive s e"
    "es_alive s es" "es < next_addr s"
proof -
  obtain m1 b m2 where m: "mBev2RtspServer s = m1 @ (b, es) # m2" "omap_erase ptr_less bev (mBev2RtspServer s) = m1 @ m2"
    by (rule ptrs.split_present [OF assms(2)]) blast
  note m = m(1) m(2) [unfolded m(1)]
  have "distinct (map snd (m1 @ (b, es) # m2))" using svc_okD(4) [OF assms(1)] m by simp
  then show "es_alive (s\<lparr>mBev2RtspServer := omap_erase ptr_less bev (mBev2RtspServer s)\<rparr>) e \<longleftrightarrow> e \<noteq> es \<and> es_alive s e"
    by (auto simp: es_alive_def m)
  show "es_alive s es" by (simp add: es_alive_def m)
  with assms(1) show "es < next_addr s" by (auto simp: svc_ok_def es_alive_def)
qed

text \<open>The client goes and no other session changes.\<close>

lemma gone_follows:
  assumes "svc_ok s" "omap_find ptr_less bev (mBev2RtspServer s) = Some es" "next_addr s1 = next_addr s"
    "mBev2RtspServer s1 = mBev2RtspServer s" "\<And>e. e \<noteq> es \<Longrightarrow> session e s1 = session e s"
  shows "follows s [] (s1\<lparr>mBev2RtspServer := omap_erase ptr_less bev (mBev2RtspServer s)\<rparr>)" (is "follows s [] ?s")
proof -
  note erased = erased_alive [OF assms(1,2)]
  have alive: "es_alive ?s e \<longleftrightarrow> e \<noteq> es \<and> es_alive s1 e" for e
    using erased(1) [of e] assms(4) by (simp add: es_alive_def)
  have "session es ?s = Gone" using erased(3) assms(3) by (simp add: session_def alive)
  moreover have "session e ?s = session e s" if "e \<noteq> es" for e
  proof -
    have "session e ?s = session e s1" using that by (simp add: session_def alive)
    then show ?thesis by (simp add: assms(5) [OF that])
  qed
  ultimately show ?thesis
    using session_step.leave [OF alive_session [OF erased(2)]] by (intro followsI) (metis for_client_simps(1))
qed

lemma close_follows:
  assumes "tidy s" "svc_ok s" "omap_find ptr_less bev (mBev2RtspServer s) = Some es"
    "find_client es (mVideoRequest2ProxyInfo s) = Some (video, px')"
  shows "follows s [] (put_proxy video px' (s\<lparr>mBev2RtspServer := omap_erase ptr_less bev (mBev2RtspServer s)\<rparr>))"
proof -
  obtain px where px: "(video, px) \<in> set (mVideoRequest2ProxyInfo s)" "drop_client es px = Some px'"
    using find_client_SomeD [OF assms(4)] by blast
  have "e \<in> set (clients_in ph px') \<longleftrightarrow> e \<in> set (clients_in ph px)" if "e \<noteq> es" for e ph
    using that px(2) by (cases ph) (auto simp: drop_client_def split: if_splits)
  then have "session e (put_proxy video px' s) = session e s" if "e \<noteq> es" for e
    using session_put(4) [OF assms(1,2) svc_ok_entry [OF assms(2) px(1)] dropped_tidy(1) [OF assms(1,2) px]] that by blast
  then show ?thesis
    using gone_follows [OF assms(2,3), of "put_proxy video px' s"] unfolding put_proxy_swap by simp
qed

lemma errorcb_follows:
  assumes "errorcb True bev s = Inr (s', outs)" "tidy s" "svc_ok s"
  shows "follows s outs s'"
proof (cases "omap_find ptr_less bev (mBev2RtspServer s)")
  case None
  with assms show ?thesis by (simp add: errorcb_def follows_refl)
next
  case (Some es)
  let ?s = "s\<lparr>mBev2RtspServer := omap_erase ptr_less bev (mBev2RtspServer s)\<rparr>"
  let ?erase = "\<lambda>video s. s\<lparr>mVideoRequest2ProxyInfo := omap_erase VideoRequest_less video (mVideoRequest2ProxyInfo s)\<rparr>"
  have close: "Close es ?s = Inr (s', outs)" using assms(1) Some by (simp add: errorcb_def)
  show ?thesis
  proof (cases "find_client es (mVideoRequest2ProxyInfo s)")
    case None
    then have "s' = ?s" "outs = []" using close by (simp_all add: Close_def)
    then show ?thesis using gone_follows [OF assms(3) Some] by simp
  next
    case found: (Some r)
    obtain video px' where r: "r = (video, px')" by force
    note found = found [unfolded r]
    let ?p = "put_proxy video px' ?s"
    note ok = closed_tidy [OF assms(2,3) Some found]
    have go: "follows s [] ?p" by (rule close_follows [OF assms(2,3) Some found])
    have find: "omap_find VideoRequest_less video (mVideoRequest2ProxyInfo ?p) = Some px'"
      by (simp add: put_proxy_def vr.find_set)
    consider "s' = ?p" "outs = []"
      | p pouts where "watchers px' = {}" "UnregisterVideo video (mpRtpProducer ?p) = Inr (p, pouts)"
          "s' = ?erase video (?p\<lparr>mpRtpProducer := p\<rparr>)" "outs = map Producer pouts"
      | "watchers px' = {}" "s' = ?erase video ?p" "outs = []"
      using close found UnregisterVideo_outs
      by (auto simp: Close_def watchers_def with_producer_def res_bind_Inr_iff split: if_splits)
    then show ?thesis
    proof cases
      case 1
      then show ?thesis using go by simp
    next
      case 2
      have keep: "prod_ok p" using UnregisterVideo_keeps [OF 2(2)] svc_okD(2) [OF ok(2)] by blast
      have "follows s (map Producer pouts) (?p\<lparr>mpRtpProducer := p\<rparr>)"
        using go by (simp add: follows_def)
      moreover have "follows (?p\<lparr>mpRtpProducer := p\<rparr>) [] s'"
        unfolding 2(3) by (rule erase_follows [OF _ _ _ 2(1)]) (use ok keep svc_ok_producer find in auto)
      ultimately show ?thesis unfolding 2(4) using follows_trans by fastforce
    next
      case 3
      from follows_trans [OF go erase_follows [OF ok find 3(1)]] show ?thesis by (simp add: 3(2,3))
    qed
  qed
qed

section \<open>The service implements the session of every client\<close>

lemma svc_step_follows:
  assumes "svc_step mm True s outs s'" "tidy s" "svc_ok s"
  shows "follows s outs s'"
  using assms(1)
proof cases
  case (accept ret bev)
  then show ?thesis using accept_follows assms(2,3) by blast
next
  case (read al bev requests)
  show ?thesis
  proof (cases "omap_find ptr_less bev (mBev2RtspServer s)")
    case None
    with read show ?thesis by (simp add: readcb_def follows_refl)
  next
    case (Some es)
    then have "es_alive s es" by (rule ptrs.split_present) (simp add: es_alive_def)
    with Some read assms(2,3) show ?thesis
      by (auto simp: readcb_def intro: handle_all_follow follows_refl split: option.splits)
  qed
next
  case (error bev)
  then show ?thesis using errorcb_follows assms(2,3) by blast
next
  case (produce pouts p')
  show ?thesis
    using callbacks_follow [OF produce(2)] prod_step_keeps [OF produce(1) svc_okD(2) [OF assms(3)]]
      svc_ok_producer [OF assms(3)] assms(2) by simp
qed

interpretation service: trace_refinement "svc_step mm True" "\<lambda>s. tidy s \<and> svc_ok s" "session es" "session_step es" "for_client es"
  for mm es
proof
  show "tidy s' \<and> svc_ok s'" if "tidy s \<and> svc_ok s" "svc_step mm True s outs s'" for s outs s'
    using that svc_step_tidy svc_step_ok by blast
  show "run_of (session_step es) (session es s) (for_client es outs) (session es s')"
    if "tidy s \<and> svc_ok s" "svc_step mm True s outs s'" for s outs s'
    using that svc_step_follows unfolding follows_def by blast
qed simp_all

section \<open>What the automaton gives\<close>

lemma gone_forever: "run_of (session_step es) x tr y \<Longrightarrow> x = Gone \<Longrightarrow> y = Gone \<and> tr = []"
proof (induction rule: run_of.induct)
  case (go x tr y outs z)
  then show ?case by (auto elim: session_step.cases)
qed simp


lemma known_stays_known: "run_of (session_step es) x tr y \<Longrightarrow> x \<noteq> Unconnected \<Longrightarrow> y \<noteq> Unconnected"
  by (induction rule: run_of.induct) (auto elim: session_step.cases)

lemma session_Init:
  assumes "RtspService_Init up sys hc config p RtspService = Inr s0"
  shows "session es s0 = Unconnected"
  using RtspService_Init_res [OF assms] by (auto simp: session_def es_alive_def RtspService_def)

lemma Close_bev: "Close es s = Inr (s', outs) \<Longrightarrow> mBev2RtspServer s' = mBev2RtspServer s"
  by (auto simp: Close_def res_bind_Inr_iff dest!: with_producer_bev split: option.splits if_splits)

lemma Close_for_client: "Close es s = Inr (s', outs) \<Longrightarrow> for_client e outs = []"
  using UnregisterVideo_outs
  by (fastforce simp: Close_def with_producer_def res_bind_Inr_iff split: option.splits if_splits)

lemma errorcb_gone:
  assumes "errorcb True bev s = Inr (s', outs)" "tidy s" "svc_ok s" "omap_find ptr_less bev (mBev2RtspServer s) = Some es"
  shows "session es s' = Gone" "for_client e outs = []"
proof -
  let ?s = "s\<lparr>mBev2RtspServer := omap_erase ptr_less bev (mBev2RtspServer s)\<rparr>"
  have close: "Close es ?s = Inr (s', outs)" using assms(1,4) by (simp add: errorcb_def)
  then show "for_client e outs = []" by (rule Close_for_client)
  have "\<not> es_alive s' es"
    using erased_alive(1) [OF assms(3,4), of es] Close_bev [OF close] by (simp add: es_alive_def)
  moreover have "session es s \<noteq> Unconnected"
    using alive_session [OF erased_alive(2) [OF assms(3,4)]] by auto
  then have "session es s' \<noteq> Unconnected"
    using errorcb_follows [OF assms(1-3)] known_stays_known unfolding follows_def by blast
  ultimately show "session es s' = Gone" by (auto simp: session_def split: if_splits)
qed

lemma gone_nowhere: "session es s = Gone \<Longrightarrow> tidy s \<Longrightarrow> \<not> es_alive s es \<and> places s es = {}"
  using alive_session [of s es] unfolding tidy_def by auto


end
