(* ===== verification/Rtsp_Failures.thy ===== *)
theory Rtsp_Failures
  imports Rtsp_Delivery
begin

text \<open>
  How the service fails clients that do not follow the usual order of requests, that go at the
  wrong moment, or whose camera does not answer: the branches of the handlers where the four
  client sets, the connections and the producer drift apart.
\<close>

lemma es_alive_gone:
  assumes "svc_ok s" "omap_find ptr_less bev (mBev2RtspServer s) = Some es"
  shows "\<not> es_alive (s\<lparr>mBev2RtspServer := omap_erase ptr_less bev (mBev2RtspServer s)\<rparr>) es"
proof -
  obtain m1 b m2 where m: "mBev2RtspServer s = m1 @ (b, es) # m2"
    "omap_erase ptr_less bev (mBev2RtspServer s) = m1 @ m2"
    by (rule ptrs.split_present [OF assms(2)]) blast
  show ?thesis using svc_okD(4) [OF assms(1)] m by (auto simp: es_alive_def)
qed

lemma find_client_append:
  "\<forall>(k, px) \<in> set m1. drop_client es px = None \<Longrightarrow> find_client es (m1 @ m2) = find_client es m2"
  by (induction m1) auto

lemma split_proxy:
  assumes "svc_ok s" "(k, px) \<in> set (mVideoRequest2ProxyInfo s)" "same_key VideoRequest_less k k'"
  obtains m1 m2 where "mVideoRequest2ProxyInfo s = m1 @ (k, px) # m2"
    "\<And>v. mVideoRequest2ProxyInfo (put_proxy k' v s) = m1 @ (k, v) # m2"
    "omap_find VideoRequest_less k' (mVideoRequest2ProxyInfo s) = Some px" "k \<notin> fst ` set m1"
proof -
  have find: "omap_find VideoRequest_less k' (mVideoRequest2ProxyInfo s) = Some px"
    using vr.find_Some_iff [OF svc_okD(1) [OF assms(1)]] assms(2) vr.same_sym [OF assms(3)] by blast
  obtain m1 k0 m2 where m: "mVideoRequest2ProxyInfo s = m1 @ (k0, px) # m2" "same_key VideoRequest_less k' k0"
    "\<And>v. omap_set VideoRequest_less k' v (mVideoRequest2ProxyInfo s) = m1 @ (k0, v) # m2"
    by (rule vr.split_present [OF find]) blast
  have k0: "(k, px) = (k0, px)"
    by (rule vr.entry_unique [OF svc_okD(1) [OF assms(1)] assms(2)])
      (use m(1) vr.same_trans [OF assms(3) m(2)] in simp_all)
  have "omap_ok VideoRequest_less (m1 @ (k, px) # m2)" using svc_okD(1) [OF assms(1)] m(1) k0 by simp
  then have "k \<notin> fst ` set m1" using vr.irrefl by (auto simp: omap_ok_def sorted_wrt_append)
  with that [of m1 m2] m find k0 show thesis by (simp add: put_proxy_def)
qed

lemma tidy_elsewhere:
  assumes "tidy s" "(k, px) \<in> set (mVideoRequest2ProxyInfo s)" "es \<in> px_members px"
    "(k', px') \<in> set (mVideoRequest2ProxyInfo s)" "k' \<noteq> k"
  shows "drop_client es px' = None"
proof -
  obtain ph where "(k, ph) \<in> places s es" using assms(2,3) by (auto simp: px_members_def places_def)
  then have "(k', ph') \<notin> places s es" for ph' using assms(1,5) unfolding tidy_def by blast
  then have "es \<notin> set (clients_in ph' px')" for ph' using assms(4) by (auto simp: places_def)
  from this [of Before_describe] this [of Waiting_sdp] this [of Before_play] this [of Playing]
  show ?thesis by (simp add: drop_client_def)
qed

section \<open>OPTIONS as a keep-alive\<close>

text \<open>
  C32: A client that plays asks for \<open>OPTIONS\<close> once more, as players do to keep a session alive, and
  goes. It is then in two sets, \<open>Close\<close> takes it out of the first, and the next packet of the video
  follows the pointer to the client that is gone.
\<close>

theorem keepalive_dangling:
  assumes "tidy s" "svc_ok s" "omap_find ptr_less bev (mBev2RtspServer s) = Some es"
    "(k, px) \<in> set (mVideoRequest2ProxyInfo s)" "es \<in> set (playingClients px)"
    "same_key VideoRequest_less k (VideoRequest_url uri)"
  shows "\<exists>s1 s2. readcb mm al bev (Some [OPTIONS uri]) s = Inr (s1, [Reply_options es 200]) \<and>
    errorcb True bev s1 = Inr (s2, []) \<and> (\<forall>pkt. consumePktFunction (px_addr px) pkt s2 = Inl Undefined_behaviour)"
proof -
  let ?px1 = "px\<lparr>beforeDescribeClients := pset_insert es (beforeDescribeClients px)\<rparr>"
  let ?px2 = "px\<lparr>beforeDescribeClients := pset_erase es (pset_insert es (beforeDescribeClients px))\<rparr>"
  let ?b = "omap_erase ptr_less bev (mBev2RtspServer s)"
  let ?s1 = "put_proxy (VideoRequest_url uri) ?px1 s"
  let ?s2 = "put_proxy k ?px2 (?s1\<lparr>mBev2RtspServer := ?b\<rparr>)"
  obtain m1 m2 where m: "mVideoRequest2ProxyInfo s = m1 @ (k, px) # m2"
    "\<And>v. mVideoRequest2ProxyInfo (put_proxy (VideoRequest_url uri) v s) = m1 @ (k, v) # m2"
    "omap_find VideoRequest_less (VideoRequest_url uri) (mVideoRequest2ProxyInfo s) = Some px" "k \<notin> fst ` set m1"
    by (rule split_proxy [OF assms(2,4,6)]) blast
  have read: "readcb mm al bev (Some [OPTIONS uri]) s = Inr (?s1, [Reply_options es 200])"
    using assms(3) m(3) by (simp add: readcb_def OnOptions_def)
  have "drop_client es px' = None" if "(k', px') \<in> set m1" for k' px'
    by (rule tidy_elsewhere [OF assms(1,4), of es k']) (use that assms(5) m(1,4) in \<open>force simp: px_members_eq\<close>)+
  then have before: "\<forall>(k', px') \<in> set m1. drop_client es px' = None" by blast
  have "find_client es (mVideoRequest2ProxyInfo ?s1) = Some (k, ?px2)"
    unfolding m(2) find_client_append [OF before] by (simp add: drop_client_def)
  then have err: "errorcb True bev ?s1 = Inr (?s2, [])"
    using assms(3,5) by (auto simp: errorcb_def Close_def Let_def)
  have ok1: "svc_ok ?s1"
    using read assms(2) svc_step_ok [OF svc_step.read [of mm al bev "Some [OPTIONS uri]" s _ _ False]] by blast
  then have ok2: "svc_ok ?s2" using err svc_step_ok [OF svc_step.error [of bev ?s1 _ _ mm False]] by blast
  have "(k, ?px1) \<in> set (mVideoRequest2ProxyInfo ?s1)" unfolding m(2) by simp
  then have "(k, ?px2) \<in> set (mVideoRequest2ProxyInfo ?s2)"
    using entry_put [OF svc_ok_bev [OF ok1, of bev], of k ?px1 ?px2] by simp
  from proxy_at_entry [OF ok2 this] have at: "proxy_at (px_addr px) ?s2 = Some (k, ?px2)" by simp
  have "\<not> es_alive ?s2 es" using es_alive_gone [OF assms(2,3)] by (simp add: es_alive_def)
  with assms(5) have "\<not> list_all (es_alive ?s2) (playingClients ?px2)" by (auto simp: list_all_iff)
  then have "consumePktFunction (px_addr px) pkt ?s2 = Inl Undefined_behaviour" for pkt
    unfolding consumePktFunction_def at by (simp add: Let_def)
  with read err show ?thesis by blast
qed


lemma demo_playing_px:
  "(demo_camera, demo_px\<lparr>playingClients := [0], px_registered := True, sourceSdp := demo_sdp\<rparr>)
     \<in> set (mVideoRequest2ProxyInfo demo_playing)"
  "omap_find ptr_less 5 (mBev2RtspServer demo_playing) = Some 0"
  "same_key VideoRequest_less demo_camera (VideoRequest_url demo_url)"
  by (simp_all add: demo_playing_def demo_ready_def demo_open_def demo_url_video)

theorem keepalive_dangling_witness:
  "\<exists>s1 s2. readcb demo_mm demo_al 5 (Some [OPTIONS demo_url]) demo_playing = Inr (s1, [Reply_options 0 200]) \<and>
    errorcb True 5 s1 = Inr (s2, []) \<and> consumePktFunction 1 [128, 96, 7] s2 = Inl Undefined_behaviour"
proof -
  let ?px = "demo_px\<lparr>playingClients := [0], px_registered := True, sourceSdp := demo_sdp\<rparr>"
  have "0 \<in> set (playingClients ?px)" "px_addr ?px = 1" by (simp_all add: demo_px_def ProxyInfo_def)
  with keepalive_dangling [OF demo_playing_ok(2,1) demo_playing_px(2,1) _ demo_playing_px(3)] show ?thesis by metis
qed

section \<open>A second client that asks while the first waits\<close>

lemma split_unique: "x \<notin> set xs \<Longrightarrow> x \<notin> set xs' \<Longrightarrow> xs @ x # ys = xs' @ x # ys' \<Longrightarrow> xs = xs' \<and> ys = ys'"
proof (induction xs arbitrary: xs')
  case Nil
  then show ?case by (cases xs') auto
next
  case (Cons a xs)
  then show ?case by (cases xs') auto
qed

lemma find_put:
  "same_key VideoRequest_less k k' \<Longrightarrow> omap_find VideoRequest_less k' (mVideoRequest2ProxyInfo (put_proxy k px s)) = Some px"
  by (simp add: put_proxy_def vr.find_set)

lemma put_proxy_same:
  assumes "svc_ok s" "(k, px0) \<in> set (mVideoRequest2ProxyInfo s)" "same_key VideoRequest_less k k'"
  shows "put_proxy k' px s = put_proxy k px s"
proof -
  obtain m1 m2 where a: "mVideoRequest2ProxyInfo s = m1 @ (k, px0) # m2" "k \<notin> fst ` set m1"
    "\<And>v. mVideoRequest2ProxyInfo (put_proxy k' v s) = m1 @ (k, v) # m2"
    by (rule split_proxy [OF assms]) blast
  obtain n1 n2 where b: "mVideoRequest2ProxyInfo s = n1 @ (k, px0) # n2" "k \<notin> fst ` set n1"
    "\<And>v. mVideoRequest2ProxyInfo (put_proxy k v s) = n1 @ (k, v) # n2"
    by (rule split_proxy [OF assms(1,2) vr.same_refl]) blast
  have "(k, px0) \<notin> set m1" "(k, px0) \<notin> set n1" using a(2) b(2) by force+
  then have "m1 = n1 \<and> m2 = n2"
    using a(1) b(1) split_unique [of "(k, px0)" m1 n1 m2 n2] by simp
  then have "mVideoRequest2ProxyInfo (put_proxy k' px s) = mVideoRequest2ProxyInfo (put_proxy k px s)"
    using a(3) b(3) by simp
  then show ?thesis by (simp add: put_proxy_def)
qed

text \<open>
  C35: A client asks for the description of a camera while another already waits for it. It gets no
  answer, it is in no set of the service any more, it is not answered when the description
  arrives, and a \<open>PLAY\<close> is refused with 454.
\<close>

theorem second_describer_lost:
  assumes "tidy s" "svc_ok s" "(k, px) \<in> set (mVideoRequest2ProxyInfo s)" "es \<in> set (beforeDescribeClients px)"
    "sourceSdp px = []" "waitingSdpClients px \<noteq> []" "same_key VideoRequest_less k (VideoRequest_url uri)"
  shows "\<exists>s1. OnDescribe mm mem es uri s = Inr (Ret 0, s1, []) \<and> mpRtpProducer s1 = mpRtpProducer s \<and>
    places s1 es = {} \<and>
    (\<exists>s2 outs. processSdpFunction (px_addr px) sdp s1 = Inr (s2, outs) \<and> (\<forall>d. Reply_describe es 200 d \<notin> set outs) \<and>
       OnPlay es uri s2 = Inr (Ret_reply, s2, [Reply_play es 454]))"
proof -
  let ?px = "px\<lparr>beforeDescribeClients := pset_erase es (beforeDescribeClients px)\<rparr>"
  have drop: "drop_client es px = Some ?px" using assms(4) by (simp add: drop_client_def)
  have find: "omap_find VideoRequest_less (VideoRequest_url uri) (mVideoRequest2ProxyInfo s) = Some px"
    by (rule split_proxy [OF assms(2,3,7)]) blast
  have desc: "OnDescribe mm mem es uri s = Inr (Ret 0, put_proxy k ?px s, [])"
    using find assms(5,6) put_proxy_same [OF assms(2,3,7)] by (simp add: OnDescribe_def)
  have ok: "svc_ok (put_proxy k ?px s)" using OnDescribe_ok [OF desc assms(2)] .
  note t = dropped_tidy [OF assms(1-3) drop]
  have mem: "(k, ?px) \<in> set (mVideoRequest2ProxyInfo (put_proxy k ?px s))" by (rule entry_put [OF assms(2,3)])
  obtain r where "processSdpFunction (px_addr ?px) sdp (put_proxy k ?px s) = Inr r"
    using tidy_callbacks_defined(1) [OF t(1) ok mem] by blast
  then obtain s2 outs where sdp: "processSdpFunction (px_addr px) sdp (put_proxy k ?px s) = Inr (s2, outs)"
    by (cases r) simp
  have others: "es \<notin> set (waitingSdpClients px) \<union> set (beforePlayClients px)"
    using tidy_px(1) [OF assms(1,3)] assms(4) by (auto simp: px_disjoint_iff)
  have at: "proxy_at (px_addr px) (put_proxy k ?px s) = Some (k, ?px)"
    using proxy_at_entry [OF ok mem] by simp
  have "Reply_describe es 200 d \<notin> set outs" for d
    using sdp others by (auto simp: processSdpFunction_def at split: if_splits)
  moreover have "OnPlay es uri s2 = Inr (Ret_reply, s2, [Reply_play es 454])"
    using sdp others find_put [OF assms(7)] by (auto simp: processSdpFunction_def at OnPlay_def split: if_splits)
  ultimately show ?thesis using desc t(2) sdp by auto
qed

section \<open>A client that goes while it waits\<close>

lemma invite_reply_calls:
  assumes "on_invite_reply mm lib i ok resp p = Inr (p', pouts)" "lock_ctx i p = Some ctx"
  shows "\<exists>out rest. pouts = out # rest \<and>
    ((\<exists>sdp. out = Sdp (processSdpFunc ctx) sdp) \<or> (\<exists>ec. out = Err (processErrorFunc ctx) ec))"
  using assms by (auto simp: on_invite_reply_def Let_def res_bind_Inr_iff split: if_splits option.splits)

lemma erased_gone:
  assumes "svc_ok s" "(k, px) \<in> set (mVideoRequest2ProxyInfo s)" "px_addr px' = px_addr px"
    "mVideoRequest2ProxyInfo s' = omap_erase VideoRequest_less k (mVideoRequest2ProxyInfo (put_proxy k px' s))"
  shows "proxy_at (px_addr px) s' = None"
proof -
  let ?m = "mVideoRequest2ProxyInfo (put_proxy k px' s)"
  have ok: "omap_ok VideoRequest_less ?m" "distinct (map (px_addr \<circ> snd) ?m)"
  proof -
    obtain m1 m2 where "mVideoRequest2ProxyInfo s = m1 @ (k, px) # m2" "?m = m1 @ (k, px') # m2"
      by (rule split_proxy [OF assms(1,2) vr.same_refl]) blast
    then show "distinct (map (px_addr \<circ> snd) ?m)" using assms(1,3) by (simp add: svc_ok_def)
  qed (use svc_okD(1) [OF assms(1)] in \<open>simp add: put_proxy_def\<close>)
  have "px_addr q \<noteq> px_addr px" if "(k', q) \<in> set (omap_erase VideoRequest_less k ?m)" for k' q
  proof
    assume "px_addr q = px_addr px"
    moreover have "(k', q) \<in> set ?m" "\<not> same_key VideoRequest_less k k'" using that vr.set_erase [OF ok(1)] by auto
    moreover have "inj_on (px_addr \<circ> snd) (set ?m)" using ok(2) by (simp add: distinct_map)
    ultimately have "(k', q) = (k, px')"
      using inj_onD [of "px_addr \<circ> snd" "set ?m" "(k', q)" "(k, px')"] entry_put [OF assms(1,2), of px'] assms(3) by simp
    with \<open>\<not> same_key VideoRequest_less k k'\<close> show False by simp
  qed
  then show ?thesis unfolding proxy_at_def assms(4) find_None_iff by auto
qed


lemma waiting_leaves:
  assumes "tidy s" "svc_ok s" "omap_find ptr_less bev (mBev2RtspServer s) = Some es"
    "(k, px) \<in> set (mVideoRequest2ProxyInfo s)" "watchers px = {es}" "\<not> px_registered px"
  obtains s1 where "errorcb True bev s = Inr (s1, [])" "mpRtpProducer s1 = mpRtpProducer s" "svc_ok s1"
    "omap_find VideoRequest_less k (mVideoRequest2ProxyInfo s1) = None"
    "\<And>q. proxy_at (px_addr px) (s1\<lparr>mpRtpProducer := q\<rparr>) = None"
proof -
  let ?s = "s\<lparr>mBev2RtspServer := omap_erase ptr_less bev (mBev2RtspServer s)\<rparr>"
  have mem: "es \<in> px_members px" using assms(5) by (auto simp: watchers_def px_members_eq)
  from find_client_tidy [OF assms(1,2,4) mem] obtain px' where
    f: "find_client es (mVideoRequest2ProxyInfo s) = Some (k, px')" and d: "drop_client es px = Some px'" by blast
  have "watchers px' = {}" using drop_client_watchers [OF d tidy_px(1) [OF assms(1,4)]] assms(5) by simp
  then have empty: "waitingSdpClients px' = [] \<and> beforePlayClients px' = [] \<and> playingClients px' = []"
    by (simp add: watchers_def)
  let ?s1 = "(put_proxy k px' ?s)\<lparr>mVideoRequest2ProxyInfo :=
    omap_erase VideoRequest_less k (mVideoRequest2ProxyInfo (put_proxy k px' ?s))\<rparr>"
  have err: "errorcb True bev s = Inr (?s1, [])"
    using f empty assms(3,6) drop_client_other [OF d] by (simp add: errorcb_def Close_def Let_def)
  have ok1: "svc_ok ?s1" using err svc_step_ok [OF svc_step.error [of bev s _ _ _ False] assms(2)] by blast
  have none: "omap_find VideoRequest_less k (mVideoRequest2ProxyInfo ?s1) = None"
    using vr.find_erase [of "mVideoRequest2ProxyInfo (put_proxy k px' ?s)" k k] svc_okD(1) [OF assms(2)]
    by (simp add: put_proxy_def)
  have gone: "proxy_at (px_addr px) (?s1\<lparr>mpRtpProducer := q\<rparr>) = None" for q
    by (rule erased_gone [OF assms(2,4), of px']) (use drop_client_other [OF d] in \<open>simp_all add: put_proxy_def\<close>)
  show thesis by (rule that [OF err _ ok1 none gone]) simp
qed

text \<open>
  C33: The only client of a camera goes while it waits for the description. The proxy is deleted, but
  the producer is not told: its context still holds the callbacks of the deleted proxy, so
  whatever the gateway then answers, a callback runs on freed memory.
\<close>

theorem leave_while_waiting_dangling:
  assumes "tidy s" "svc_ok s" "omap_find ptr_less bev (mBev2RtspServer s) = Some es"
    "(k, px) \<in> set (mVideoRequest2ProxyInfo s)" "watchers px = {es}" "\<not> px_registered px"
    "lock_ctx i (mpRtpProducer s) = Some ctx" "processSdpFunc ctx = px_addr px" "processErrorFunc ctx = px_addr px"
  shows "\<exists>s'. errorcb True bev s = Inr (s', []) \<and> mpRtpProducer s' = mpRtpProducer s \<and>
    (\<forall>mm lib ok resp p' pouts. on_invite_reply mm lib i ok resp (mpRtpProducer s') = Inr (p', pouts) \<longrightarrow>
       callbacks pouts (s'\<lparr>mpRtpProducer := p'\<rparr>) = Inl Undefined_behaviour)"
proof -
  obtain s1 where err: "errorcb True bev s = Inr (s1, [])" "mpRtpProducer s1 = mpRtpProducer s"
    and gone: "\<And>q. proxy_at (px_addr px) (s1\<lparr>mpRtpProducer := q\<rparr>) = None"
    by (rule waiting_leaves [OF assms(1-6)]) blast
  have "callbacks pouts (s1\<lparr>mpRtpProducer := p'\<rparr>) = Inl Undefined_behaviour"
    if "on_invite_reply mm lib i ok resp (mpRtpProducer s) = Inr (p', pouts)" for mm lib ok resp p' pouts
    using invite_reply_calls [OF that assms(7)] gone [of p'] assms(8,9)
    by (auto simp: processSdpFunction_def processErrorFunction_def)
  with err show ?thesis by (intro exI [of _ s1]) simp
qed

theorem leave_while_waiting_dangling_witness:
  "\<exists>s'. errorcb True 5 demo_waiting = Inr (s', []) \<and>
    callbacks [Sdp 1 demo_sdp, Rpc (SendAck ''inv1'')] (s'\<lparr>mpRtpProducer := mpRtpProducer demo_ready\<rparr>) = Inl Undefined_behaviour"
proof -
  let ?px = "demo_px\<lparr>waitingSdpClients := [0]\<rparr>"
  have px: "omap_find ptr_less 5 (mBev2RtspServer demo_waiting) = Some 0"
    "(demo_camera, ?px) \<in> set (mVideoRequest2ProxyInfo demo_waiting)" "watchers ?px = {0}" "\<not> px_registered ?px" "px_addr ?px = 1"
    by (simp_all add: demo_waiting_def demo_open_def watchers_def demo_px_def ProxyInfo_def)
  have ctx: "lock_ctx 0 (mpRtpProducer demo_waiting) = Some demo_cam_ctx"
    "processSdpFunc demo_cam_ctx = px_addr ?px" "processErrorFunc demo_cam_ctx = px_addr ?px"
    using px(5) by (simp_all add: demo_waiting_def lock_ctx_def)
  from leave_while_waiting_dangling [OF demo_waiting_ok(2,1) px(1-4) ctx] demo_invite show ?thesis by metis
qed

section \<open>A camera that did not answer\<close>

lemma refused_client:
  assumes "svc_ok s" "(k, ctx) \<in> set (mRtpVideoContextMap (mpRtpProducer s))" "es_alive s es"
    "omap_find VideoRequest_less k (mVideoRequest2ProxyInfo s) = None" "VideoRequest_url uri = k"
  shows "\<exists>s2 s3. OnOptions mem0 es uri s = Inr (Ret 0, s2, [Reply_options es 200]) \<and>
    OnDescribe mm mem es uri s2 = Inr (Ret 0, s3, [Close_socket es]) \<and> mpRtpProducer s3 = mpRtpProducer s"
proof -
  let ?p = "mpRtpProducer s"
  let ?px = "(ProxyInfo (next_addr s) mem0)\<lparr>beforeDescribeClients := [es]\<rparr>"
  let ?s2 = "(put_proxy k ?px s)\<lparr>next_addr := next_addr s + 1\<rparr>"
  let ?pw = "?px\<lparr>beforeDescribeClients := [], waitingSdpClients := [es]\<rparr>"
  let ?s3 = "put_proxy k ?pw ?s2"
  note pok = svc_okD(2) [OF assms(1)]
  have opt: "OnOptions mem0 es uri s = Inr (Ret 0, ?s2, [Reply_options es 200])"
    using assms(4,5) by (simp add: OnOptions_def)
  have gb: "use_gb k" "\<not> use_file k" using pok assms(2) unfolding prod_ok_def by blast+
  have reg: "RegisterVideo mm mem k a a a ?p = Inr (?p, [Err a Too_many_files_open])" for a
    using gb vr.find_mem [OF prod_okD(1) [OF pok] assms(2)] by (simp add: RegisterVideo_def)
  have ok2: "svc_ok ?s2" by (rule OnOptions_ok [OF opt assms(1)])
  have mem2: "(k, ?px) \<in> set (mVideoRequest2ProxyInfo ?s2)"
    using vr.set_set_absent [OF assms(4) svc_okD(1) [OF assms(1)]] by (simp add: put_proxy_def)
  have ok3: "svc_ok ?s3"
    by (rule svc_ok_put [OF ok2 svc_ok_entry [OF ok2 mem2]]) (simp_all add: proxy_ok_def ProxyInfo_def)
  have at: "proxy_at (next_addr s) ?s3 = Some (k, ?pw)"
    using proxy_at_entry [OF ok3 entry_put [OF ok2 mem2, of ?pw]] by (simp add: ProxyInfo_def)
  have call: "callbacks [Err (next_addr s) Too_many_files_open] ?s3 = Inr (?s3, [Close_socket es])"
    using at assms(3) by (simp add: processErrorFunction_def es_alive_def Let_def) (simp add: ProxyInfo_def)
  have find: "omap_find VideoRequest_less k (mVideoRequest2ProxyInfo ?s2) = Some ?px"
    by (rule svc_ok_entry [OF ok2 mem2])
  have same: "?s3\<lparr>mpRtpProducer := ?p\<rparr> = ?s3" by (simp add: put_proxy_def)
  have fields: "sourceSdp ?px = []" "waitingSdpClients ?px = []" "px_addr ?px = next_addr s"
    "?px\<lparr>beforeDescribeClients := pset_erase es (beforeDescribeClients ?px), waitingSdpClients := [es]\<rparr> = ?pw"
    by (simp_all add: ProxyInfo_def pset_erase_def)
  have "with_producer (RegisterVideo mm mem k (next_addr s) (next_addr s) (next_addr s)) ?s3 = Inr (?s3, [Close_socket es])"
  proof -
    have prod: "mpRtpProducer ?s3 = ?p" by simp
    show ?thesis unfolding with_producer_def prod reg by (simp only: res_bind.simps prod.case same call)
  qed
  then have "OnDescribe mm mem es uri ?s2 = Inr (Ret 0, ?s3, [Close_socket es])"
    unfolding OnDescribe_def Let_def assms(5) find using fields by simp
  with opt show ?thesis by (intro exI [of _ ?s2] exI [of _ ?s3]) simp
qed



subsection \<open>Two clients\<close>

text \<open>A second client connects while the first waits, and asks for \<open>OPTIONS\<close> of the same camera.\<close>

definition demo_two_open :: rtsp_service where
  "demo_two_open = demo_waiting\<lparr>mBev2RtspServer := [(5, 0), (6, 2)], next_addr := 3\<rparr>"

definition demo_two :: rtsp_service where
  "demo_two = demo_two_open\<lparr>mVideoRequest2ProxyInfo :=
     [(demo_camera, demo_px\<lparr>beforeDescribeClients := [2], waitingSdpClients := [0]\<rparr>)]\<rparr>"

lemma demo_accept2: "accept_conn_cb 0 (Some 6) demo_waiting = Inr demo_two_open"
  by (simp add: accept_conn_cb_def demo_two_open_def demo_waiting_def demo_open_def ptr_less_def)

lemma demo_options2:
  "readcb demo_mm demo_al 6 (Some [OPTIONS demo_url]) demo_two_open = Inr (demo_two, [Reply_options 2 200])"
  by (simp add: readcb_def OnOptions_def demo_url_video demo_two_def demo_two_open_def demo_waiting_def put_proxy_def
      pset_insert_def insort_insert_key_def demo_svc_defs ptr_less_def)

lemma demo_two_places: "places demo_two_open 2 = {}"
proof -
  have "2 \<notin> set (clients_in ph (demo_px\<lparr>waitingSdpClients := [0]\<rparr>))" for ph
    by (cases ph) (simp_all add: demo_px_def ProxyInfo_def)
  then show ?thesis by (auto simp: places_def demo_two_open_def demo_waiting_def)
qed

lemma demo_two_open_ok: "svc_ok demo_two_open" "tidy demo_two_open"
  using accept_ok [OF demo_accept2] accept_tidy [OF demo_accept2] demo_waiting_ok by blast+

lemma demo_two_bev: "omap_find ptr_less 6 (mBev2RtspServer demo_two_open) = Some 2"
  by (simp add: demo_two_open_def ptr_less_def)

lemma demo_two_ok: "svc_ok demo_two" "tidy demo_two"
proof -
  have "polite_all demo_mm demo_al 2 [OPTIONS demo_url] demo_two_open"
    using demo_two_places by (auto simp: polite_def split: sum.splits)
  then have "svc_step demo_mm True demo_two_open [Reply_options 2 200] demo_two"
    using demo_options2 demo_two_bev by (intro svc_step.read) auto
  then show "svc_ok demo_two" "tidy demo_two"
    using svc_step_ok svc_step_tidy demo_two_open_ok by blast+
qed

theorem second_describer_lost_witness:
  "\<exists>s1. OnDescribe demo_mm (Null, Null) 2 demo_url demo_two = Inr (Ret 0, s1, []) \<and> places s1 2 = {} \<and>
    (\<exists>s2 outs. processSdpFunction 1 demo_sdp s1 = Inr (s2, outs) \<and> (\<forall>d. Reply_describe 2 200 d \<notin> set outs))"
proof -
  let ?px = "demo_px\<lparr>beforeDescribeClients := [2], waitingSdpClients := [0]\<rparr>"
  have px: "(demo_camera, ?px) \<in> set (mVideoRequest2ProxyInfo demo_two)" "2 \<in> set (beforeDescribeClients ?px)"
    "sourceSdp ?px = []" "waitingSdpClients ?px \<noteq> []" "px_addr ?px = 1"
    by (simp_all add: demo_two_def demo_px_def ProxyInfo_def)
  from second_describer_lost [OF demo_two_ok(2,1) px(1-4) demo_playing_px(3), of demo_mm "(Null, Null)" demo_sdp] px(5)
  show ?thesis by auto
qed


section \<open>The send buffer\<close>

text \<open>
  C31: The send buffer of a proxy has 1600 bytes and the frame header takes four of them, so the
  consumer is defined for packets of 2 to 1596 bytes and for no others; the encoder may make
  packets of up to 1600.
\<close>

theorem send_buffer_bounds:
  assumes "svc_ok s" "(k, px) \<in> set (mVideoRequest2ProxyInfo s)" "\<forall>es \<in> set (playingClients px). es_alive s es"
  shows "((\<exists>r. consumePktFunction (px_addr px) pkt s = Inr r) \<longleftrightarrow> 2 \<le> length pkt \<and> length pkt \<le> 1596) \<and>
    rtp_alloc 1600 = Inr ()"
proof -
  have "length (sendBuffer px) = 1600" using svc_okD(5) [OF assms(1,2)] by (simp add: proxy_ok_def)
  with assms(3) show ?thesis
    by (auto simp: consumePktFunction_def proxy_at_entry [OF assms(1,2)] list_all_iff Let_def rtp_alloc_def)
qed

theorem send_buffer_bounds_witness:
  "consumePktFunction 1 (replicate 1597 7) demo_playing = Inl Undefined_behaviour \<and>
   (\<exists>r. consumePktFunction 1 (replicate 1596 7) demo_playing = Inr r)"
proof -
  let ?px = "demo_px\<lparr>playingClients := [0], px_registered := True, sourceSdp := demo_sdp\<rparr>"
  have alive: "\<forall>es \<in> set (playingClients ?px). es_alive demo_playing es" and addr: "px_addr ?px = 1"
    by (simp_all add: demo_playing_def demo_ready_def demo_open_def es_alive_def demo_px_def ProxyInfo_def)
  note b = send_buffer_bounds [OF demo_playing_ok(1) demo_playing_px(1) alive, unfolded addr]
  have "\<nexists>r. consumePktFunction 1 (replicate 1597 7) demo_playing = Inr r" using b [of "replicate 1597 7"] by simp
  then have "consumePktFunction 1 (replicate 1597 7) demo_playing = Inl Undefined_behaviour"
    by (auto simp: consumePktFunction_def Let_def split: option.splits if_splits)
  with b [of "replicate 1596 7"] show ?thesis by simp
qed

end
