(* ===== verification/Rtp_Payload_Tool.thy ===== *)
theory Rtp_Payload_Tool
  imports Ffvms_Prelude
begin

unbundle bit_operations_syntax

text \<open>
  The tool \<open>rtp-payload-test\<close> (\<open>tools/src/rtp-payload-test.cpp\<close>): it reads a file of RTP packets, each
  behind two bytes of length, gives them to the depacketizer of librtp and writes what comes out
  to a media file, with a start code for H264 and H265 and an ADTS header for AAC.

  The depacketizer is a parameter: a state and a function from a packet to a new state and the
  calls it makes of the two handlers it is given.
\<close>

section \<open>The handlers\<close>

text \<open>
  \<open>rtp_alloc\<close> hands out one static buffer. The comparison is unsigned, so a negative size is fatal.
\<close>

definition tool_alloc :: "int \<Rightarrow> unit res" where
  "tool_alloc bytes =
     (if (2 * 1024 * 1024 + 4) - 4 < uint (word_of_int bytes :: 64 word) then Inl Fatal else Inr ())"

definition lower :: "char \<Rightarrow> char" where
  "lower c = (if CHR ''A'' \<le> c \<and> c \<le> CHR ''Z'' then char_of (of_char c + 32 :: nat) else c)"

definition strcasecmp_eq :: "string \<Rightarrow> string \<Rightarrow> bool" where
  "strcasecmp_eq a b \<longleftrightarrow> map lower a = map lower b"

text \<open>The seven bytes of the ADTS header of a frame of \<open>bytes\<close> bytes.\<close>

definition adts_header :: "nat \<Rightarrow> bytes" where
  "adts_header bytes =
     (let len = word_of_nat (bytes + 7) :: 32 word;
          profile = 2 :: byte; sampling_frequency_index = 4 :: byte; channel_configuration = 2 :: byte
      in [0xFF,
          0xF0 OR push_bit 3 0 OR push_bit 2 0 OR 0x01,
          push_bit 6 (profile - 1) OR push_bit 2 (sampling_frequency_index AND 0x0F)
            OR (drop_bit 2 channel_configuration AND 0x01),
          push_bit 6 (channel_configuration AND 0x03) OR ucast (drop_bit 11 len AND 0x03),
          ucast (drop_bit 3 len),
          push_bit 5 (ucast (len AND 0x07)) OR 0x1F,
          0xFC OR ucast (len div 1024 AND 0x03)])"

definition media_header :: "string \<Rightarrow> nat \<Rightarrow> bytes" where
  "media_header encoding bytes =
     (if encoding = ''H264'' \<or> encoding = ''H265'' then [0, 0, 0, 1]
      else if strcasecmp_eq ''mpeg4-generic'' encoding then adts_header bytes
      else [])"

text \<open>\<open>rtp_decode_packet\<close>: what it writes to the media file, through a buffer of 2 MiB.\<close>

definition rtp_decode_packet :: "string \<Rightarrow> bytes \<Rightarrow> bytes res" where
  "rtp_decode_packet encoding packet =
     (let bytes = length packet; header = media_header encoding bytes in
      if 2 * 1024 * 1024 \<le> bytes + 4 then Inl Fatal
      else if 2 * 1024 * 1024 < length header + bytes then Inl Undefined_behaviour
      else Inr (header @ packet))"

section \<open>Reading\<close>

datatype decoder_call = Alloc int | Packet bytes

fun decoder_calls :: "string \<Rightarrow> decoder_call list \<Rightarrow> bytes res" where
  "decoder_calls encoding [] = Inr []"
| "decoder_calls encoding (Alloc n # cs) = res_bind (tool_alloc n) (\<lambda>_. decoder_calls encoding cs)"
| "decoder_calls encoding (Packet p # cs) =
     res_bind (rtp_decode_packet encoding p) (\<lambda>out.
     res_bind (decoder_calls encoding cs) (\<lambda>out'. Inr (out @ out')))"

text \<open>The loop: \<open>src\<close> is what is left of the input file; the result is what is written.\<close>

function read_loop :: "('d \<Rightarrow> bytes \<Rightarrow> 'd \<times> decoder_call list) \<Rightarrow> string \<Rightarrow> 'd \<Rightarrow> bytes \<Rightarrow> bytes res" where
  "read_loop input encoding d src =
     (if length src < 2 then Inr []
      else
        let sz = unat (push_bit 8 (ucast (src ! 0)) OR ucast (src ! 1) :: 32 word); rest = drop 2 src in
        if 64 * 1024 \<le> sz then Inl Fatal
        else if length rest < sz then Inr []
        else
          let (d', calls) = input d (take sz rest) in
          res_bind (decoder_calls encoding calls) (\<lambda>out.
          res_bind (read_loop input encoding d' (drop sz rest)) (\<lambda>out'. Inr (out @ out'))))"
  by pat_completeness auto
termination by (relation "measure (\<lambda>(input, encoding, d, src). length src)") auto

declare read_loop.simps [simp del]

text \<open>
  \<open>rtp_payload_test\<close>: the files and the decoder are what opening and creating them gave; a file that
  was not opened is read, written and closed all the same.
\<close>

definition rtp_payload_test ::
  "('d \<Rightarrow> bytes \<Rightarrow> 'd \<times> decoder_call list) \<Rightarrow> string \<Rightarrow> bool \<Rightarrow> bytes option \<Rightarrow> bool \<Rightarrow> 'd option \<Rightarrow> bytes res" where
  "rtp_payload_test input encoding exists frtp fsource2 decoder =
     (if \<not> exists then Inl Fatal
      else case (frtp, decoder) of
             (Some src, Some d) \<Rightarrow> if fsource2 then read_loop input encoding d src else Inl Undefined_behaviour
           | _ \<Rightarrow> Inl Undefined_behaviour)"

definition tool_main :: "('d \<Rightarrow> bytes \<Rightarrow> 'd \<times> decoder_call list) \<Rightarrow> bool \<Rightarrow> bytes option \<Rightarrow> bool \<Rightarrow> 'd option \<Rightarrow> bytes res" where
  "tool_main input = rtp_payload_test input ''MP2T''"

section \<open>What the tool writes\<close>

text \<open>The file that holds the packets, and what the depacketizer calls for them in turn.\<close>

definition file_record :: "bytes \<Rightarrow> bytes" where
  "file_record p = [word_of_nat (length p div 256), word_of_nat (length p mod 256)] @ p"

fun decoded :: "('d \<Rightarrow> bytes \<Rightarrow> 'd \<times> decoder_call list) \<Rightarrow> 'd \<Rightarrow> bytes list \<Rightarrow> decoder_call list" where
  "decoded input d [] = []"
| "decoded input d (p # ps) = (case input d p of (d', calls) \<Rightarrow> calls @ decoded input d' ps)"

lemma decoder_calls_append:
  "decoder_calls e (xs @ ys) = res_bind (decoder_calls e xs) (\<lambda>out. res_bind (decoder_calls e ys) (\<lambda>out'. Inr (out @ out')))"
proof (induction e xs rule: decoder_calls.induct)
  case (1 e)
  then show ?case by (cases "decoder_calls e ys") auto
next
  case (2 e n cs)
  then show ?case by (cases "tool_alloc n") auto
next
  case (3 e p cs)
  then show ?case
    by (cases "rtp_decode_packet e p"; cases "decoder_calls e cs"; cases "decoder_calls e ys") auto
qed

lemma unat_be16:
  fixes h l :: byte
  shows "unat (push_bit 8 (ucast h) OR ucast l :: 32 word) = unat h * 256 + unat l"
proof -
  let ?h = "push_bit 8 (ucast h) :: 32 word" and ?l = "ucast l :: 32 word"
  have "?h AND ?l = 0"
    by (rule bit_eqI) (auto simp: bit_simps dest: bit_imp_le_length)
  then have or: "?h OR ?l = ?h + ?l" using word_plus_and_or [of ?h ?l] by simp
  have b: "unat h < 256" "unat l < 256" using unsigned_less [of h] unsigned_less [of l] by simp_all
  have "unat ?l = unat l" using b by (simp add: unsigned_ucast_eq take_bit_nat_eq_self)
  moreover have "unat ?h = unat h * 256"
    using b by (simp add: push_bit_eq_mult unat_word_ariths unsigned_ucast_eq take_bit_nat_eq_self)
  ultimately show ?thesis unfolding or using b by (simp add: unat_word_ariths)
qed

lemma record_size:
  fixes p :: bytes
  assumes "length p < 65536"
  shows "unat (push_bit 8 (ucast (word_of_nat (length p div 256) :: byte)) OR
    ucast (word_of_nat (length p mod 256) :: byte) :: 32 word) = length p"
  using assms unfolding unat_be16 by (simp add: unat_of_nat)


lemma read_record:
  assumes "length p < 65536"
  shows "read_loop input e d (file_record p @ rest) = (case input d p of (d', calls) \<Rightarrow>
    res_bind (decoder_calls e calls) (\<lambda>out. res_bind (read_loop input e d' rest) (\<lambda>out'. Inr (out @ out'))))"
  using record_size [OF assms] assms by (subst read_loop.simps) (simp add: file_record_def Let_def)

definition truncated :: "bytes \<Rightarrow> bool" where
  "truncated tail \<longleftrightarrow> length tail < 2 \<or> length tail - 2 < unat (tail ! 0) * 256 + unat (tail ! 1)"

lemma unat_byte: "unat (b :: byte) < 256"
  using unsigned_less [of b] by simp

lemma read_truncated:
  assumes "truncated tail"
  shows "read_loop input e d tail = Inr []"
proof -
  have "unat (tail ! 0) * 256 + unat (tail ! 1) < 65536"
    using unat_byte [of "tail ! 0"] unat_byte [of "tail ! 1"] by simp
  with assms show ?thesis by (subst read_loop.simps) (auto simp: Let_def unat_be16 truncated_def)
qed

lemma read_records:
  "\<forall>p \<in> set pkts. length p < 65536 \<Longrightarrow> truncated tail \<Longrightarrow>
   read_loop input e d (concat (map file_record pkts) @ tail) = decoder_calls e (decoded input d pkts)"
proof (induction pkts arbitrary: d)
  case Nil
  then show ?case by (simp add: read_truncated)
next
  case (Cons p pkts)
  have p: "length p < 65536" using Cons.prems by simp
  obtain d' calls where "input d p = (d', calls)" by force
  with Cons show ?case
    using read_record [OF p, of input e d "concat (map file_record pkts) @ tail"] by (simp add: decoder_calls_append)
qed

text \<open>Every file is a number of records and a truncated rest.\<close>

lemma file_splits: "\<exists>pkts tail. src = concat (map file_record pkts) @ tail \<and> truncated tail \<and> (\<forall>p \<in> set pkts. length p < 65536)"
proof (induction "length src" arbitrary: src rule: less_induct)
  case less
  show ?case
  proof (cases "truncated src")
    case True
    then show ?thesis by (intro exI [of _ "[]"] exI [of _ src]) simp
  next
    case False
    let ?n = "unat (src ! 0) * 256 + unat (src ! 1)"
    let ?p = "take ?n (drop 2 src)" and ?rest = "drop (2 + ?n) src"
    have n: "?n \<le> length src - 2" "2 \<le> length src" using False by (auto simp: truncated_def)
    have b: "unat (src ! 0) < 256" "unat (src ! 1) < 256" by (rule unat_byte)+
    then have small: "?n < 65536" by simp
    have p: "length ?p = ?n" using n by simp
    have head: "[word_of_nat (?n div 256), word_of_nat (?n mod 256)] = take 2 src"
    proof -
      obtain x y zs where "src = x # y # zs" using n(2) by (metis Suc_le_length_iff numeral_2_eq_2)
      then show ?thesis using b by simp
    qed
    have "src = take 2 src @ drop 2 src" by simp
    also have "drop 2 src = ?p @ drop ?n (drop 2 src)" by (rule append_take_drop_id [symmetric])
    also have "drop ?n (drop 2 src) = ?rest" by (simp add: add.commute)
    finally have src: "src = file_record ?p @ ?rest" unfolding file_record_def p head by simp
    have "length ?rest < length src" using n by simp
    from less [OF this] obtain pkts tail where r: "?rest = concat (map file_record pkts) @ tail" "truncated tail"
      "\<forall>p \<in> set pkts. length p < 65536" by blast
    have "src = concat (map file_record (?p # pkts)) @ tail" using src unfolding r(1) by simp
    with r(2,3) p small show ?thesis by (intro exI [of _ "?p # pkts"] exI [of _ tail]) simp
  qed
qed

text \<open>
  C30: Whatever the input file holds, it is a number of complete records and a truncated rest, and the
  tool gives the depacketizer exactly the packets of the complete records, in order, and writes
  what it calls for; the rest is dropped, and a record is never too large for the packet buffer. A
  file written from packets of less than 64 KiB is read back as those packets.
\<close>

theorem tool_reads_file:
  shows "(\<exists>pkts tail. src = concat (map file_record pkts) @ tail \<and> truncated tail \<and>
      rtp_payload_test input e True (Some src) True (Some d) = decoder_calls e (decoded input d pkts)) \<and>
    ((\<forall>p \<in> set pkts. length p < 65536) \<longrightarrow>
      rtp_payload_test input e True (Some (concat (map file_record pkts))) True (Some d) =
        decoder_calls e (decoded input d pkts))"
proof -
  have "truncated []" by (simp add: truncated_def)
  from read_records [OF _ this] have "(\<forall>p \<in> set pkts. length p < 65536) \<longrightarrow>
      read_loop input e d (concat (map file_record pkts)) = decoder_calls e (decoded input d pkts)" by fastforce
  moreover obtain pkts' tail where "src = concat (map file_record pkts') @ tail" "truncated tail"
    "\<forall>p \<in> set pkts'. length p < 65536" using file_splits by blast
  ultimately show ?thesis
    using read_records [of pkts' tail input e d] by (auto simp: rtp_payload_test_def)
qed

theorem tool_reads_file_witness:
  "rtp_payload_test (\<lambda>d p. (d, [Alloc 5, Packet (drop 1 p)])) ''MP2T'' True
     (Some (concat (map file_record [[1, 2, 3], [4, 5]]))) True (Some ()) = Inr [2, 3, 5]"
proof -
  have "\<forall>p \<in> set [[1, 2, 3], [4, 5 :: byte]]. length p < 65536" by simp
  with tool_reads_file [of "[]" "\<lambda>d p. (d, [Alloc 5, Packet (drop 1 p)])" "''MP2T''" "()" "[[1, 2, 3], [4, 5]]"]
  show ?thesis
    by (simp add: rtp_decode_packet_def media_header_def strcasecmp_eq_def tool_alloc_def)
qed

section \<open>ADTS\<close>

text \<open>How a player takes an ADTS stream apart: the frame length is in 13 bits of bytes 3 to 5.\<close>

definition adts_length :: "bytes \<Rightarrow> nat" where
  "adts_length src = unat (push_bit 11 (ucast (src ! 3) AND 3) OR push_bit 3 (ucast (src ! 4)) OR
     drop_bit 5 (ucast (src ! 5)) :: 32 word)"

definition parse_adts :: "bytes \<Rightarrow> (bytes \<times> bytes) option" where
  "parse_adts src =
     (if length src < 7 \<or> src ! 0 \<noteq> 0xFF \<or> (src ! 1 AND 0xF6) \<noteq> 0xF0 then None
      else if adts_length src < 7 \<or> length src < adts_length src then None
      else Some (drop 7 (take (adts_length src) src), drop (adts_length src) src))"

lemma adts_word:
  fixes x :: "32 word"
  shows "push_bit 11 (ucast (push_bit 6 (2 AND 0x03) OR ucast (drop_bit 11 x AND 0x03) :: byte) AND 3) OR
    push_bit 3 (ucast (ucast (drop_bit 3 x) :: byte)) OR
    drop_bit 5 (ucast (push_bit 5 (ucast (x AND 0x07)) OR 0x1F :: byte)) = take_bit 13 x"
proof -
  have m: "(3 :: 32 word) = mask 2" "(7 :: 32 word) = mask 3" "(0x1F :: byte) = mask 5" "(2 AND 3 :: byte) = 2"
    by (simp_all add: mask_eq_decr_exp)
  have high: "\<not> bit (128 :: byte) k" if "k < 2" for k
    using that by (auto simp: less_2_cases_iff)
  show ?thesis
    unfolding m
  proof (rule bit_eqI)
    fix n
    show "bit (push_bit 11 (ucast (push_bit 6 2 OR ucast (drop_bit 11 x AND mask 2) :: byte) AND mask 2) OR
        push_bit 3 (ucast (ucast (drop_bit 3 x) :: byte)) OR
        drop_bit 5 (ucast (push_bit 5 (ucast (x AND mask 3)) OR mask 5 :: byte)) :: 32 word) n = bit (take_bit 13 x) n"
      by (cases "n < 3") (auto simp: bit_simps dest: high)
  qed
qed

lemma adts_length_header:
  assumes "n + 7 < 8192"
  shows "adts_length (adts_header n @ src) = n + 7"
proof -
  let ?x = "word_of_nat (n + 7) :: 32 word"
  have "adts_length (adts_header n @ src) = unat (take_bit 13 ?x)"
    unfolding adts_word [symmetric] by (simp add: adts_length_def adts_header_def Let_def nth_append)
  also have "\<dots> = n + 7"
    using assms by (simp add: unsigned_take_bit_eq unat_of_nat take_bit_nat_eq_self del: of_nat_add)
  finally show ?thesis .
qed

text \<open>
  An AAC frame that fits the 13 bits of the length field is written so that a player finds it: the
  header and the frame come out, and what follows is next. The buffer check leaves room for the
  four bytes of a start code, not for the seven of this header: two sizes pass it and overrun the
  buffer.
\<close>

theorem adts_frames:
  assumes "strcasecmp_eq ''mpeg4-generic'' e" "e \<noteq> ''H264''" "e \<noteq> ''H265''"
  shows "(length p + 7 < 8192 \<longrightarrow>
      (\<exists>out. rtp_decode_packet e p = Inr out \<and> (\<forall>rest. parse_adts (out @ rest) = Some (p, rest)))) \<and>
    (rtp_decode_packet e p = Inl Undefined_behaviour \<longleftrightarrow> length p \<in> {2097146, 2097147})"
proof -
  have h: "media_header e n = adts_header n" for n using assms by (simp add: media_header_def)
  have len: "length (adts_header n) = 7" for n by (simp add: adts_header_def Let_def)
  have "\<exists>out. rtp_decode_packet e p = Inr out \<and> (\<forall>rest. parse_adts (out @ rest) = Some (p, rest))" if "length p + 7 < 8192"
  proof (intro exI conjI allI)
    show "rtp_decode_packet e p = Inr (adts_header (length p) @ p)"
      using that by (simp add: rtp_decode_packet_def h len)
    fix rest
    have "(adts_header (length p) @ p @ rest) ! 0 = 0xFF" "(adts_header (length p) @ p @ rest) ! 1 AND 0xF6 = 0xF0"
      by (simp_all add: adts_header_def Let_def)
    then show "parse_adts ((adts_header (length p) @ p) @ rest) = Some (p, rest)"
      by (simp add: parse_adts_def adts_length_header [OF that] len)
  qed
  moreover have "rtp_decode_packet e p = Inl Undefined_behaviour \<longleftrightarrow> length p \<in> {2097146, 2097147}"
    by (auto simp: rtp_decode_packet_def h len Let_def)
  ultimately show ?thesis by blast
qed

theorem adts_frames_witness:
  "\<exists>out. rtp_decode_packet ''MPEG4-generic'' [1, 2, 3] = Inr out \<and> parse_adts (out @ [9]) = Some ([1, 2, 3], [9])"
proof -
  have "strcasecmp_eq ''mpeg4-generic'' ''MPEG4-generic''"
    by code_simp
  from adts_frames [OF this, of "[1, 2, 3]"] show ?thesis by auto
qed

end
