(* ===== verification/Ffvms_Main.thy ===== *)
theory Ffvms_Main
  imports Rtsp_Failures Async_Client Rtp_Payload_Tool
begin

text \<open>
  The process (\<open>core/ffvms.cpp\<close>): \<open>main\<close> brings the metrics, the network server, the producer and the
  service up, in this order. Afterwards the whole program is one state: the service holds the
  producer, the producer the network server. Here are the events of the socket and the work of the
  UDP workers carried through all three, and the runs of the whole.
\<close>

section \<open>Start\<close>

record ffvms_config =
  cfg_metrics_manager :: mm_options
  cfg_network_server :: ns_config
  cfg_rtp_producer :: prod_config
  cfg_rtsp_service :: rtsp_config

text \<open>What the system calls and libevent return while the parts start.\<close>

record ffvms_env =
  env_concurrency :: nat
  env_udp :: "nat \<Rightarrow> udp_syscalls"
  env_file_pthreads :: int
  env_file :: "nat \<Rightarrow> file_loop_syscalls"
  env_rtsp_pthreads :: int
  env_rtsp :: "nat \<Rightarrow> rtsp_loop_syscalls"

text \<open>
  \<open>exists\<close>: whether the configuration file is there; \<open>parsed\<close>: what the JSON library makes of it,
  \<open>None\<close> if it throws. The error codes the two \<open>Init\<close> return are ignored.
\<close>

definition ffvms_main :: "ffvms_env \<Rightarrow> bool \<Rightarrow> ffvms_config option \<Rightarrow> (mm_state \<times> rtsp_service) res" where
  "ffvms_main env exists parsed =
     (if \<not> exists then Inl Fatal
      else case parsed of
        None \<Rightarrow> Inl (Runtime_error ''json'')
      | Some cfg \<Rightarrow>
          let mm = mm_Init (cfg_metrics_manager cfg) mm_state0; hc = env_concurrency env in
          res_bind (initUdpServer (env_udp env) hc (cfg_network_server cfg) NetworkServer) (\<lambda>networkServer.
          res_bind (RtpProducer_Init (env_file_pthreads env) (env_file env) hc (cfg_rtp_producer cfg)
            networkServer RtpProducer) (\<lambda>rtpProducer.
          res_bind (RtspService_Init (env_rtsp_pthreads env) (env_rtsp env) hc (cfg_rtsp_service cfg)
            rtpProducer RtspService) (\<lambda>rtspService.
          Inr (mm, rtspService)))))"

section \<open>Datagrams\<close>

text \<open>
  What the receive loop hands over, carried out on the service: the counters, and the packets
  through the context of their peer and the callbacks of its proxy. The depacketizer and encoder
  of a packet may depend on its number \<open>n\<close> and its context.
\<close>

fun deliver :: "(nat \<Rightarrow> nat \<Rightarrow> bytes \<Rightarrow> (bytes \<times> nat) list) \<Rightarrow> (nat \<Rightarrow> nat \<Rightarrow> bytes \<Rightarrow> nat \<Rightarrow> bytes list) \<Rightarrow> nat \<Rightarrow>
    nat ns_out list \<Rightarrow> rtsp_service \<Rightarrow> svc_res" where
  "deliver demux enc n [] s = Inr (s, [])"
| "deliver demux enc n (Increment c m # nouts) s =
     res_bind (deliver demux enc n nouts s) (\<lambda>(s, outs). Inr (s, Producer (Inc c m) # outs))"
| "deliver demux enc n (Process i pkt # nouts) s =
     res_bind (on_peer_packet (demux n i) (enc n i) i pkt (mpRtpProducer s)) (\<lambda>pouts.
     res_bind (callbacks pouts s) (\<lambda>(s, outs).
     res_bind (deliver demux enc (Suc n) nouts s) (\<lambda>(s, outs').
     Inr (s, outs @ outs'))))"

definition set_server :: "nat network_server \<Rightarrow> rtsp_service \<Rightarrow> rtsp_service" where
  "set_server ns s = s\<lparr>mpRtpProducer := (mpRtpProducer s)\<lparr>mpNetworkServer := Some ns\<rparr>\<rparr>"

definition udp_event :: "(nat \<Rightarrow> nat \<Rightarrow> bytes \<Rightarrow> (bytes \<times> nat) list) \<Rightarrow> (nat \<Rightarrow> nat \<Rightarrow> bytes \<Rightarrow> nat \<Rightarrow> bytes list) \<Rightarrow>
    (string \<Rightarrow> nat) \<Rightarrow> datagram list \<Rightarrow> rtsp_service \<Rightarrow> (rtsp_service \<times> datagram list \<times> svc_out list) res" where
  "udp_event demux enc hash queue s =
     res_bind (deref (mpNetworkServer (mpRtpProducer s))) (\<lambda>ns.
     res_bind (udp_loop hash queue ns) (\<lambda>(ns, rest, nouts).
     res_bind (deliver demux enc 0 nouts (set_server ns s)) (\<lambda>(s, outs).
     Inr (s, rest, outs))))"

definition set_pool :: "nat \<Rightarrow> udp_task thread_pool \<Rightarrow> nat network_server \<Rightarrow> nat network_server" where
  "set_pool k q ns = ns\<lparr>mpUdpWorkerThreads := (mpUdpWorkerThreads ns)[k := q]\<rparr>"

text \<open>
  The steps of the process, over the library's hash of strings: those of the service, an event of
  the socket, and what a UDP worker does: it takes a task, or finishes the one it has.
\<close>

inductive sys_step :: "mm_state \<Rightarrow> (string \<Rightarrow> nat) \<Rightarrow> rtsp_service \<Rightarrow> svc_out list \<Rightarrow> rtsp_service \<Rightarrow> bool"
  for mm hash where
  service: "svc_step mm True s outs s' \<Longrightarrow> sys_step mm hash s outs s'"
| socket: "udp_event demux enc hash queue s = Inr (s', rest, outs) \<Longrightarrow> sys_step mm hash s outs s'"
| worker_start: "mpNetworkServer (mpRtpProducer s) = Some ns \<Longrightarrow> k < length (mpUdpWorkerThreads ns) \<Longrightarrow>
    pool_step (mpUdpWorkerThreads ns ! k) (Started i t) q \<Longrightarrow>
    sys_step mm hash s [] (set_server (set_pool k q ns) s)"
| worker_exec: "mpNetworkServer (mpRtpProducer s) = Some ns \<Longrightarrow> k < length (mpUdpWorkerThreads ns) \<Longrightarrow>
    pool_step (mpUdpWorkerThreads ns ! k) (Done i t) q \<Longrightarrow>
    deliver demux enc 0 (case process_packet t ns of None \<Rightarrow> [] | Some nouts \<Rightarrow> nouts) (set_server (set_pool k q ns) s) =
      Inr (s', outs) \<Longrightarrow>
    sys_step mm hash s outs s'"

inductive sys_run :: "mm_state \<Rightarrow> (string \<Rightarrow> nat) \<Rightarrow> rtsp_service \<Rightarrow> svc_out list \<Rightarrow> rtsp_service \<Rightarrow> bool"
  for mm hash s0 where
  start: "sys_run mm hash s0 [] s0"
| more: "sys_run mm hash s0 tr s \<Longrightarrow> sys_step mm hash s outs s' \<Longrightarrow> sys_run mm hash s0 (tr @ outs) s'"

section \<open>What the whole keeps\<close>

text \<open>
  The network server stays set up, its cursor in the ring of \<open>C\<close> slots, with its \<open>w\<close> worker pools,
  none of them stopped.
\<close>

definition net_ok :: "nat \<Rightarrow> nat \<Rightarrow> nat rtp_producer \<Rightarrow> bool" where
  "net_ok C w p \<longleftrightarrow> (\<exists>ns n. mpNetworkServer p = Some ns \<and> ring_at C n ns \<and>
     length (mpUdpWorkerThreads ns) = w \<and> (\<forall>q \<in> set (mpUdpWorkerThreads ns). \<not> mStop q))"

lemma registerPeer_ring:
  assumes "registerPeer mm nm i ns = Inr ns'"
  shows "ring_at C n ns' = ring_at C n ns" "mpUdpWorkerThreads ns' = mpUdpWorkerThreads ns"
  using assms by (auto simp: registerPeer_def res_bind_Inr_iff ring_at_def split: if_splits)

text \<open>The receive loop returns, with workers and without.\<close>

lemma submit_to_alive:
  assumes "k < length (mpUdpWorkerThreads s)" "\<forall>q \<in> set (mpUdpWorkerThreads s). \<not> mStop q"
  obtains q where "submit t (mpUdpWorkerThreads s ! k) = Inr q" "submit_to k t s = Inr (s\<lparr>mpUdpWorkerThreads := (mpUdpWorkerThreads s)[k := q]\<rparr>)"
    "\<not> mStop q"
  using assms nth_mem [OF assms(1)] by (auto simp: submit_to_def submit_def)

lemma alive_update: "\<forall>q \<in> set qs. \<not> mStop q \<Longrightarrow> \<not> mStop q \<Longrightarrow> \<forall>q \<in> set (qs[k := q]). \<not> mStop q"
  using set_update_subset_insert [of qs k q] by blast

lemma udp_loop_returns:
  assumes "ring_at C n s" "\<forall>q \<in> set (mpUdpWorkerThreads s). \<not> mStop q"
  shows "\<exists>s' rest outs m. udp_loop hash ds s = Inr (s', rest, outs) \<and> ring_at C m s' \<and>
    length (mpUdpWorkerThreads s') = length (mpUdpWorkerThreads s) \<and> (\<forall>q \<in> set (mpUdpWorkerThreads s'). \<not> mStop q)"
proof (cases "mpUdpWorkerThreads s = []")
  case True
  with udp_loop_sync [OF assms(1) True, of hash ds] show ?thesis by fastforce
next
  case False
  then show ?thesis
    using assms
  proof (induction ds arbitrary: n s)
    case Nil
    then show ?case using take_slot_ring [OF Nil(2)] by auto
  next
    case (Cons d ds)
    from recv_packet_ring [OF Cons.prems(2), of d] obtain t s1 where
      rp: "recv_packet d s = Inr (t, s1)" "ring_at C (Suc n) s1" "mpUdpWorkerThreads s1 = mpUdpWorkerThreads s"
      by auto
    let ?k = "worker_index hash (from_peer t) s1"
    have k: "?k < length (mpUdpWorkerThreads s1)" using Cons.prems(1) rp(3) by (simp add: worker_index_def)
    obtain q where q: "submit_to ?k t s1 = Inr (s1\<lparr>mpUdpWorkerThreads := (mpUdpWorkerThreads s1)[?k := q]\<rparr>)" "\<not> mStop q"
      by (rule submit_to_alive [OF k, of t]) (use Cons.prems(3) rp(3) in auto)
    let ?s = "s1\<lparr>mpUdpWorkerThreads := (mpUdpWorkerThreads s1)[?k := q]\<rparr>"
    have "mpUdpWorkerThreads ?s \<noteq> []" "ring_at C (Suc n) ?s" "\<forall>q \<in> set (mpUdpWorkerThreads ?s). \<not> mStop q"
      using Cons.prems rp q(2) alive_update by (simp_all add: ring_at_def)
    from Cons.IH [OF this] show ?case using rp q Cons.prems(1) by simp
  qed
qed

text \<open>A step of the service changes the network server at most by registering a peer.\<close>

lemma prod_step_server:
  assumes "prod_step mm p outs p'"
  obtains "mpNetworkServer p' = mpNetworkServer p"
    | n j ns ns' where "registerPeer mm n j ns = Inr ns'" "mpNetworkServer p = Some ns" "mpNetworkServer p' = Some ns'"
  using assms by cases (use same_server same_server_probe same_server_tick invite_server in \<open>metis+\<close>)

lemma callback_producer: "callback out s = Inr (s', outs) \<Longrightarrow> mpRtpProducer s' = mpRtpProducer s"
  by (cases out) (auto simp: processSdpFunction_def consumePktFunction_def processErrorFunction_def Let_def
      split: option.splits if_splits)

lemma callbacks_producer: "callbacks pouts s = Inr (s', outs) \<Longrightarrow> mpRtpProducer s' = mpRtpProducer s"
proof (induction pouts arbitrary: s outs)
  case (Cons out pouts)
  from Cons.prems obtain s1 o1 o2 where "callback out s = Inr (s1, o1)" "callbacks pouts s1 = Inr (s', o2)"
    by (auto simp: res_bind_Inr_iff)
  with Cons.IH callback_producer show ?case by fastforce
qed simp

lemma with_producer_server:
  assumes "with_producer f s = Inr (s', outs)"
    "\<And>p' pouts. f (mpRtpProducer s) = Inr (p', pouts) \<Longrightarrow> mpNetworkServer p' = mpNetworkServer (mpRtpProducer s)"
  shows "mpNetworkServer (mpRtpProducer s') = mpNetworkServer (mpRtpProducer s)"
proof -
  from assms(1) obtain p pouts where "f (mpRtpProducer s) = Inr (p, pouts)"
    "callbacks pouts (s\<lparr>mpRtpProducer := p\<rparr>) = Inr (s', outs)"
    by (auto simp: with_producer_def res_bind_Inr_iff)
  with assms(2) callbacks_producer [of pouts "s\<lparr>mpRtpProducer := p\<rparr>" s' outs] show ?thesis by simp
qed

lemma register_server:
  "with_producer (RegisterVideo mm mem video a b c) s = Inr (s', outs) \<Longrightarrow>
     mpNetworkServer (mpRtpProducer s') = mpNetworkServer (mpRtpProducer s)"
  "with_producer (UnregisterVideo video) s = Inr (s', outs) \<Longrightarrow>
     mpNetworkServer (mpRtpProducer s') = mpNetworkServer (mpRtpProducer s)"
  by (rule with_producer_server, assumption, rule same_server(1), assumption)
    (rule with_producer_server, assumption, rule same_server(2), assumption)

lemma handle_server:
  assumes "handle mm al es r s = Inr (ret, s', outs)"
  shows "mpNetworkServer (mpRtpProducer s') = mpNetworkServer (mpRtpProducer s)"
proof (cases r)
  case (DESCRIBE uri)
  with assms show ?thesis
    by (auto simp: OnDescribe_def Let_def res_bind_Inr_iff split: option.splits if_splits dest!: register_server(1))
qed (use assms in \<open>auto simp: OnOptions_def OnSetup_def OnPlay_def OnOther_same Let_def split: option.splits if_splits\<close>)

lemma handle_all_server:
  "handle_all mm al es rs s = Inr (s', outs) \<Longrightarrow> mpNetworkServer (mpRtpProducer s') = mpNetworkServer (mpRtpProducer s)"
proof (induction rs arbitrary: s outs)
  case (Cons r rs)
  from Cons.prems obtain ret s1 o1 o2 where "handle mm al es r s = Inr (ret, s1, o1)" "handle_all mm al es rs s1 = Inr (s', o2)"
    by (auto simp: res_bind_Inr_iff)
  with Cons.IH handle_server show ?case by metis
qed simp

lemma Close_server:
  assumes "Close es s = Inr (s', outs)"
  shows "mpNetworkServer (mpRtpProducer s') = mpNetworkServer (mpRtpProducer s)"
  using assms
  by (auto simp: Close_def res_bind_Inr_iff split: option.splits if_splits prod.splits dest!: register_server(2))

lemma svc_step_server:
  assumes "svc_step mm strict s outs s'"
  obtains "mpNetworkServer (mpRtpProducer s') = mpNetworkServer (mpRtpProducer s)"
    | n j ns ns' where "registerPeer mm n j ns = Inr ns'" "mpNetworkServer (mpRtpProducer s) = Some ns"
      "mpNetworkServer (mpRtpProducer s') = Some ns'"
  using assms
proof cases
  case (accept ret bev)
  then show ?thesis using that(1) by (auto simp: accept_conn_cb_def split: if_splits option.splits)
next
  case (read al bev requests)
  then show ?thesis using that(1) by (auto simp: readcb_def dest!: handle_all_server split: option.splits)
next
  case (error bev)
  then show ?thesis using that(1) by (auto simp: errorcb_def Let_def dest!: Close_server split: option.splits)
next
  case (produce pouts p')
  have p': "mpRtpProducer s' = p'" using callbacks_producer [OF produce(2)] by simp
  from prod_step_server [OF produce(1)] that show ?thesis unfolding p' by metis
qed

lemma svc_step_net:
  assumes "svc_step mm strict s outs s'" "net_ok C w (mpRtpProducer s)"
  shows "net_ok C w (mpRtpProducer s')"
  using assms(1)
proof (cases rule: svc_step_server)
  case 1
  with assms(2) show ?thesis by (simp add: net_ok_def)
next
  case (2 n j ns ns')
  with assms(2) registerPeer_ring [OF 2(1)] show ?thesis by (auto simp: net_ok_def)
qed

lemma deliver_keeps:
  "deliver demux enc n nouts s = Inr (s', outs) \<Longrightarrow> tidy s \<Longrightarrow> svc_ok s \<Longrightarrow>
   tidy s' \<and> svc_ok s' \<and> mpRtpProducer s' = mpRtpProducer s"
proof (induction nouts arbitrary: n s outs)
  case (Cons out nouts)
  show ?case
  proof (cases out)
    case (Increment c m)
    with Cons show ?thesis by (auto simp: res_bind_Inr_iff)
  next
    case (Process i pkt)
    with Cons.prems(1) obtain pouts s1 o1 o2 where
      1: "callbacks pouts s = Inr (s1, o1)" "deliver demux enc (Suc n) nouts s1 = Inr (s', o2)"
      by (auto simp: res_bind_Inr_iff)
    from Cons.IH [OF 1(2)] callbacks_tidy [OF 1(1)] callbacks_ok [OF 1(1)] callbacks_producer [OF 1(1)] Cons.prems(2,3)
    show ?thesis by simp
  qed
qed simp

lemma set_server_simps [simp]:
  "tidy (set_server ns s) = tidy s" "svc_ok (set_server ns s) = svc_ok s"
  "mVideoRequest2ProxyInfo (set_server ns s) = mVideoRequest2ProxyInfo s"
  "mpNetworkServer (mpRtpProducer (set_server ns s)) = Some ns"
  "lock_ctx i (mpRtpProducer (set_server ns s)) = lock_ctx i (mpRtpProducer s)"
  by (simp_all add: set_server_def svc_ok_def lock_ctx_def)

definition sys_ok :: "nat \<Rightarrow> nat \<Rightarrow> rtsp_service \<Rightarrow> bool" where
  "sys_ok C w s \<longleftrightarrow> svc_ok s \<and> tidy s \<and> net_ok C w (mpRtpProducer s)"

lemma udp_event_keeps:
  assumes "udp_event demux enc hash queue s = Inr (s', rest, outs)" "sys_ok C w s"
  shows "sys_ok C w s'"
proof -
  from assms(2) obtain ns n where ns: "mpNetworkServer (mpRtpProducer s) = Some ns" "ring_at C n ns"
    "length (mpUdpWorkerThreads ns) = w" "\<forall>q \<in> set (mpUdpWorkerThreads ns). \<not> mStop q"
    by (auto simp: sys_ok_def net_ok_def)
  from udp_loop_returns [OF ns(2,4), of hash queue] obtain ns' rest' nouts m where
    l: "udp_loop hash queue ns = Inr (ns', rest', nouts)"
      "ring_at C m ns'" "length (mpUdpWorkerThreads ns') = w" "\<forall>q \<in> set (mpUdpWorkerThreads ns'). \<not> mStop q"
    using ns(3) by auto
  with assms(1) ns(1) have d: "deliver demux enc 0 nouts (set_server ns' s) = Inr (s', outs)"
    by (auto simp: udp_event_def deref_def res_bind_Inr_iff)
  from deliver_keeps [OF d] assms(2) l(2-4) show ?thesis by (auto simp: sys_ok_def net_ok_def)
qed

lemma pool_step_alive: "pool_step p ev q \<Longrightarrow> ev \<noteq> Stopped \<Longrightarrow> \<not> mStop p \<Longrightarrow> \<not> mStop q"
  by (induction rule: pool_step.induct) (auto simp: pool_defs split: if_splits list.splits)

lemma set_pool_ok:
  assumes "sys_ok C w s" "mpNetworkServer (mpRtpProducer s) = Some ns" "k < length (mpUdpWorkerThreads ns)"
    "pool_step (mpUdpWorkerThreads ns ! k) ev q" "ev \<noteq> Stopped"
  shows "sys_ok C w (set_server (set_pool k q ns) s)"
proof -
  from assms(1,2) obtain n where n: "ring_at C n ns" "length (mpUdpWorkerThreads ns) = w"
    "\<forall>q \<in> set (mpUdpWorkerThreads ns). \<not> mStop q"
    by (auto simp: sys_ok_def net_ok_def)
  have "\<not> mStop q" using pool_step_alive [OF assms(4,5)] n(3) assms(3) by simp
  then have "\<forall>q \<in> set (mpUdpWorkerThreads (set_pool k q ns)). \<not> mStop q"
    using alive_update n(3) by (simp add: set_pool_def)
  then show ?thesis
    using assms(1) n(1,2) by (auto simp: sys_ok_def net_ok_def set_pool_def ring_at_def)
qed

lemma sys_step_ok:
  assumes "sys_step mm hash s outs s'" "sys_ok C w s"
  shows "sys_ok C w s'"
  using assms(1)
proof cases
  case service
  from svc_step_ok [OF service] svc_step_tidy [OF service] svc_step_net [OF service] assms(2)
  show ?thesis by (simp add: sys_ok_def)
next
  case (socket demux enc queue rest)
  from udp_event_keeps [OF socket assms(2)] show ?thesis .
next
  case (worker_start ns k i t q)
  with set_pool_ok [OF assms(2) worker_start(3-5)] show ?thesis by simp
next
  case (worker_exec ns k i t q demux enc)
  from set_pool_ok [OF assms(2) worker_exec(1-3)] deliver_keeps [OF worker_exec(4)] show ?thesis
    by (simp add: sys_ok_def)
qed

lemma sys_run_ok: "sys_run mm hash s0 tr s \<Longrightarrow> sys_ok C w s0 \<Longrightarrow> sys_ok C w s"
  by (induction rule: sys_run.induct) (auto intro: sys_step_ok)

text \<open>The number of event loops, of slots in a receive buffer, and of worker pools.\<close>

definition loops :: "ffvms_env \<Rightarrow> ffvms_config \<Rightarrow> int" where
  "loops env cfg = (if event_loop_num (cfg_network_server cfg) = -1 then int (env_concurrency env)
     else event_loop_num (cfg_network_server cfg))"

definition slots :: "ffvms_env \<Rightarrow> ffvms_config \<Rightarrow> nat" where
  "slots env cfg = nat ((loops env cfg * 20971520 - 1) div 1600)"

definition workers :: "ffvms_env \<Rightarrow> ffvms_config \<Rightarrow> nat" where
  "workers env cfg = nat (if async_worker_num (cfg_network_server cfg) = -1 then int (env_concurrency env)
     else async_worker_num (cfg_network_server cfg))"

lemma main_server:
  assumes "ffvms_main env True (Some cfg) = Inr (mm, s)" "0 < loops env cfg"
  obtains ns where "mpNetworkServer (mpRtpProducer s) = Some ns" "ring_at (slots env cfg) 0 ns"
    "mpUdpWorkerThreads ns = replicate (workers env cfg) (ThreadPool 1)" "svc_ok s" "tidy s"
    "mm = mm_up (cfg_metrics_manager cfg)" "mpUdpWorkers ns = nat (loops env cfg)"
proof -
  from assms(1) obtain ns p where
    1: "initUdpServer (env_udp env) (env_concurrency env) (cfg_network_server cfg) NetworkServer = Inr ns"
      "RtpProducer_Init (env_file_pthreads env) (env_file env) (env_concurrency env) (cfg_rtp_producer cfg) ns RtpProducer = Inr p"
      "RtspService_Init (env_rtsp_pthreads env) (env_rtsp env) (env_concurrency env) (cfg_rtsp_service cfg) p RtspService = Inr s"
    and mm: "mm = mm_Init (cfg_metrics_manager cfg) mm_state0"
    by (auto simp: ffvms_main_def Let_def res_bind_Inr_iff)
  from 1(1) obtain ns0 where "start_loops (env_udp env) (nat (loops env cfg)) NetworkServer = Inr ns0"
    and ns: "int32 (loops env cfg * 20 * 1024 * 1024) = Some (loops env cfg * 20971520)"
      "ns = ns0\<lparr>mBufferSize := Some (loops env cfg * 20971520), nReceiveBuffers := nReceiveBuffers ns0 + 2,
         mpUdpWorkerThreads := mpUdpWorkerThreads ns0 @ replicate (workers env cfg) (ThreadPool 1)\<rparr>"
    by (auto simp: initUdpServer_def loops_def workers_def Let_def res_bind_Inr_iff int32_def split: option.splits if_splits)
  from start_loops_frame [OF this(1)]
  have "ring_at (slots env cfg) 0 ns" "mpUdpWorkerThreads ns = replicate (workers env cfg) (ThreadPool 1)"
    "mpUdpWorkers ns = nat (loops env cfg)"
    using ns(2) assms(2) by (auto simp: ring_at_def NetworkServer_def slots_def)
  moreover have "mpNetworkServer (mpRtpProducer s) = Some ns"
    using RtpProducer_Init_res [OF 1(2)] RtspService_Init_res [OF 1(3)] by auto
  ultimately show thesis
    using that svc_ok_Init [OF 1(3) prod_ok_Init [OF 1(2)]] mm by (simp add: mm_up_def)
qed

lemma main_Init:
  assumes "ffvms_main env True (Some cfg) = Inr (mm, s)" "0 < loops env cfg"
  shows "sys_ok (slots env cfg) (workers env cfg) s" "mm = mm_up (cfg_metrics_manager cfg)"
  by (rule main_server [OF assms], auto simp: sys_ok_def net_ok_def ThreadPool_def)+

section \<open>A stream\<close>

lemma deframe_append: "deframe xs = Some ps \<Longrightarrow> deframe (xs @ ys) = map_option ((@) ps) (deframe ys)"
proof (induction xs arbitrary: ps rule: deframe.induct)
  case 1
  then show ?case by (simp add: map_option.id [unfolded id_def])
next
  case (2 m ch hi lo rest)
  let ?n = "unat hi * 256 + unat lo"
  from "2.prems" obtain qs where q: "m = 0x24" "\<not> length rest < ?n" "deframe (drop ?n rest) = Some qs" "ps = (ch, take ?n rest) # qs"
    by (auto simp: Let_def split: if_splits)
  have "deframe (drop ?n rest @ ys) = map_option ((@) qs) (deframe ys)"
    using "2.IH" [OF refl _ q(3)] q(1,2) by auto
  with q show ?case by (cases "deframe ys") (auto simp: Let_def)
qed auto

abbreviation on_channel :: "bytes list \<Rightarrow> (byte \<times> bytes) list" where
  "on_channel pkts \<equiv> map (\<lambda>pkt. (interleaved_channel pkt, pkt)) pkts"

lemma deliver_stream:
  "tidy s \<Longrightarrow> svc_ok s \<Longrightarrow> (k, px) \<in> set (mVideoRequest2ProxyInfo s) \<Longrightarrow>
   lock_ctx i (mpRtpProducer s) = Some ctx \<Longrightarrow> demuxer ctx \<Longrightarrow> consumePktFunc ctx = px_addr px \<Longrightarrow>
   \<forall>d \<in> set ds. peers_look ns (peer_name (sender d)) = Some i \<Longrightarrow>
   \<forall>(j, d) \<in> set (enumerate n ds). all_fit (demux j i) (enc j i) ctx (stored d) \<Longrightarrow>
   \<exists>s' outs. deliver demux enc n (concat (map (delivery ns) ds)) s = Inr (s', outs) \<and>
     (\<forall>es. if es \<in> set (playingClients px)
        then deframe (client_bytes es outs) =
          Some (on_channel (concat (map (\<lambda>(j, d). encoded (demux j i) (enc j i) ctx (stored d)) (enumerate n ds))))
        else client_bytes es outs = [])"
proof (induction ds arbitrary: n s px)
  case (Cons d ds)
  obtain p where p: "omap_find string_less (peer_name (sender d)) (mRegisteredPeers ns) = Some p" "processFunc p = i"
    using Cons.prems(7) by (auto simp: peers_look_def)
  have fit: "all_fit (demux n i) (enc n i) ctx (stored d)" using Cons.prems(8) by simp
  from datagram_stream [OF Cons.prems(1-6) fit] obtain pouts s1 o1 buf where
    1: "on_peer_packet (demux n i) (enc n i) i (stored d) (mpRtpProducer s) = Inr pouts" "callbacks pouts s = Inr (s1, o1)"
    and es: "\<forall>es. if es \<in> set (playingClients px)
          then deframe (client_bytes es o1) = Some (on_channel (encoded (demux n i) (enc n i) ctx (stored d)))
          else client_bytes es o1 = []"
    and s1: "mpRtpProducer s1 = mpRtpProducer s" "(k, px\<lparr>sendBuffer := buf\<rparr>) \<in> set (mVideoRequest2ProxyInfo s1)" by blast
  obtain s' o2 where 2: "deliver demux enc (Suc n) (concat (map (delivery ns) ds)) s1 = Inr (s', o2)"
    and es2: "\<forall>es. if es \<in> set (playingClients px)
        then deframe (client_bytes es o2) =
          Some (on_channel (concat (map (\<lambda>(j, d). encoded (demux j i) (enc j i) ctx (stored d)) (enumerate (Suc n) ds))))
        else client_bytes es o2 = []"
    using Cons.IH [OF callbacks_tidy [OF 1(2) Cons.prems(1,2)] callbacks_ok [OF 1(2) Cons.prems(2)] s1(2), of "Suc n"]
      Cons.prems(4-8) s1(1) by auto
  have "deliver demux enc n (concat (map (delivery ns) (d # ds))) s =
      Inr (s', Producer (Inc (pCounter p) (length (stored d))) # o1 @ o2)"
    using 1 2 p by (simp add: delivery_def)
  moreover have "if es \<in> set (playingClients px)
        then deframe (client_bytes es (Producer (Inc (pCounter p) (length (stored d))) # o1 @ o2)) =
          Some (on_channel (concat (map (\<lambda>(j, d). encoded (demux j i) (enc j i) ctx (stored d)) (enumerate n (d # ds)))))
        else client_bytes es (Producer (Inc (pCounter p) (length (stored d))) # o1 @ o2) = []" for es
    using es [rule_format, of es] es2 [rule_format, of es]
    by (cases "es \<in> set (playingClients px)") (simp_all add: client_bytes_append deframe_append)
  ultimately show ?case by blast
qed auto


lemma svc_run_sys: "svc_run mm True s0 tr s \<Longrightarrow> sys_run mm hash s0 tr s"
  by (induction rule: svc_run.induct) (auto intro: sys_run.intros sys_step.service)

section \<open>The workers\<close>

text \<open>
  The steps of a process with UDP workers, together with what they are to the network server:
  a registration, the datagrams a socket event takes in, a task taken or carried out by a worker.
\<close>

abbreviation server :: "rtsp_service \<Rightarrow> nat network_server option" where
  "server s \<equiv> mpNetworkServer (mpRtpProducer s)"

fun arrived1 :: "'f ns_event \<Rightarrow> datagram list" where
  "arrived1 (Recv d t) = [d]" | "arrived1 _ = []"

abbreviation arrived :: "'f ns_event list \<Rightarrow> datagram list" where
  "arrived evs \<equiv> concat (map arrived1 evs)"

inductive net_step :: "mm_state \<Rightarrow> (string \<Rightarrow> nat) \<Rightarrow> rtsp_service \<Rightarrow> nat ns_event list \<Rightarrow> svc_out list \<Rightarrow>
    rtsp_service \<Rightarrow> bool" for mm hash where
  same: "svc_step mm True s outs s' \<Longrightarrow> server s' = server s \<Longrightarrow> net_step mm hash s [] outs s'"
| reg: "svc_step mm True s outs s' \<Longrightarrow> server s = Some ns \<Longrightarrow> registerPeer mm nm j ns = Inr ns' \<Longrightarrow>
    server s' = Some ns' \<Longrightarrow> net_step mm hash s [Reg nm j] outs s'"
| socket: "udp_event demux enc hash queue s = Inr (s', rest, outs) \<Longrightarrow> server s = Some ns \<Longrightarrow> server s' = Some ns' \<Longrightarrow>
    ns_run hash mm ns evs ns' \<Longrightarrow> arrived evs = queue \<Longrightarrow> executed evs = [] \<Longrightarrow> net_step mm hash s evs outs s'"
| worker_start: "server s = Some ns \<Longrightarrow> k < length (mpUdpWorkerThreads ns) \<Longrightarrow>
    pool_step (mpUdpWorkerThreads ns ! k) (Started i t) q \<Longrightarrow>
    net_step mm hash s [Start k t] [] (set_server (set_pool k q ns) s)"
| worker_exec: "server s = Some ns \<Longrightarrow> k < length (mpUdpWorkerThreads ns) \<Longrightarrow>
    pool_step (mpUdpWorkerThreads ns ! k) (Done i t) q \<Longrightarrow>
    nouts = (case process_packet t ns of None \<Rightarrow> [] | Some nouts \<Rightarrow> nouts) \<Longrightarrow>
    deliver demux enc 0 nouts (set_server (set_pool k q ns) s) = Inr (s', outs) \<Longrightarrow>
    net_step mm hash s [Exec k t nouts] outs s'"

inductive net_run :: "mm_state \<Rightarrow> (string \<Rightarrow> nat) \<Rightarrow> rtsp_service \<Rightarrow> nat ns_event list \<Rightarrow> svc_out list \<Rightarrow>
    rtsp_service \<Rightarrow> bool" for mm hash s0 where
  start: "net_run mm hash s0 [] [] s0"
| more: "net_run mm hash s0 evs tr s \<Longrightarrow> net_step mm hash s evs' outs s' \<Longrightarrow> net_run mm hash s0 (evs @ evs') (tr @ outs) s'"

lemma ns_run_trans: "ns_run hash mm s1 evs' s2 \<Longrightarrow> ns_run hash mm s0 evs s1 \<Longrightarrow> ns_run hash mm s0 (evs @ evs') s2"
proof (induction rule: ns_run.induct)
  case (more evs' s1 ev s2)
  from ns_run.more [OF more.IH [OF more.prems] more.hyps(2)] show ?case by simp
qed simp

lemma ns_run_one: "ns_step hash mm s ev s' \<Longrightarrow> ns_run hash mm s [ev] s'"
  using ns_run.more [OF ns_run.none] by fastforce

lemma udp_loop_events:
  "udp_loop hash ds s = Inr (s', rest, outs) \<Longrightarrow> mpUdpWorkerThreads s \<noteq> [] \<Longrightarrow>
   \<exists>evs. ns_run hash mm s evs s' \<and> arrived evs = ds \<and> executed evs = []"
proof (induction ds arbitrary: s outs)
  case Nil
  then obtain q where "take_slot s = Inr (q, s')" by (auto simp: res_bind_Inr_iff)
  then show ?case by (intro exI [of _ "[Again]"]) (auto intro: ns_run_one ns_step.again)
next
  case (Cons d ds)
  then obtain t s1 where 1: "recv_packet d s = Inr (t, s1)" by (auto simp: res_bind_Inr_iff)
  with Cons.prems(2) recv_packet_pools [OF this] Cons.prems(1) obtain s2 where
    2: "submit_to (worker_index hash (from_peer t) s1) t s1 = Inr s2" "udp_loop hash ds s2 = Inr (s', rest, outs)"
    by (auto simp: res_bind_Inr_iff)
  have "mpUdpWorkerThreads s2 \<noteq> []"
    using 2(1) Cons.prems(2) recv_packet_pools [OF 1] by (auto simp: submit_to_def res_bind_Inr_iff)
  from Cons.IH [OF 2(2) this] obtain evs where "ns_run hash mm s2 evs s'" "arrived evs = ds" "executed evs = []" by blast
  moreover have "ns_run hash mm s [Recv d t] s2"
    by (rule ns_run_one [OF ns_step.recv [OF Cons.prems(2) 1 2(1)]])
  ultimately show ?case
    by (intro exI [of _ "[Recv d t] @ evs"]) (auto dest: ns_run_trans)
qed

lemma deliver_server: "deliver demux enc n nouts s = Inr (s', outs) \<Longrightarrow> tidy s \<Longrightarrow> svc_ok s \<Longrightarrow> server s' = server s"
  using deliver_keeps by fastforce

text \<open>Every step is such a step.\<close>

lemma sys_step_net:
  assumes "sys_step mm hash s outs s'" "sys_ok C w s" "0 < w"
  shows "\<exists>evs. net_step mm hash s evs outs s'"
  using assms(1)
proof cases
  case service
  then show ?thesis
  proof (cases rule: svc_step_server)
    case 1
    with net_step.same [OF service] show ?thesis by blast
  next
    case (2 n j ns ns')
    with net_step.reg [OF service] show ?thesis by blast
  qed
next
  case (socket demux enc queue rest)
  then obtain ns ns' rest' nouts where ns: "server s = Some ns" "udp_loop hash queue ns = Inr (ns', rest', nouts)"
    and d: "deliver demux enc 0 nouts (set_server ns' s) = Inr (s', outs)"
    by (auto simp: udp_event_def deref_def res_bind_Inr_iff split: option.splits)
  have "server s' = Some ns'" using deliver_server [OF d] assms(2) by (simp add: sys_ok_def)
  moreover have "mpUdpWorkerThreads ns \<noteq> []" using assms(2,3) ns(1) by (auto simp: sys_ok_def net_ok_def)
  ultimately show ?thesis
    using udp_loop_events [OF ns(2)] net_step.socket [OF socket ns(1)] by metis
next
  case (worker_start ns k i t q)
  with net_step.worker_start [OF worker_start(3-5)] show ?thesis by blast
next
  case (worker_exec ns k i t q demux enc)
  with net_step.worker_exec [OF worker_exec(1-3) refl] show ?thesis by blast
qed

lemma sys_run_net:
  assumes "sys_run mm hash s0 tr s" "sys_ok C w s0" "0 < w"
  shows "\<exists>evs. net_run mm hash s0 evs tr s"
  using assms(1)
proof (induction rule: sys_run.induct)
  case start
  show ?case using net_run.start by blast
next
  case (more tr s outs s')
  with sys_step_net [OF more.hyps(2) sys_run_ok [OF more.hyps(1) assms(2)] assms(3)] net_run.more show ?case by blast
qed

lemma net_step_sys: "net_step mm hash s evs outs s' \<Longrightarrow> sys_step mm hash s outs s'"
  by (induction rule: net_step.induct) (auto intro: sys_step.intros)

lemma net_run_sys: "net_run mm hash s0 evs tr s \<Longrightarrow> sys_run mm hash s0 tr s"
  by (induction rule: net_run.induct) (auto intro: sys_run.intros net_step_sys)

text \<open>To the network server a run of the process is a run of its own.\<close>

lemma net_step_ns:
  assumes "net_step mm hash s evs outs s'" "server s = Some ns" "sys_ok C w s"
  shows "\<exists>ns'. server s' = Some ns' \<and> ns_run hash mm ns evs ns'"
  using assms(1)
proof cases
  case same
  with assms(2) show ?thesis by (auto intro: ns_run.none)
next
  case (reg ns nm j ns')
  with assms(2) show ?thesis by (auto intro: ns_run_one ns_step.reg)
next
  case (socket demux enc queue rest ns ns')
  with assms(2) show ?thesis by auto
next
  case (worker_start ns k i t q)
  with assms(2) ns_step.start [OF worker_start(5,6)] show ?thesis by (auto intro: ns_run_one simp: set_pool_def)
next
  case (worker_exec ns' k i t q nouts demux enc)
  have "sys_ok C w (set_server (set_pool k q ns') s)"
    by (rule set_pool_ok [OF assms(3) worker_exec(2-4)]) simp
  then have "server s' = Some (set_pool k q ns')"
    using deliver_server [OF worker_exec(6)] by (simp add: sys_ok_def)
  with assms(2) worker_exec ns_step.exec [OF worker_exec(3,4,5)] show ?thesis
    by (auto intro: ns_run_one simp: set_pool_def)
qed

lemma net_run_ns:
  assumes "net_run mm hash s0 evs tr s" "server s0 = Some ns0" "sys_ok C w s0"
  shows "\<exists>ns. server s = Some ns \<and> ns_run hash mm ns0 evs ns"
  using assms(1)
proof (induction rule: net_run.induct)
  case start
  show ?case using assms(2) ns_run.none by blast
next
  case (more evs tr s evs' outs s')
  from more.IH obtain ns where ns: "server s = Some ns" "ns_run hash mm ns0 evs ns" by blast
  from net_step_ns [OF more.hyps(2) ns(1) sys_run_ok [OF net_run_sys [OF more.hyps(1)] assms(3)]] ns_run_trans ns(2)
  show ?case by blast
qed

section \<open>The process of the examples\<close>

definition demo_env :: ffvms_env where
  "demo_env = \<lparr>env_concurrency = 4, env_udp = (\<lambda>_. syscalls_ok), env_file_pthreads = 0,
     env_file = (\<lambda>_. \<lparr>fl_event_base_new = True, fl_event_new = True, fl_event_add = 0\<rparr>), env_rtsp_pthreads = 0,
     env_rtsp = (\<lambda>_. \<lparr>rl_event_base_new = True, rl_listener_new = True\<rparr>)\<rparr>"

definition demo_cfg :: ffvms_config where
  "demo_cfg = \<lparr>cfg_metrics_manager = \<lparr>exposer_port = 8844, family_prefix = ''ffvms'', endpoint_uri = ''''\<rparr>,
     cfg_network_server = \<lparr>port = 8086, event_loop_num = 1, async_worker_num = 0\<rparr>,
     cfg_rtp_producer = demo_config, cfg_rtsp_service = \<lparr>rtsp_port = 8554, event_thread_num = 0\<rparr>\<rparr>"

lemma demo_main: "ffvms_main demo_env True (Some demo_cfg) = Inr (demo_mm, demo_svc)"
proof -
  have "UdpEventLoop_Init syscalls_ok = Inr ()" by (simp add: UdpEventLoop_Init_def syscalls_ok_def)
  then have "initUdpServer (\<lambda>_. syscalls_ok) 4 \<lparr>port = 8086, event_loop_num = 1, async_worker_num = 0\<rparr> NetworkServer = Inr demo_ns"
    by (simp add: initUdpServer_def startUdpEventLoop_def int32_def in_int32_def demo_ns_def NetworkServer_def)
  then show ?thesis
    using demo_Init demo_svc_Init
    by (simp add: ffvms_main_def demo_env_def demo_cfg_def Let_def demo_mm_def mm_up_def)
qed

lemma demo_loops: "0 < loops demo_env demo_cfg" "workers demo_env demo_cfg = 0"
  by (simp_all add: loops_def workers_def demo_cfg_def)

section \<open>A process with a worker\<close>

text \<open>The session of the examples in a process with one UDP worker, up to the task in the worker's hand.\<close>

definition demo_ns1 :: "nat network_server" where
  "demo_ns1 = demo_ns\<lparr>mpUdpWorkerThreads := [ThreadPool 1]\<rparr>"

definition demo_cfg1 :: ffvms_config where
  "demo_cfg1 = demo_cfg\<lparr>cfg_network_server := \<lparr>port = 8086, event_loop_num = 1, async_worker_num = 1\<rparr>\<rparr>"

definition demo_ns2 :: "nat network_server" where
  "demo_ns2 = reg_peer demo_mm ''10.0.0.9:5000'' 0 demo_ns1"

definition demo_datagram :: datagram where
  "demo_datagram = \<lparr>sender = \<lparr>sin_addr = (10, 0, 0, 9), sin_port = 0x8813\<rparr>, payload = [128, 65, 66]\<rparr>"

definition demo_task :: udp_task where
  "demo_task = \<lparr>data = (0, 0), len = 3, from_peer = ''10.0.0.9:5000''\<rparr>"

lemma demo_main1: "ffvms_main demo_env True (Some demo_cfg1) = Inr (demo_mm, set_server demo_ns1 demo_svc)"
proof -
  have "UdpEventLoop_Init syscalls_ok = Inr ()" by (simp add: UdpEventLoop_Init_def syscalls_ok_def)
  then have "initUdpServer (\<lambda>_. syscalls_ok) 4 \<lparr>port = 8086, event_loop_num = 1, async_worker_num = 1\<rparr> NetworkServer = Inr demo_ns1"
    by (simp add: initUdpServer_def startUdpEventLoop_def int32_def in_int32_def demo_ns1_def demo_ns_def NetworkServer_def)
  then show ?thesis
    by (simp add: ffvms_main_def demo_env_def demo_cfg1_def demo_cfg_def Let_def demo_mm_def mm_up_def RtpProducer_Init_def
        demo_prod_defs RtspService_Init_def demo_svc_def set_server_def RtspService_def)
qed

lemma demo_loops1: "0 < loops demo_env demo_cfg1" "0 < workers demo_env demo_cfg1" "slots demo_env demo_cfg1 = 13107"
  by (simp_all add: loops_def workers_def slots_def demo_cfg1_def)

lemma demo_accept1: "accept_conn_cb 0 (Some 5) (set_server demo_ns1 demo_svc) = Inr (set_server demo_ns1 demo_open)"
  by (simp add: accept_conn_cb_def demo_open_def demo_svc_def RtspService_def set_server_def)

lemma demo_options1:
  "readcb demo_mm demo_al 5 (Some [OPTIONS demo_url]) (set_server demo_ns1 demo_open) =
     Inr (set_server demo_ns1 demo_known, [Reply_options 0 200])"
  by (simp add: readcb_def OnOptions_def demo_url_video Let_def demo_known_def put_proxy_def demo_svc_defs set_server_def)

lemma demo_register2:
  "RegisterVideo demo_mm (Null, Null) demo_camera 1 1 1 (demo_producer\<lparr>mpNetworkServer := Some demo_ns1\<rparr>) =
     Inr (demo_producer\<lparr>mpNetworkServer := Some demo_ns1, mRtpVideoContextMap := [(demo_camera, demo_cam_ctx)], next_ctx := 1\<rparr>,
       [Rpc (InviteVideo 0 ''demo1'' ''10.0.0.2:8086'' UDP 3000)])"
  using demo_cam
  by (simp add: RegisterVideo_def demo_producer_def RtpProducer_def deref_def demo_config_def)
    (simp add: demo_camera_def VideoRequest_def)

lemma demo_describe1:
  "readcb demo_mm demo_al 5 (Some [DESCRIBE demo_url]) (set_server demo_ns1 demo_known) =
     Inr (set_server demo_ns1 demo_waiting, [Producer (Rpc (InviteVideo 0 ''demo1'' ''10.0.0.2:8086'' UDP 3000))])"
  using demo_register2
  by (simp add: readcb_def OnDescribe_def demo_url_video Let_def demo_known_def demo_waiting_def put_proxy_def
      with_producer_def pset_erase_def demo_svc_defs set_server_def)

lemma demo_reg1: "registerPeer demo_mm ''10.0.0.9:5000'' 0 demo_ns1 = Inr demo_ns2"
  unfolding demo_ns2_def demo_mm_def by (rule registerPeer_ready [OF mm_up_instance])

lemma demo_invite1:
  "on_invite_reply demo_mm lib_ok 0 True demo_reply (mpRtpProducer (set_server demo_ns1 demo_waiting)) =
     Inr (mpRtpProducer (set_server demo_ns2 demo_ready), [Sdp 1 demo_sdp, Rpc (SendAck ''inv1'')])"
  by (simp add: on_invite_reply_def lock_ctx_def demo_waiting_def demo_reply_def deref_def int32_def in_int32_def
      lib_ok_def demo_reg1 demo_producer_def demo_config_def RtpProducer_def demo_ready_def put_ctx_def demo_sdp_def set_server_def)
    (simp add: demo_camera_def VideoRequest_def)

lemma demo_sdp_step1:
  "callbacks [Sdp 1 demo_sdp, Rpc (SendAck ''inv1'')]
     ((set_server demo_ns1 demo_waiting)\<lparr>mpRtpProducer := mpRtpProducer (set_server demo_ns2 demo_ready)\<rparr>) =
     Inr (set_server demo_ns2 demo_ready, [Reply_describe 0 200 demo_sdp, Producer (Rpc (SendAck ''inv1''))])"
  by (simp add: processSdpFunction_def proxy_at_def es_alive_def put_proxy_def demo_waiting_def demo_ready_def
      pset_insert_def insort_insert_key_def demo_svc_defs set_server_def)

lemma demo_play1:
  "readcb demo_mm demo_al 5 (Some [PLAY demo_url]) (set_server demo_ns2 demo_ready) =
     Inr (set_server demo_ns2 demo_playing, [Reply_play 0 200])"
  by (simp add: readcb_def OnPlay_def demo_url_video Let_def demo_ready_def demo_playing_def put_proxy_def
      pset_erase_def pset_insert_def insort_insert_key_def demo_svc_defs set_server_def)


lemma polite_server: "polite_all mm al es [r] (set_server ns s) \<longleftrightarrow> polite s es r"
  by (auto simp: polite_def places_def split: sum.splits request.splits)

lemma demo_polite1: "polite demo_open 0 (OPTIONS demo_url)" "polite demo_known 0 (DESCRIBE demo_url)" "polite demo_ready 0 (PLAY demo_url)"
  using demo_polite by (simp_all add: polite_def)

lemma demo_run_playing1:
  "\<exists>tr. net_run demo_mm (\<lambda>_. 0) (set_server demo_ns1 demo_svc) [Reg ''10.0.0.9:5000'' 0] tr (set_server demo_ns2 demo_playing)"
proof -
  have bev: "mBev2RtspServer (set_server ns demo_open) = [(5, 0)]" "mBev2RtspServer (set_server ns demo_known) = [(5, 0)]"
    "mBev2RtspServer (set_server ns demo_ready) = [(5, 0)]" for ns
    by (simp_all add: demo_known_def demo_ready_def demo_open_def set_server_def)
  note polite = polite_server [THEN iffD2, OF demo_polite1(1)] polite_server [THEN iffD2, OF demo_polite1(2)]
    polite_server [THEN iffD2, OF demo_polite1(3)]
  note r1 = net_run.more [OF net_run.start net_step.same [OF svc_step.accept [OF demo_accept1]]]
  note r2 = net_run.more [OF r1 net_step.same [OF demo_read [OF demo_options1 bev(1) polite(1)]]]
  note r3 = net_run.more [OF r2 net_step.same [OF demo_read [OF demo_describe1 bev(2) polite(2)]]]
  note r4 = net_run.more [OF r3 net_step.reg [OF svc_step.produce [OF prod_step.invite [OF demo_invite1] demo_sdp_step1] _ demo_reg1]]
  note r5 = net_run.more [OF r4 net_step.same [OF demo_read [OF demo_play1 bev(3) polite(3)]]]
  from r5 show ?thesis by auto
qed

lemma demo_ns2_facts:
  "ring_at 13107 0 demo_ns2" "mpUdpWorkerThreads demo_ns2 = [ThreadPool 1]" "peers_look demo_ns2 ''10.0.0.9:5000'' = Some 0"
proof -
  have "ring_at 13107 0 demo_ns1" by (simp add: ring_at_def demo_ns1_def demo_ns_def NetworkServer_def)
  then show "ring_at 13107 0 demo_ns2" "mpUdpWorkerThreads demo_ns2 = [ThreadPool 1]"
    using registerPeer_ring [OF demo_reg1] by (simp_all add: demo_ns1_def)
  have "peers_ok demo_ns1" "peers_look demo_ns1 n = None" for n
    by (simp_all add: peers_ok_def peers_look_def demo_ns1_def demo_ns_def NetworkServer_def)
  then show "peers_look demo_ns2 ''10.0.0.9:5000'' = Some 0"
    by (simp add: demo_ns2_def demo_mm_def peers.look_reg)
qed

lemma demo_sender: "peer_name (sender demo_datagram) = ''10.0.0.9:5000''" "stored demo_datagram = [128, 65, 66]"
proof -
  show "peer_name (sender demo_datagram) = ''10.0.0.9:5000''"
    by (simp add: demo_datagram_def peer_name_def inet_ntoa_def htons_def fmt_nat.simps) code_simp
  show "stored demo_datagram = [128, 65, 66]" by (simp add: demo_datagram_def stored_def)
qed

text \<open>The server when the datagram has come in and the worker has taken it.\<close>

lemma demo_received:
  obtains ns where "udp_loop (\<lambda>_. 0) [demo_datagram] demo_ns2 = Inr (ns, [], [])"
    "ns_run (\<lambda>_. 0) mm demo_ns2 [Recv demo_datagram demo_task, Again] ns"
    "mpUdpWorkerThreads ns = [(ThreadPool 1)\<lparr>mTasks := [demo_task]\<rparr>]" "mRegisteredPeers ns = mRegisteredPeers demo_ns2"
proof -
  have task: "\<lparr>data = slot_of 13107 0, len = length (stored demo_datagram), from_peer = peer_name (sender demo_datagram)\<rparr> = demo_task"
    by (simp add: demo_task_def demo_sender)
  from recv_packet_ring [OF demo_ns2_facts(1), of demo_datagram, unfolded task] obtain s1 where
    s1: "recv_packet demo_datagram demo_ns2 = Inr (demo_task, s1)" "ring_at 13107 1 s1"
      "mpUdpWorkerThreads s1 = [ThreadPool 1]" "mRegisteredPeers s1 = mRegisteredPeers demo_ns2"
    using demo_ns2_facts(2) by auto
  let ?s2 = "s1\<lparr>mpUdpWorkerThreads := [(ThreadPool 1)\<lparr>mTasks := [demo_task]\<rparr>]\<rparr>"
  have submit: "submit_to (worker_index (\<lambda>_. 0) (from_peer demo_task) s1) demo_task s1 = Inr ?s2"
    by (simp add: submit_to_def worker_index_def submit_def s1(3) ThreadPool_def)
  have "ring_at 13107 1 ?s2" using s1(2) by (simp add: ring_at_def)
  then obtain q s3 where s3: "take_slot ?s2 = Inr (q, s3)" "mpUdpWorkerThreads s3 = mpUdpWorkerThreads ?s2"
      "mRegisteredPeers s3 = mRegisteredPeers ?s2"
    using take_slot_ring(1) [of 13107 1 ?s2] by auto
  have "ns_step (\<lambda>_. 0) mm demo_ns2 (Recv demo_datagram demo_task) ?s2"
    by (rule ns_step.recv [OF _ s1(1) submit]) (simp add: demo_ns2_facts(2))
  from ns_run.more [OF ns_run_one [OF this] ns_step.again [OF s3(1)]]
  have "ns_run (\<lambda>_. 0) mm demo_ns2 [Recv demo_datagram demo_task, Again] s3" by simp
  then show thesis
    using that [of s3] s1 s3 submit by simp
qed

lemma demo_run_task:
  "\<exists>tr ns q. net_run demo_mm (\<lambda>_. 0) (set_server demo_ns1 demo_svc)
       [Reg ''10.0.0.9:5000'' 0, Recv demo_datagram demo_task, Again, Start 0 demo_task] tr (set_server ns demo_playing) \<and>
     length (mpUdpWorkerThreads ns) = 1 \<and> pool_step (mpUdpWorkerThreads ns ! 0) (Done 0 demo_task) q \<and>
     mRegisteredPeers ns = mRegisteredPeers demo_ns2"
proof -
  obtain tr where r: "net_run demo_mm (\<lambda>_. 0) (set_server demo_ns1 demo_svc) [Reg ''10.0.0.9:5000'' 0] tr (set_server demo_ns2 demo_playing)"
    using demo_run_playing1 by blast
  obtain ns where ns: "udp_loop (\<lambda>_. 0) [demo_datagram] demo_ns2 = Inr (ns, [], [])"
    "ns_run (\<lambda>_. 0) demo_mm demo_ns2 [Recv demo_datagram demo_task, Again] ns"
    "mpUdpWorkerThreads ns = [(ThreadPool 1)\<lparr>mTasks := [demo_task]\<rparr>]" "mRegisteredPeers ns = mRegisteredPeers demo_ns2"
    by (rule demo_received)
  let ?p = "(ThreadPool 1)\<lparr>mTasks := [demo_task]\<rparr> :: udp_task thread_pool"
  have again: "set_server m (set_server n s) = set_server m s" for m n s by (simp add: set_server_def)
  have "udp_event demux enc (\<lambda>_. 0) [demo_datagram] (set_server demo_ns2 demo_playing) = Inr (set_server ns demo_playing, [], [])" for demux enc
    using ns(1) by (simp add: udp_event_def deref_def again del: udp_loop.simps)
  then have "net_step demo_mm (\<lambda>_. 0) (set_server demo_ns2 demo_playing) [Recv demo_datagram demo_task, Again] [] (set_server ns demo_playing)"
    by (rule net_step.socket [OF _ _ _ ns(2)]) simp_all
  from net_run.more [OF r this]
  have r6: "net_run demo_mm (\<lambda>_. 0) (set_server demo_ns1 demo_svc) [Reg ''10.0.0.9:5000'' 0, Recv demo_datagram demo_task, Again] tr
      (set_server ns demo_playing)" by simp
  have start: "pool_step ?p (Started 0 demo_task) (worker_wake 0 ?p)"
    using pool_step.start [of 0 ?p] by (simp add: ThreadPool_def wait_pred_def)
  have "net_step demo_mm (\<lambda>_. 0) (set_server ns demo_playing) [Start 0 demo_task] []
      (set_server (set_pool 0 (worker_wake 0 ?p) ns) (set_server ns demo_playing))"
    by (rule net_step.worker_start [of _ ns]) (use start in \<open>simp_all add: ns(3)\<close>)
  from net_run.more [OF r6 this] have r7: "net_run demo_mm (\<lambda>_. 0) (set_server demo_ns1 demo_svc)
      [Reg ''10.0.0.9:5000'' 0, Recv demo_datagram demo_task, Again, Start 0 demo_task] tr
      (set_server (set_pool 0 (worker_wake 0 ?p) ns) demo_playing)" by (simp add: again)
  have "pool_step (worker_wake 0 ?p) (Done 0 demo_task) (worker_done 0 (worker_wake 0 ?p))"
    by (rule pool_step.finish) (simp_all add: worker_wake_def ThreadPool_def)
  with r7 show ?thesis
    by (intro exI [of _ tr] exI [of _ "set_pool 0 (worker_wake 0 ?p) ns"] exI conjI) (simp_all add: set_pool_def ns(3,4))
qed


end
