(* ===== verification/Shutdown.thy ===== *)
theory Shutdown
  imports Ffvms_Main
begin

text \<open>
  The end of the process: the destructors of \<open>NetworkServer\<close>, \<open>RtpProducer\<close> and \<open>RtspService\<close>, which run
  when \<open>main\<close> returns. A destructor runs its body and then destroys the members, the last declared
  first; destroying a member may join threads or run code of its own. Meanwhile the threads that
  are not joined yet go on. Here is which of them may follow a member that is already destroyed.
\<close>

section \<open>Threads, members and destructors\<close>

datatype thread_id = Udp_loop nat | Udp_worker nat | File_loop nat | File_worker nat | Grpc_thread nat | Rtsp_loop nat

text \<open>The members of the three classes that threads share, in the order of their declaration.\<close>

datatype member =
    UdpWorkers | UdpWorkerThreads | BufferMutex | ReceiveBuffers | ServerMutex | RegisteredPeers
  | FileThreads | FileIoBases | FileKeepAliveEvents | FileIoThreadPool | FileVideoContextMap | FileContextMutex
  | RtpVideoContextMap | RtpContextMutex | Stub | GrpcClient | NetworkServerPtr
  | EventLoopThreads | EventBases | EventListeners | RtspHandler | RtpProducerPtr | RtspServerMutex | Bev2RtspServer
  | ProxyInfoMutex | VideoRequest2ProxyInfo

definition NetworkServer_members :: "member list" where
  "NetworkServer_members = [UdpWorkers, UdpWorkerThreads, BufferMutex, ReceiveBuffers, ServerMutex, RegisteredPeers]"

definition RtpProducer_members :: "member list" where
  "RtpProducer_members = [FileThreads, FileIoBases, FileKeepAliveEvents, FileIoThreadPool, FileVideoContextMap,
     FileContextMutex, RtpVideoContextMap, RtpContextMutex, Stub, GrpcClient, NetworkServerPtr]"

definition RtspService_members :: "member list" where
  "RtspService_members = [EventLoopThreads, EventBases, EventListeners, RtspHandler, RtpProducerPtr, RtspServerMutex,
     Bev2RtspServer, ProxyInfoMutex, VideoRequest2ProxyInfo]"

text \<open>What a destructor does, as far as it concerns other threads. \<open>Use\<close>: its own code follows a member.\<close>

datatype teardown = Event_delete thread_id | Break_loop thread_id | Join_thread thread_id | Close_fd nat | Use member | Free member

definition UdpEventLoop_dtor :: "nat \<Rightarrow> teardown list" where
  "UdpEventLoop_dtor i = [Event_delete (Udp_loop i), Break_loop (Udp_loop i), Join_thread (Udp_loop i), Close_fd i]"

text \<open>
  \<open>~NetworkServer\<close> has an empty body (its loop holds only a TODO). Its pools have one thread each, which
  the destructor of the pool joins.
\<close>

fun NetworkServer_destroy :: "'f network_server \<Rightarrow> member \<Rightarrow> teardown list" where
  "NetworkServer_destroy ns UdpWorkers = concat (map UdpEventLoop_dtor [0..<mpUdpWorkers ns]) @ [Free UdpWorkers]"
| "NetworkServer_destroy ns UdpWorkerThreads =
     map (\<lambda>k. Join_thread (Udp_worker k)) [0..<length (mpUdpWorkerThreads ns)] @ [Free UdpWorkerThreads]"
| "NetworkServer_destroy ns m = [Free m]"

definition NetworkServer_dtor :: "'f network_server \<Rightarrow> teardown list" where
  "NetworkServer_dtor ns = concat (map (NetworkServer_destroy ns) (rev NetworkServer_members))"

fun on_thread :: "(nat \<Rightarrow> thread_id) \<Rightarrow> dtor_action \<Rightarrow> teardown" where
  "on_thread mk (Event_del i) = Event_delete (mk i)"
| "on_thread mk (Loopbreak i) = Break_loop (mk i)"
| "on_thread mk (Join i) = Join_thread (mk i)"

text \<open>
  \<open>~RtpProducer\<close>: the body stops the file loops; destroying the client joins its \<open>g\<close> threads, destroying
  the pool its \<open>n\<close>.
\<close>

fun RtpProducer_destroy :: "nat \<Rightarrow> nat \<Rightarrow> member \<Rightarrow> teardown list" where
  "RtpProducer_destroy g n GrpcClient = map (\<lambda>i. Join_thread (Grpc_thread i)) [0..<g] @ [Free GrpcClient]"
| "RtpProducer_destroy g n FileIoThreadPool = map (\<lambda>i. Join_thread (File_worker i)) [0..<n] @ [Free FileIoThreadPool]"
| "RtpProducer_destroy g n m = [Free m]"

definition RtpProducer_teardown :: "nat \<Rightarrow> 'cb rtp_producer \<Rightarrow> teardown list" where
  "RtpProducer_teardown g p = map (on_thread File_loop) (RtpProducer_dtor p) @
     concat (map (RtpProducer_destroy g (case mpFileIoThreadPool p of None \<Rightarrow> 0 | Some q \<Rightarrow> length (mWorks q)))
       (rev RtpProducer_members))"

text \<open>
  \<open>~RtspService\<close>: the body stops the event loops; destroying the \<open>c\<close> connections calls \<open>Close\<close> for each
  (if \<open>rtsp_server_destroy\<close> does), which takes the mutex of the proxies and searches them.
\<close>

fun RtspService_destroy :: "nat \<Rightarrow> member \<Rightarrow> teardown list" where
  "RtspService_destroy c Bev2RtspServer =
     concat (replicate c [Use ProxyInfoMutex, Use VideoRequest2ProxyInfo]) @ [Free Bev2RtspServer]"
| "RtspService_destroy c m = [Free m]"

definition RtspService_teardown :: "bool \<Rightarrow> rtsp_service \<Rightarrow> teardown list" where
  "RtspService_teardown calls_close s = map (on_thread Rtsp_loop) (RtspService_dtor s) @
     concat (map (RtspService_destroy (if calls_close then length (mBev2RtspServer s) else 0)) (rev RtspService_members))"

text \<open>If \<open>Dispatch\<close> returns, so does \<open>main\<close>, and its local variables are destroyed in reverse order.\<close>

definition main_exit :: "nat \<Rightarrow> bool \<Rightarrow> rtsp_service \<Rightarrow> teardown list option" where
  "main_exit g calls_close s =
     (if \<not> Dispatch_returns s then None
      else Some (RtspService_teardown calls_close s @ RtpProducer_teardown g (mpRtpProducer s) @
        (case server s of None \<Rightarrow> [] | Some ns \<Rightarrow> NetworkServer_dtor ns)))"

section \<open>Running on\<close>

text \<open>
  The members the code of a thread follows: the callback of a socket event, a task of a UDP worker,
  the timer of a file, a probe, the answer to an invite, and the RTSP handlers.
\<close>

fun follows_members :: "thread_id \<Rightarrow> member set" where
  "follows_members (Udp_loop i) = {UdpWorkerThreads, BufferMutex, ReceiveBuffers, ServerMutex, RegisteredPeers}"
| "follows_members (Udp_worker k) = {ReceiveBuffers, ServerMutex, RegisteredPeers}"
| "follows_members (File_loop i) = {FileVideoContextMap}"
| "follows_members (File_worker i) = {FileIoBases, FileVideoContextMap, FileContextMutex}"
| "follows_members (Grpc_thread i) = {RtpVideoContextMap, RtpContextMutex, Stub, GrpcClient, NetworkServerPtr}"
| "follows_members (Rtsp_loop i) = {RtpProducerPtr, RtspServerMutex, Bev2RtspServer, ProxyInfoMutex, VideoRequest2ProxyInfo}"

record shutdown =
  pending :: "teardown list"
  live :: "thread_id set"
  freed :: "member set"

fun carry_out :: "teardown \<Rightarrow> shutdown \<Rightarrow> shutdown" where
  "carry_out (Join_thread t) d = d\<lparr>live := live d - {t}\<rparr>"
| "carry_out (Free m) d = d\<lparr>freed := insert m (freed d)\<rparr>"
| "carry_out _ d = d"

inductive shut_step :: "shutdown \<Rightarrow> shutdown \<Rightarrow> bool" where
  destroy: "pending d = a # as \<Longrightarrow> shut_step d (carry_out a (d\<lparr>pending := as\<rparr>))"
| access: "t \<in> live d \<Longrightarrow> m \<in> follows_members t \<Longrightarrow> m \<notin> freed d \<Longrightarrow> shut_step d d"

text \<open>A member that is gone is about to be followed, by a thread or by the destructor itself.\<close>

definition dangling :: "shutdown \<Rightarrow> bool" where
  "dangling d \<longleftrightarrow> (\<exists>t \<in> live d. follows_members t \<inter> freed d \<noteq> {}) \<or>
     (case pending d of Use m # _ \<Rightarrow> m \<in> freed d | _ \<Rightarrow> False)"

definition hazardous :: "teardown list \<Rightarrow> thread_id set \<Rightarrow> bool" where
  "hazardous acts ts \<longleftrightarrow> (\<exists>d. shut_step\<^sup>*\<^sup>* \<lparr>pending = acts, live = ts, freed = {}\<rparr> d \<and> dangling d)"

text \<open>The states a destructor goes through, and whether none of them is dangling.\<close>

function clean :: "shutdown \<Rightarrow> bool" where
  "clean d \<longleftrightarrow> \<not> dangling d \<and> (case pending d of [] \<Rightarrow> True | a # as \<Rightarrow> clean (carry_out a (d\<lparr>pending := as\<rparr>)))"
  by pat_completeness auto
termination
proof (relation "measure (\<lambda>d. length (pending d))", goal_cases)
  case (2 d a as)
  then show ?case by (cases a) simp_all
qed simp

declare clean.simps [simp del]

lemma clean_step: "shut_step d d' \<Longrightarrow> clean d \<Longrightarrow> clean d'"
  by (induction rule: shut_step.induct) (simp_all add: clean.simps [of d for d])

lemma not_clean: "\<not> clean d \<Longrightarrow> \<exists>d'. shut_step\<^sup>*\<^sup>* d d' \<and> dangling d'"
proof (induction d rule: clean.induct)
  case (1 d)
  show ?case
  proof (cases "dangling d")
    case False
    then obtain a as where p: "pending d = a # as" "\<not> clean (carry_out a (d\<lparr>pending := as\<rparr>))"
      using "1.prems" by (simp add: clean.simps [of d] split: list.splits)
    with "1.IH" False obtain d' where "shut_step\<^sup>*\<^sup>* (carry_out a (d\<lparr>pending := as\<rparr>)) d'" "dangling d'" by blast
    with shut_step.destroy [OF p(1)] show ?thesis by (meson converse_rtranclp_into_rtranclp)
  qed blast
qed

lemma hazardous_iff: "hazardous acts ts \<longleftrightarrow> \<not> clean \<lparr>pending = acts, live = ts, freed = {}\<rparr>"
proof
  assume "hazardous acts ts"
  then obtain d where "shut_step\<^sup>*\<^sup>* \<lparr>pending = acts, live = ts, freed = {}\<rparr> d" "dangling d"
    unfolding hazardous_def by blast
  moreover have "clean d" if "shut_step\<^sup>*\<^sup>* d0 d" "clean d0" for d0 d
    using that by induction (auto intro: clean_step)
  moreover have "\<not> clean d" using \<open>dangling d\<close> by (simp add: clean.simps [of d])
  ultimately show "\<not> clean \<lparr>pending = acts, live = ts, freed = {}\<rparr>" by blast
qed (use not_clean in \<open>auto simp: hazardous_def\<close>)

section \<open>What each destructor leaves running\<close>

definition joined :: "teardown list \<Rightarrow> thread_id set" where
  "joined acts = {t. Join_thread t \<in> set acts}"

definition freed_by :: "teardown list \<Rightarrow> member set" where
  "freed_by acts = {m. Free m \<in> set acts}"

lemma joined_simps [simp]:
  "joined [] = {}" "joined (xs @ ys) = joined xs \<union> joined ys" "joined (Join_thread t # xs) = insert t (joined xs)"
  "joined (Free m # xs) = joined xs" "joined (Use m # xs) = joined xs"
  "freed_by [] = {}" "freed_by (xs @ ys) = freed_by xs \<union> freed_by ys" "freed_by (Free m # xs) = insert m (freed_by xs)"
  "freed_by (Join_thread t # xs) = freed_by xs" "freed_by (Use m # xs) = freed_by xs"
  by (auto simp: joined_def freed_by_def)

lemma carry_out_eq:
  "carry_out a (\<lparr>pending = acts, live = ts, freed = fr\<rparr>) = \<lparr>pending = acts, live = ts - joined [a], freed = fr \<union> freed_by [a]\<rparr>"
  by (cases a) (auto simp: joined_def freed_by_def)

text \<open>A destructor is clean if after each of its beginnings nothing dangles.\<close>

lemma clean_iff:
  "clean \<lparr>pending = acts, live = ts, freed = fr\<rparr> \<longleftrightarrow>
     (\<forall>xs ys. acts = xs @ ys \<longrightarrow> \<not> dangling \<lparr>pending = ys, live = ts - joined xs, freed = fr \<union> freed_by xs\<rparr>)"
proof (induction acts arbitrary: ts fr)
  case Nil
  show ?case by (simp add: clean.simps [of "\<lparr>pending = [], live = ts, freed = fr\<rparr>"])
next
  case (Cons a acts)
  have eq: "ts - joined [a] - joined xs = ts - joined (a # xs)" "fr \<union> freed_by [a] \<union> freed_by xs = fr \<union> freed_by (a # xs)" for xs
    by (auto simp: joined_def freed_by_def)
  have "clean \<lparr>pending = a # acts, live = ts, freed = fr\<rparr> \<longleftrightarrow>
      \<not> dangling \<lparr>pending = a # acts, live = ts, freed = fr\<rparr> \<and>
      clean \<lparr>pending = acts, live = ts - joined [a], freed = fr \<union> freed_by [a]\<rparr>"
    by (subst clean.simps) (simp add: carry_out_eq)
  then show ?case
    unfolding Cons.IH eq by (auto simp: Cons_eq_append_conv all_conj_distrib)
qed

lemma hazardousI:
  assumes "acts = xs @ ys" "t \<in> ts" "t \<notin> joined xs" "m \<in> follows_members t" "m \<in> freed_by xs"
  shows "hazardous acts ts"
  unfolding hazardous_iff clean_iff using assms by (fastforce simp: dangling_def)

lemma hazardous_useI:
  assumes "acts = xs @ Use m # ys" "m \<in> freed_by xs"
  shows "hazardous acts ts"
  unfolding hazardous_iff clean_iff using assms by (fastforce simp: dangling_def)

text \<open>All threads are joined before anything is freed, and nothing freed is used.\<close>

lemma not_hazardousI:
  assumes "acts = xs @ ys" "ts \<subseteq> joined xs" "freed_by xs = {}" "\<And>m. Use m \<notin> set acts"
  shows "\<not> hazardous acts ts"
  unfolding hazardous_iff clean_iff not_not
proof (intro allI impI notI)
  fix us vs
  assume split: "acts = us @ vs" and d: "dangling \<lparr>pending = vs, live = ts - joined us, freed = {} \<union> freed_by us\<rparr>"
  have "vs \<noteq> Use m # ws" for m ws using assms(4) [of m] split by auto
  then have "\<exists>t \<in> ts - joined us. follows_members t \<inter> freed_by us \<noteq> {}"
    using d by (auto simp: dangling_def split: list.splits teardown.splits)
  then obtain t where t: "t \<in> ts" "t \<notin> joined us" "freed_by us \<noteq> {}" by blast
  from split assms(1) consider zs where "xs = us @ zs" | zs where "us = xs @ zs" by (auto simp: append_eq_append_conv2)
  then show False
  proof cases
    case 1
    with assms(3) t(3) show False by simp
  next
    case 2
    with assms(2) t(1,2) show False by auto
  qed
qed

lemma joined_concat: "joined (concat (map f xs)) = (\<Union>x \<in> set xs. joined (f x))"
  by (auto simp: joined_def)

lemma freed_by_concat: "freed_by (concat (map f xs)) = (\<Union>x \<in> set xs. freed_by (f x))"
  by (auto simp: freed_by_def)

lemma body_joins:
  "joined (map (on_thread Rtsp_loop) (RtspService_dtor s)) = Rtsp_loop ` {..<mEventLoopThreads s}"
  "joined (map (on_thread File_loop) (RtpProducer_dtor p)) = File_loop ` {..<mFileIoBases p}"
  "freed_by (map (on_thread mk) acts) = {}" "Use m \<notin> on_thread mk ` set acts"
proof -
  show "joined (map (on_thread Rtsp_loop) (RtspService_dtor s)) = Rtsp_loop ` {..<mEventLoopThreads s}"
    "joined (map (on_thread File_loop) (RtpProducer_dtor p)) = File_loop ` {..<mFileIoBases p}"
    by (auto simp: RtspService_dtor_def RtpProducer_dtor_def map_concat joined_concat joined_def)
  have "Free m \<noteq> on_thread mk a" "Use m \<noteq> on_thread mk a" for a m by (cases a; simp)+
  note no = this
  show "freed_by (map (on_thread mk) acts) = {}" using no(1) by (auto simp: freed_by_def)
  show "Use m \<notin> on_thread mk ` set acts" using no(2) by auto
qed

text \<open>The threads that may still have something to do: a pool has, if it has a task.\<close>

definition busy :: "'a thread_pool \<Rightarrow> bool" where
  "busy q \<longleftrightarrow> mTasks q \<noteq> [] \<or> running q \<noteq> []"

definition net_threads :: "'f network_server \<Rightarrow> thread_id set" where
  "net_threads ns = Udp_loop ` {..<mpUdpWorkers ns} \<union>
     Udp_worker ` {k. k < length (mpUdpWorkerThreads ns) \<and> busy (mpUdpWorkerThreads ns ! k)}"

definition prod_threads :: "nat set \<Rightarrow> 'cb rtp_producer \<Rightarrow> thread_id set" where
  "prod_threads calls p = File_loop ` {..<mFileIoBases p} \<union> Grpc_thread ` calls \<union>
     (case mpFileIoThreadPool p of None \<Rightarrow> {} | Some q \<Rightarrow> if busy q then File_worker ` {..<length (mWorks q)} else {})"

definition rtsp_threads :: "rtsp_service \<Rightarrow> thread_id set" where
  "rtsp_threads s = Rtsp_loop ` {..<mEventLoopThreads s}"

lemma NetworkServer_hazard: "hazardous (NetworkServer_dtor ns) (net_threads ns) \<longleftrightarrow> net_threads ns \<noteq> {}"
proof
  assume "net_threads ns \<noteq> {}"
  then obtain t where t: "t \<in> net_threads ns" by blast
  then have peers: "RegisteredPeers \<in> follows_members t" by (auto simp: net_threads_def)
  show "hazardous (NetworkServer_dtor ns) (net_threads ns)"
    by (rule hazardousI [OF _ t _ peers, of _ "[Free RegisteredPeers]"])
      (auto simp: NetworkServer_dtor_def NetworkServer_members_def)
next
  assume "hazardous (NetworkServer_dtor ns) (net_threads ns)"
  moreover have "\<not> hazardous (NetworkServer_dtor ns) {}"
    by (rule not_hazardousI [of _ "[]"]) (auto simp: NetworkServer_dtor_def NetworkServer_members_def UdpEventLoop_dtor_def)
  ultimately show "net_threads ns \<noteq> {}" by auto
qed

lemma RtspService_hazard:
  "hazardous (RtspService_teardown calls_close s) (rtsp_threads s) \<longleftrightarrow> calls_close \<and> mBev2RtspServer s \<noteq> []"
proof (cases "if calls_close then mBev2RtspServer s else []")
  case Nil
  then have Nil: "(if calls_close then length (mBev2RtspServer s) else 0) = 0" by (simp split: if_splits)
  have "\<not> hazardous (RtspService_teardown calls_close s) (rtsp_threads s)"
    by (rule not_hazardousI [of _ "map (on_thread Rtsp_loop) (RtspService_dtor s)"])
      (auto simp: RtspService_teardown_def RtspService_members_def rtsp_threads_def body_joins Nil)
  with Nil show ?thesis by (simp split: if_splits)
next
  case (Cons c cs)
  then have Cons: "calls_close" "mBev2RtspServer s = c # cs" by (simp_all split: if_splits)
  have "RtspService_teardown calls_close s = (map (on_thread Rtsp_loop) (RtspService_dtor s) @
      [Free VideoRequest2ProxyInfo, Free ProxyInfoMutex]) @ Use ProxyInfoMutex # Use VideoRequest2ProxyInfo #
      concat (replicate (length cs) [Use ProxyInfoMutex, Use VideoRequest2ProxyInfo]) @ [Free Bev2RtspServer] @
      map Free [RtspServerMutex, RtpProducerPtr, RtspHandler, EventListeners, EventBases, EventLoopThreads]"
    by (simp add: RtspService_teardown_def RtspService_members_def Cons)
  then have "hazardous (RtspService_teardown calls_close s) (rtsp_threads s)"
    by (rule hazardous_useI) simp
  with Cons show ?thesis by simp
qed

lemma RtpProducer_hazard:
  assumes "calls \<subseteq> {..<g}"
  shows "hazardous (RtpProducer_teardown g p) (prod_threads calls p) \<longleftrightarrow>
    calls \<noteq> {} \<or> (\<exists>q. mpFileIoThreadPool p = Some q \<and> busy q \<and> mWorks q \<noteq> [])"
proof -
  let ?body = "map (on_thread File_loop) (RtpProducer_dtor p)"
  let ?n = "case mpFileIoThreadPool p of None \<Rightarrow> 0 | Some q \<Rightarrow> length (mWorks q)"
  let ?grpc = "[Free NetworkServerPtr] @ map (\<lambda>i. Join_thread (Grpc_thread i)) [0..<g] @ [Free GrpcClient]"
  let ?maps = "map Free [Stub, RtpContextMutex, RtpVideoContextMap, FileContextMutex, FileVideoContextMap]"
  let ?rest = "map (\<lambda>i. Join_thread (File_worker i)) [0..<?n] @ map Free [FileIoThreadPool, FileKeepAliveEvents, FileIoBases, FileThreads]"
  have acts: "RtpProducer_teardown g p = ?body @ ?grpc @ ?maps @ ?rest"
    by (simp add: RtpProducer_teardown_def RtpProducer_members_def)
  show ?thesis
  proof (cases "calls = {}")
    case False
    then obtain i where i: "Grpc_thread i \<in> prod_threads calls p" by (auto simp: prod_threads_def)
    have "hazardous (RtpProducer_teardown g p) (prod_threads calls p)"
      by (rule hazardousI [OF _ i, of _ "?body @ [Free NetworkServerPtr]" _ NetworkServerPtr])
        (auto simp: acts body_joins)
    with False show ?thesis by simp
  next
    case no_calls: True
    show ?thesis
    proof (cases "\<exists>q. mpFileIoThreadPool p = Some q \<and> busy q \<and> mWorks q \<noteq> []")
      case True
      then have "File_worker 0 \<in> prod_threads calls p" by (auto simp: prod_threads_def)
      moreover have "File_worker 0 \<notin> joined (?body @ ?grpc @ ?maps)"
        by (auto simp: body_joins) (auto simp: joined_def)
      ultimately have "hazardous (RtpProducer_teardown g p) (prod_threads calls p)"
        by (intro hazardousI [of _ "?body @ ?grpc @ ?maps" ?rest "File_worker 0" _ FileContextMutex]) (simp_all add: acts)
      with True show ?thesis by simp
    next
      case False
      then have "prod_threads calls p \<subseteq> joined ?body"
        by (auto simp: prod_threads_def no_calls body_joins split: option.splits if_splits)
      then have "\<not> hazardous (RtpProducer_teardown g p) (prod_threads calls p)"
        by (intro not_hazardousI [of _ ?body]) (auto simp: acts body_joins)
      with False no_calls show ?thesis by simp
    qed
  qed
qed

section \<open>Results\<close>



text \<open>
  C40: A process that is configured with UDP loops but without RTSP loops returns from \<open>Dispatch\<close> at once
  and ends with undefined behaviour at hand: the destructors of its three objects run while its UDP
  loops still receive, and destroy the peers and buffers these use before they are joined.
\<close>

theorem main_exit_hazardous:
  assumes "ffvms_main env True (Some cfg) = Inr (mm, s)" "0 < loops env cfg" "main_exit g calls_close s = Some acts"
  shows "\<exists>ns. server s = Some ns \<and> net_threads ns \<noteq> {} \<and> hazardous acts (net_threads ns)"
proof -
  from assms(1,2) obtain ns where ns: "server s = Some ns" "0 < mpUdpWorkers ns"
    by (rule main_server) (use assms(2) in auto)
  let ?xs = "RtspService_teardown calls_close s @ RtpProducer_teardown g (mpRtpProducer s) @ [Free RegisteredPeers]"
  have "acts = ?xs @ tl (NetworkServer_dtor ns)"
    using assms(3) ns(1) by (auto simp: main_exit_def NetworkServer_dtor_def NetworkServer_members_def split: if_splits)
  moreover have "Udp_loop 0 \<notin> joined ?xs"
    by (auto simp: RtspService_teardown_def RtspService_members_def RtpProducer_teardown_def RtpProducer_members_def body_joins)
      (auto simp: joined_def split: if_splits)
  ultimately have "hazardous acts (net_threads ns)"
    using ns(2) by (intro hazardousI [where t = "Udp_loop 0" and m = RegisteredPeers and xs = ?xs]) (auto simp: net_threads_def)
  with ns show ?thesis by (auto simp: net_threads_def)
qed

theorem main_exit_hazardous_witness:
  "ffvms_main demo_env True (Some demo_cfg) = Inr (demo_mm, demo_svc) \<and>
   (\<exists>acts ns. main_exit 1 True demo_svc = Some acts \<and> server demo_svc = Some ns \<and> hazardous acts (net_threads ns))"
proof -
  obtain acts where acts: "main_exit 1 True demo_svc = Some acts"
    by (simp add: main_exit_def Dispatch_returns_def demo_svc_def RtspService_def)
  from main_exit_hazardous [OF demo_main demo_loops(1) acts] acts demo_main show ?thesis by blast
qed

end
