(* ===== verification/Spec2Isabelle.thy ===== *)
theory Spec2Isabelle
  imports Lock_Discipline Unit_Tests Rtsp_Session Shutdown
begin

text \<open>
  ffvms is a video streaming server. Clients ask over RTSP for a file or for a camera behind a GB28181
  gateway and receive its video as RTP packets, interleaved on their RTSP connection. The sources
  are under \<open>src/\<close>; file names below are relative to it.

  \<^bold>\<open>The parts and how they interact.\<close> \<open>main\<close> (\<open>core/ffvms.cpp\<close>) starts the metrics, the network server, the
  producer and the service. The service (\<open>core/src/rtsp_service.cpp\<close>) keeps one proxy per video, with
  the clients that watch it in four sets by how far they have come. The first \<open>DESCRIBE\<close> registers
  the video with the producer (\<open>core/src/rtp_producer.cpp\<close>) and hands it three callbacks: for the
  description, for packets, for errors. For a camera the producer invites the gateway through the
  asynchronous RPC client (\<open>common/grpc\<close>), and when the answer comes registers the camera's address
  with the network server (\<open>core/src/network_server.cpp\<close>), whose receive loop then gives each datagram
  of that address to the producer, which depacketizes it, encodes RTP packets and calls the packet
  callback; the proxy frames the packet and sends it to its playing clients. For a file a thread
  pool (\<open>common/thread_pool\<close>) probes it, and a timer reads and remuxes one frame per tick.

  \<^bold>\<open>Theories.\<close>
  \<^item> \<open>Ffvms_Prelude\<close>: results that may be errors, \<open>std::string\<close> search, decimal printing, 32-bit signed
    arithmetic, \<open>std::set\<close> of pointers as ascending lists.
  \<^item> \<open>Ordered_Map\<close>: \<open>std::map\<close> as an ascending list of entries, with its laws in a locale over every
    strict weak order; interpreted for the orders on requests, strings and pointers.
  \<^item> \<open>Video_Request\<close>: \<open>core/src/common.cpp\<close>, \<open>core/include/common.h\<close>: URLs and their parts, the order and
    the hash of requests. Parsing is total and inverse to printing on file URLs; two requests are one
    key exactly if they name one source.
  \<^item> \<open>Thread_Pool\<close>: \<open>submit\<close>, workers and destructor as atomic steps under the mutex. Tasks run once, in
    order with one thread (a locale for serial executors, interpreted on the pool), the queue drains,
    the destructor returns.
  \<^item> \<open>Metrics_Manager\<close>: the singleton and its metrics; families are values, observations outputs.
  \<^item> \<open>Network_Server\<close>: initialisation, the peer table (a locale, interpreted), the ring of receive slots,
    the receive loop with and without workers. Packets keep their bytes while fewer than two buffers
    of slots have been handed out since, and each peer's order always.
  \<^item> \<open>File_Video\<close>: \<open>FileVideoContext\<close> and \<open>FFGetFrame\<close>: time stamps, repetition, errors, and that a tick
    returns. FFmpeg is a record of functions over an environment.
  \<^item> \<open>Rtp_Producer\<close>: \<open>RegisterVideo\<close>, \<open>UnregisterVideo\<close>, the invite callback, the packet path, the probe of
    a file, the destructor. A step relation over all of them with its invariant; what stops after
    unregistration; what every answer and every probe comes to.
  \<^item> \<open>Rtsp_Service\<close>: connections, handlers, callbacks; a step relation over all of them; no media before
    \<open>PLAY\<close>. \<open>Rtsp_Clients\<close>: the invariant of the service, and that polite clients are each in one place.
    \<open>Rtsp_Delivery\<close>: descriptions, framing, and what happens when a client goes. \<open>Rtsp_Failures\<close>: the
    orders of events in which clients are lost, refused or followed after they are gone.
  \<^item> \<open>Rtsp_Session\<close>: what the service promises one client, as an automaton of that client alone, and a
    locale for trace refinement, interpreted on the service here and on the whole process below: all
    that is sent to a client is a run of its automaton.
  \<^item> \<open>Lock_Discipline\<close>: which mutex each operation of the program takes, in which order and mode, and what
    it reads and writes under it; threads interleave between any two actions. Where accesses are
    ordered by a mutex, where they race, that the order of the mutexes has no cycle, and what a
    \<open>shared_mutex\<close> that prefers writers does to that.
  \<^item> \<open>Gateway\<close>: \<open>VideoGreeterServiceImpl\<close> of \<open>core/unittest/rtp_producer_ut.cpp\<close>, the one gateway in the
    repository, talking to the producer with requests and answers that overtake each other. Cameras
    keep apart; which sessions are never torn down.
  \<^item> \<open>Unit_Tests\<close>: the unit tests as programs of the model, and what they observe.
  \<^item> \<open>Async_Client\<close>: \<open>common/grpc\<close>: every call is answered once, calls take the queues in turn, the
    destructor returns.
  \<^item> \<open>Rtp_Payload_Tool\<close>: \<open>tools/src/rtp-payload-test.cpp\<close>: reading the packet file and writing ADTS.
  \<^item> \<open>Ffvms_Main\<close>: \<open>main\<close>, and socket events and the tasks of the UDP workers carried through network
    server, producer and service, with the history of the network server in every run of the
    process. The theory \<open>Spec2Isabelle\<close> itself proves what spans all of them: the invariant of the
    process, the sessions of its clients, and the way of a camera's datagrams to the player, at once
    in a process without UDP workers and through their queues in one with workers.
  \<^item> \<open>Shutdown\<close>: the destructors of the three objects of \<open>main\<close>: their bodies, then the members from the
    last declared to the first, with what each joins or calls. Which threads of an object, and which
    code of its destructor, may follow a member of it that is gone already, exactly.

  \<^bold>\<open>How state and operations correspond.\<close> Classes are records with the source's member names, and the
  service holds the producer, which holds the network server, as the shared pointers do after \<open>main\<close>.
  A function is a definition of its name returning \<open>Inl\<close> of what it throws, \<open>Fatal\<close> for \<open>LOG(FATAL)\<close>,
  \<open>Undefined_behaviour\<close> where C++ gives no meaning, or \<open>Inr\<close> of the new state and its outputs: replies,
  closed sockets, remote calls, counters, calls of callbacks. Objects have addresses given out once;
  a pointer is followed only while the map that owns its object still has it. A callback is the
  address of the proxy it is bound to. In all theories but \<open>Lock_Discipline\<close> an operation with its
  critical sections is one step and operations of several threads interleave as steps of a
  relation; \<open>Lock_Discipline\<close> shows for which of the shared containers the mutexes justify that, and
  for which accesses they do not.

  \<^bold>\<open>Bounds.\<close> The timer callback \<open>FFGetFrame\<close> may loop, so its loop takes fuel and \<open>None\<close> is running out;
  the number of passes that is enough is part of the theorem that it returns. Every other loop is
  structural or has a measure. Integers are unbounded where the source's cannot overflow by its own
  bounds; the receive buffer size, the bandwidth, the deadline, the cursors, ports, bytes and frame
  lengths have their width.

  \<^bold>\<open>Parameters.\<close> libevent, the kernel, FFmpeg, librtp, librtsp, gRPC, Prometheus and the JSON library are
  not part of the sources: what they return is an argument, a choice of a step, or a record of
  functions. Relied on are: \<open>rtsp_server_destroy\<close> calls the handler \<open>close\<close>; a completion queue hands each
  call out once and ends only after \<open>Shutdown\<close> when it is empty.

  \<^bold>\<open>Not modelled.\<close> \<open>common/error_code\<close> and \<open>common/utils\<close> (logging macros and two type aliases the core does
  not use), \<open>funcTrace\<close> and other logging, the futures \<open>submit\<close> returns, the start of
  threads, \<open>Send\<close> (it copies bytes to a socket buffer), the command line flags, the tests that are
  commented out, \<open>push_rtp.sh\<close>, and \<open>java\<close>, which has build files and archives but no sources. Of the mutexes, \<open>demuxMutex\<close> (taken by one camera's packets inside the callback only)
  and \<open>mBufferMutex\<close> (the receive cursor, atomic in \<open>Network_Server\<close>) are left out, and so is the memory
  model: a race is two threads at conflicting accesses, not what such accesses then do. In \<open>Shutdown\<close> a thread follows the members its
  code names (\<open>follows_members\<close>), of its own object only: callbacks from one object into another that
  is gone are not counted there.
\<close>

section \<open>The whole process\<close>

text \<open>
  C16: In every state the process reaches after \<open>main\<close> has brought its parts up, with polite clients
  and any number of UDP workers, whatever clients, cameras, the gateway, files, the socket and the
  workers do: the service and the producer keep their invariants, no client is in two places or
  dangling, the metrics are up, and an event of the socket finds its receive buffers and running
  workers: the receive loop returns for every queue of datagrams.
\<close>

theorem process_invariant:
  assumes "ffvms_main env True (Some cfg) = Inr (mm, s0)" "0 < loops env cfg" "sys_run mm hash s0 tr s"
  shows "svc_ok s \<and> tidy s \<and> (\<exists>m. mm_GetInstance mm = Inr m) \<and>
    (\<exists>ns. mpNetworkServer (mpRtpProducer s) = Some ns \<and> (\<forall>queue. \<exists>r. udp_loop hash queue ns = Inr r))"
proof -
  have "sys_ok (slots env cfg) (workers env cfg) s" by (rule sys_run_ok [OF assms(3) main_Init(1) [OF assms(1,2)]])
  then obtain ns n where "svc_ok s" "tidy s" "mpNetworkServer (mpRtpProducer s) = Some ns"
    "ring_at (slots env cfg) n ns" "\<forall>q \<in> set (mpUdpWorkerThreads ns). \<not> mStop q"
    by (auto simp: sys_ok_def net_ok_def)
  moreover from udp_loop_returns [OF this(4,5)] have "\<exists>r. udp_loop hash queue ns = Inr r" for queue by blast
  moreover have "\<exists>m. mm_GetInstance mm = Inr m"
    by (simp add: main_Init(2) [OF assms(1,2)] mm_GetInstance_def mm_up_instance)
  ultimately show ?thesis by blast
qed

theorem process_invariant_witness:
  "\<exists>tr s. sys_run demo_mm (\<lambda>_. 0) demo_svc tr s \<and> Interleaved 0 [0x24, 0, 0, 3, 128, 96, 7] \<in> set tr \<and> svc_ok s \<and> tidy s"
proof -
  from demo_media_run obtain tr s where tr: "svc_run demo_mm True demo_svc tr s"
    "Interleaved 0 [0x24, 0, 0, 3, 128, 96, 7] \<in> set tr" by blast
  from process_invariant [OF demo_main demo_loops(1) svc_run_sys [OF tr(1)], of "\<lambda>_. 0"] svc_run_sys [OF tr(1)] tr(2)
  show ?thesis by blast
qed



section \<open>The stream through the workers\<close>

text \<open>A worker finds the bytes of its task as they were received while fewer than two buffers of slots have been taken since.\<close>

lemma task_intact:
  assumes "ns_run hash mm ns0 evs ns" "ring_at C 0 ns0" "n < length (slot_log evs)" "slot_log evs ! n = Some (d, t)"
    "length (slot_log evs) \<le> n + 2 * C" "peers_look ns (peer_name (sender d)) = Some i"
  shows "from_peer t = peer_name (sender d)" "process_packet t ns = Some (delivery ns d)"
proof -
  have t: "t = \<lparr>data = slot_of C n, len = length (stored d), from_peer = peer_name (sender d)\<rparr>"
    "mem_read (data t) (len t) (mpReceiveBuffers ns) = stored d"
    using ns_run_packets [OF assms(1,2)] assms(3-5) by (auto simp: packets_inv_def)
  show "from_peer t = peer_name (sender d)" using t(1) by simp
  show "process_packet t ns = Some (delivery ns d)"
    using assms(6) t(2) unfolding t(1) by (auto simp: process_packet_def delivery_def peers_look_def)
qed



section \<open>Every client has its session\<close>

lemma session_set_server [simp]: "session es (set_server ns s) = session es s"
  by (simp add: set_server_def)

lemma deliver_follows:
  "deliver demux enc n nouts s = Inr (s', outs) \<Longrightarrow> tidy s \<Longrightarrow> svc_ok s \<Longrightarrow> follows s outs s'"
proof (induction nouts arbitrary: n s outs)
  case (Cons out nouts)
  show ?case
  proof (cases out)
    case (Increment c m)
    with Cons obtain outs' where "outs = Producer (Inc c m) # outs'" "follows s outs' s'"
      by (auto simp: res_bind_Inr_iff)
    then show ?thesis by (simp add: follows_def)
  next
    case (Process i pkt)
    with Cons.prems(1) obtain pouts s1 o1 o2 where
      1: "callbacks pouts s = Inr (s1, o1)" "deliver demux enc (Suc n) nouts s1 = Inr (s', o2)" and outs: "outs = o1 @ o2"
      by (auto simp: res_bind_Inr_iff)
    from Cons.IH [OF 1(2)] callbacks_tidy [OF 1(1)] callbacks_ok [OF 1(1)] Cons.prems(2,3)
    have "follows s1 o2 s'" by simp
    then show ?thesis unfolding outs by (rule follows_trans [OF callbacks_follow [OF 1(1) Cons.prems(2,3)]])
  qed
qed (simp add: follows_refl)

lemma sys_step_follows:
  assumes "sys_step mm hash s outs s'" "sys_ok C w s"
  shows "follows s outs s'"
  using assms(1)
proof cases
  case service
  then show ?thesis using svc_step_follows assms(2) by (simp add: sys_ok_def)
next
  case (socket demux enc queue rest)
  then obtain ns nouts where "deliver demux enc 0 nouts (set_server ns s) = Inr (s', outs)"
    by (auto simp: udp_event_def res_bind_Inr_iff)
  from deliver_follows [OF this] assms(2) have "follows (set_server ns s) outs s'" by (simp add: sys_ok_def)
  then show ?thesis by (simp add: follows_def)
next
  case (worker_start ns k i t q)
  then show ?thesis by (simp add: follows_refl)
next
  case (worker_exec ns k i t q demux enc)
  from deliver_follows [OF worker_exec(4)] assms(2) have "follows (set_server (set_pool k q ns) s) outs s'"
    by (simp add: sys_ok_def)
  then show ?thesis by (simp add: follows_def)
qed

interpretation whole: trace_refinement "sys_step mm hash" "sys_ok C w" "session es" "session_step es" "for_client es"
  for mm hash C w es
proof
  show "sys_ok C w s'" if "sys_ok C w s" "sys_step mm hash s outs s'" for s outs s'
    using that sys_step_ok by blast
  show "run_of (session_step es) (session es s) (for_client es outs) (session es s')"
    if "sys_ok C w s" "sys_step mm hash s outs s'" for s outs s'
    using that sys_step_follows unfolding follows_def by blast
qed simp_all

lemma sys_run_run_of: "sys_run mm hash s0 tr s \<Longrightarrow> run_of (sys_step mm hash) s0 tr s"
  by (induction rule: sys_run.induct) (auto intro: run_of.intros)

lemma main_unconnected:
  assumes "ffvms_main env True (Some cfg) = Inr (mm, s)"
  shows "session es s = Unconnected"
proof -
  from assms obtain p where "RtspService_Init (env_rtsp_pthreads env) (env_rtsp env) (env_concurrency env)
      (cfg_rtsp_service cfg) p RtspService = Inr s"
    by (auto simp: ffvms_main_def Let_def res_bind_Inr_iff)
  then show ?thesis by (rule session_Init)
qed

text \<open>
  C3: The whole process implements the session of every client. From \<open>main\<close> on, with polite clients,
  whatever connections, the producer, the gateway, files, the socket and the UDP workers do, all
  that is ever sent to a client is a run of that client's own automaton: it is connected, asks
  for \<open>OPTIONS\<close> of one video, waits for or gets the description, may then play it and only then gets
  frames, and is gone for good; where it stands in the automaton is where the four sets of the
  proxies have it.
\<close>

theorem sessions_refined:
  assumes "ffvms_main env True (Some cfg) = Inr (mm, s0)" "0 < loops env cfg" "sys_run mm hash s0 tr s"
  shows "run_of (session_step es) Unconnected (for_client es tr) (session es s)"
  using whole.run_simulates [OF sys_run_run_of [OF assms(3)] main_Init(1) [OF assms(1,2)]]
  by (simp add: main_unconnected [OF assms(1)])

theorem sessions_refined_witness:
  "\<exists>tr s. sys_run demo_mm (\<lambda>_. 0) demo_svc tr s \<and> Interleaved 0 [0x24, 0, 0, 3, 128, 96, 7] \<in> set tr \<and>
     run_of (session_step 0) Unconnected (for_client 0 tr) (session 0 s)"
proof -
  from demo_media_run obtain tr s where tr: "svc_run demo_mm True demo_svc tr s"
    "Interleaved 0 [0x24, 0, 0, 3, 128, 96, 7] \<in> set tr" by blast
  from sessions_refined [OF demo_main demo_loops(1) svc_run_sys [OF tr(1)], of 0] svc_run_sys [OF tr(1)] tr(2)
  show ?thesis by blast
qed

lemma demo_leaves: "\<exists>s'. errorcb True 5 demo_playing = Inr (s', [Producer (Rpc (TearDown ''inv1''))])"
proof -
  have "UnregisterVideo demo_camera (mpRtpProducer demo_playing) =
      Inr ((mpRtpProducer demo_playing)\<lparr>mRtpVideoContextMap := []\<rparr>, [Rpc (TearDown ''inv1'')])"
    by (simp add: UnregisterVideo_def demo_playing_def demo_ready_def) (simp add: demo_camera_def VideoRequest_def)
  moreover have "mBev2RtspServer demo_playing = [(5, 0)]" "mVideoRequest2ProxyInfo demo_playing =
      [(demo_camera, demo_px\<lparr>playingClients := [0], px_registered := True, sourceSdp := demo_sdp\<rparr>)]"
    by (simp_all add: demo_playing_def demo_ready_def demo_open_def)
  ultimately show ?thesis
    by (simp add: errorcb_def Close_def drop_client_def demo_px_def ProxyInfo_def with_producer_def put_proxy_def
        pset_erase_def)
qed



end
